(* ===== verification/Dfs_Prelude.thy ===== *)
theory Dfs_Prelude
  imports Main "HOL-Library.Word"
begin

text \<open>
  Shared vocabulary of the development: the byte and string types of the C++ code, the
  outcomes of an operation that may throw or block, the collections of rewrite rules the
  component proofs use, and generic list lemmas.

  A \<^verbatim>\<open>std::vector<uint8_t>\<close> is a list of 8-bit words, a \<^verbatim>\<open>std::string\<close> a list of
  characters. The casts between them that the code performs
  (\<^verbatim>\<open>reinterpret_cast<const uint8_t*>(s.data())\<close> and
  \<^verbatim>\<open>std::string(d.begin(), d.end())\<close>) are \<open>bytes_of_string\<close> and \<open>string_of_bytes\<close>.
\<close>

section \<open>Types\<close>

type_synonym byte = "8 word"
type_synonym bytes = "byte list"

named_theorems text_simps \<open>rules that evaluate the text primitives on well-formed input\<close>
named_theorems wire_simps \<open>rules for framing and reading back one message\<close>
named_theorems node_simps \<open>rules for one iteration of a server's command loop\<close>

section \<open>Casts between strings and byte vectors\<close>

definition bytes_of_string :: "string \<Rightarrow> bytes" where
  "bytes_of_string s = map (\<lambda>c. word_of_nat (of_char c)) s"

definition string_of_bytes :: "bytes \<Rightarrow> string" where
  "string_of_bytes bs = map (\<lambda>b. char_of (unat b)) bs"

lemma length_bytes_of_string [simp]: "length (bytes_of_string s) = length s"
  by (simp add: bytes_of_string_def)

lemma length_string_of_bytes [simp]: "length (string_of_bytes s) = length s"
  by (simp add: string_of_bytes_def)

lemma bytes_of_string_Nil_iff [simp]: "bytes_of_string s = [] \<longleftrightarrow> s = []"
  by (simp add: bytes_of_string_def)

lemma string_of_bytes_Nil_iff [simp]: "string_of_bytes s = [] \<longleftrightarrow> s = []"
  by (simp add: string_of_bytes_def)

lemma bytes_of_string_append [simp]:
  "bytes_of_string (s @ t) = bytes_of_string s @ bytes_of_string t"
  by (simp add: bytes_of_string_def)

lemma unat_of_char: "unat (word_of_nat (of_char c) :: byte) = of_char c"
proof -
  have "(of_char c :: nat) < 256" using nat_of_char_less_256 by auto
  then show ?thesis by (simp add: unat_of_nat)
qed

lemma string_of_bytes_of_string [simp]: "string_of_bytes (bytes_of_string s) = s"
  by (induction s) (simp_all add: bytes_of_string_def string_of_bytes_def unat_of_char)

lemma bytes_of_string_of_bytes [simp]: "bytes_of_string (string_of_bytes b) = b"
proof (induction b)
  case (Cons x xs)
  have "unat x < 2 ^ LENGTH(8)" by (rule unsigned_less)
  then show ?case using Cons by (simp add: bytes_of_string_def string_of_bytes_def)
qed (simp add: bytes_of_string_def string_of_bytes_def)

section \<open>Outcomes\<close>

text \<open>
  A call returns, throws a C++ exception, or blocks for ever on a socket read that no
  peer will satisfy.
\<close>

datatype exn = Invalid_argument | Out_of_range

datatype 'a outcome = Ret 'a | Throw exn | Hang

section \<open>List lemmas\<close>

lemma takeWhile_all_append:
  "\<forall>x \<in> set xs. P x \<Longrightarrow> takeWhile P (xs @ ys) = xs @ takeWhile P ys"
  by (induction xs) auto

lemma dropWhile_all_append:
  "\<forall>x \<in> set xs. P x \<Longrightarrow> dropWhile P (xs @ ys) = dropWhile P ys"
  by (induction xs) auto

lemma takeWhile_until: "c \<notin> set xs \<Longrightarrow> takeWhile (\<lambda>x. x \<noteq> c) (xs @ c # ys) = xs"
  by (induction xs) auto

lemma dropWhile_until: "c \<notin> set xs \<Longrightarrow> dropWhile (\<lambda>x. x \<noteq> c) (xs @ c # ys) = c # ys"
  by (induction xs) auto

lemma takeWhile_absent: "c \<notin> set xs \<Longrightarrow> takeWhile (\<lambda>x. x \<noteq> c) xs = xs"
  by (induction xs) auto

lemma dropWhile_absent: "c \<notin> set xs \<Longrightarrow> dropWhile (\<lambda>x. x \<noteq> c) xs = []"
  by (induction xs) auto

lemmas until_simps = takeWhile_until dropWhile_until takeWhile_absent dropWhile_absent

lemma takeWhile_stop: "ys = [] \<or> \<not> P (hd ys) \<Longrightarrow> takeWhile P ys = []"
  by (cases ys) auto

lemma dropWhile_stop: "ys = [] \<or> \<not> P (hd ys) \<Longrightarrow> dropWhile P ys = ys"
  by (cases ys) auto

section \<open>Narrowing\<close>

text \<open>\<^verbatim>\<open>static_cast<int>(n)\<close> of a \<open>size_t\<close>.\<close>

definition to_i32 :: "nat \<Rightarrow> int" where
  "to_i32 n = sint (word_of_nat n :: 32 word)"

lemma to_i32_small: "n < 2 ^ 31 \<Longrightarrow> to_i32 n = int n"
  by (simp add: to_i32_def signed_of_nat signed_take_bit_int_eq_self)

lemma to_i32_range: "- (2 ^ 31) \<le> to_i32 n \<and> to_i32 n < 2 ^ 31"
  using sint_ge [of "word_of_nat n :: 32 word"] sint_lt [of "word_of_nat n :: 32 word"] by (simp add: to_i32_def)

end
