(* ===== verification/Sha256.thy ===== *)
theory Sha256
  imports Dfs_Prelude
begin

unbundle bit_operations_syntax

text \<open>
  \<^verbatim>\<open>src/src/common/sha256.cpp\<close>: the self-contained SHA-256. The first section follows
  the code: the round constants, the bit functions, \<open>sha256_transform\<close> with its schedule
  array and its 64 rounds, and \<open>sha256\<close> with its one reused 64-byte stack buffer. The
  buffer starts with arbitrary contents, so those contents are an argument.

  The second section is the standard's description (FIPS 180-4): the padded message cut
  into blocks, the schedule as a recurrence, the library's word rotation. The last
  section shows that the code computes it for every input and every initial buffer.
\<close>

section \<open>The code\<close>

type_synonym u32 = "32 word"

text \<open>The table, row by row as the source lays it out.\<close>

definition k_table :: "u32 list" where
  "k_table = concat [
    [0x428a2f98, 0x71374491, 0xb5c0fbcf, 0xe9b5dba5, 0x3956c25b, 0x59f111f1, 0x923f82a4, 0xab1c5ed5],
    [0xd807aa98, 0x12835b01, 0x243185be, 0x550c7dc3, 0x72be5d74, 0x80deb1fe, 0x9bdc06a7, 0xc19bf174],
    [0xe49b69c1, 0xefbe4786, 0x0fc19dc6, 0x240ca1cc, 0x2de92c6f, 0x4a7484aa, 0x5cb0a9dc, 0x76f988da],
    [0x983e5152, 0xa831c66d, 0xb00327c8, 0xbf597fc7, 0xc6e00bf3, 0xd5a79147, 0x06ca6351, 0x14292967],
    [0x27b70a85, 0x2e1b2138, 0x4d2c6dfc, 0x53380d13, 0x650a7354, 0x766a0abb, 0x81c2c92e, 0x92722c85],
    [0xa2bfe8a1, 0xa81a664b, 0xc24b8b70, 0xc76c51a3, 0xd192e819, 0xd6990624, 0xf40e3585, 0x106aa070],
    [0x19a4c116, 0x1e376c08, 0x2748774c, 0x34b0bcb5, 0x391c0cb3, 0x4ed8aa4a, 0x5b9cca4f, 0x682e6ff3],
    [0x748f82ee, 0x78a5636f, 0x84c87814, 0x8cc70208, 0x90befffa, 0xa4506ceb, 0xbef9a3f7, 0xc67178f2]]"

definition rotr :: "u32 \<Rightarrow> nat \<Rightarrow> u32" where
  "rotr x n = drop_bit n x OR push_bit (32 - n) x"

definition ch :: "u32 \<Rightarrow> u32 \<Rightarrow> u32 \<Rightarrow> u32" where
  "ch x y z = (x AND y) XOR (NOT x AND z)"

definition maj :: "u32 \<Rightarrow> u32 \<Rightarrow> u32 \<Rightarrow> u32" where
  "maj x y z = (x AND y) XOR (x AND z) XOR (y AND z)"

definition sig0 :: "u32 \<Rightarrow> u32" where
  "sig0 x = rotr x 2 XOR rotr x 13 XOR rotr x 22"

definition sig1 :: "u32 \<Rightarrow> u32" where
  "sig1 x = rotr x 6 XOR rotr x 11 XOR rotr x 25"

definition gam0 :: "u32 \<Rightarrow> u32" where
  "gam0 x = rotr x 7 XOR rotr x 18 XOR drop_bit 3 x"

definition gam1 :: "u32 \<Rightarrow> u32" where
  "gam1 x = rotr x 17 XOR rotr x 19 XOR drop_bit 10 x"

text \<open>The two loops that fill \<open>w[0..63]\<close>; the list holds the entries written so far.\<close>

definition load_words :: "bytes \<Rightarrow> u32 list" where
  "load_words block = map (\<lambda>i.
     push_bit 24 (ucast (block ! (i * 4))) OR
     push_bit 16 (ucast (block ! (i * 4 + 1))) OR
     push_bit 8 (ucast (block ! (i * 4 + 2))) OR
     ucast (block ! (i * 4 + 3))) [0..<16]"

function extend_words :: "nat \<Rightarrow> u32 list \<Rightarrow> u32 list" where
  "extend_words i w = (if i < 64
     then extend_words (Suc i) (w @ [gam1 (w ! (i - 2)) + w ! (i - 7) + gam0 (w ! (i - 15)) + w ! (i - 16)])
     else w)"
  by pat_completeness auto
termination
  by (relation "measure (\<lambda>(i, w). 64 - i)") auto

declare extend_words.simps [simp del]

type_synonym vars = "u32 \<times> u32 \<times> u32 \<times> u32 \<times> u32 \<times> u32 \<times> u32 \<times> u32"

text \<open>One pass of the round loop's body, with \<open>k[i]\<close> and \<open>w[i]\<close> given.\<close>

fun round_step :: "u32 \<Rightarrow> u32 \<Rightarrow> vars \<Rightarrow> vars" where
  "round_step ki wi (a, b, c, d, e, f, g, h) =
     (let t1 = h + sig1 e + ch e f g + ki + wi; t2 = sig0 a + maj a b c
      in (t1 + t2, a, b, c, d + t1, e, f, g))"

function rounds :: "nat \<Rightarrow> u32 list \<Rightarrow> vars \<Rightarrow> vars" where
  "rounds i w v = (if i < 64 then rounds (Suc i) w (round_step (k_table ! i) (w ! i) v) else v)"
  by pat_completeness auto
termination
  by (relation "measure (\<lambda>(i, w, v). 64 - i)") auto

declare rounds.simps [simp del]

definition sha256_transform :: "u32 list \<Rightarrow> bytes \<Rightarrow> u32 list" where
  "sha256_transform state block =
     (let w = extend_words 16 (load_words block);
          (a, b, c, d, e, f, g, h) = rounds 0 w (state ! 0, state ! 1, state ! 2, state ! 3,
                                                 state ! 4, state ! 5, state ! 6, state ! 7)
      in [state ! 0 + a, state ! 1 + b, state ! 2 + c, state ! 3 + d,
          state ! 4 + e, state ! 5 + f, state ! 6 + g, state ! 7 + h])"

definition sha256_init :: "u32 list" where
  "sha256_init = [0x6a09e667, 0xbb67ae85, 0x3c6ef372, 0xa54ff53a,
                  0x510e527f, 0x9b05688c, 0x1f83d9ab, 0x5be0cd19]"

text \<open>\<open>memcpy\<close> to the start of the buffer.\<close>

definition copy_in :: "bytes \<Rightarrow> bytes \<Rightarrow> bytes" where
  "copy_in block src = src @ drop (length src) block"

function block_loop :: "bytes \<Rightarrow> nat \<Rightarrow> u32 list \<Rightarrow> bytes \<Rightarrow> nat \<times> u32 list \<times> bytes" where
  "block_loop msg i state block =
     (if i + 64 \<le> length msg
      then let block' = copy_in block (take 64 (drop i msg))
           in block_loop msg (i + 64) (sha256_transform state block') block'
      else (i, state, block))"
  by pat_completeness auto
termination
  by (relation "measure (\<lambda>(msg, i, state, block). length msg - i)") auto

declare block_loop.simps [simp del]

text \<open>\<^verbatim>\<open>while (rem < lim) block[rem++] = 0;\<close>\<close>

function zero_fill :: "nat \<Rightarrow> nat \<Rightarrow> bytes \<Rightarrow> bytes" where
  "zero_fill lim i block = (if i < lim then zero_fill lim (Suc i) (block[i := 0]) else block)"
  by pat_completeness auto
termination
  by (relation "measure (\<lambda>(lim, i, block). lim - i)") auto

declare zero_fill.simps [simp del]

text \<open>The loop \<^verbatim>\<open>for (int j = 7; j >= 0; --j)\<close> over the bit length.\<close>

fun put_length :: "nat \<Rightarrow> 64 word \<Rightarrow> bytes \<Rightarrow> bytes" where
  "put_length 0 bitLen block = block"
| "put_length (Suc j) bitLen block = put_length j (drop_bit 8 bitLen) (block[56 + j := ucast bitLen])"

definition hex_digit :: "nat \<Rightarrow> char" where
  "hex_digit n = (if n < 10 then char_of (48 + n) else char_of (87 + n))"

text \<open>\<^verbatim>\<open>oss << std::hex << std::setw(2) << std::setfill('0') << v\<close>, for \<open>v\<close> below 256.\<close>

definition hex2 :: "u32 \<Rightarrow> string" where
  "hex2 v = [hex_digit (unat v div 16), hex_digit (unat v mod 16)]"

definition hex_state :: "u32 list \<Rightarrow> string" where
  "hex_state state =
     concat (map (\<lambda>j. concat (map (\<lambda>k. hex2 (drop_bit (k * 8) (state ! j) AND 0xff)) [3, 2, 1, 0])) [0..<8])"

text \<open>\<open>sha256_on\<close> takes the initial contents of the stack buffer \<open>block\<close>.\<close>

definition sha256_on :: "bytes \<Rightarrow> bytes \<Rightarrow> string" where
  "sha256_on block0 msg =
     (let (i, state, block) = block_loop msg 0 sha256_init block0;
          rem = length msg - i;
          block = copy_in block (take rem (drop i msg));
          block = block[rem := 0x80];
          rem = rem + 1;
          (state, rem, block) =
            (if 56 < rem
             then let block = zero_fill 64 rem block in (sha256_transform state block, 0, block)
             else (state, rem, block));
          block = zero_fill 56 rem block;
          block = put_length 8 (word_of_nat (length msg) * 8) block;
          state = sha256_transform state block
      in hex_state state)"

definition sha256 :: "bytes \<Rightarrow> string" where
  "sha256 msg = sha256_on (replicate 64 0) msg"

section \<open>The standard's description\<close>

fun fips_w :: "bytes \<Rightarrow> nat \<Rightarrow> u32" where
  "fips_w block t = (if t < 16
     then word_of_nat (unat (block ! (4 * t)) * 2 ^ 24 + unat (block ! (4 * t + 1)) * 2 ^ 16
                     + unat (block ! (4 * t + 2)) * 2 ^ 8 + unat (block ! (4 * t + 3)))
     else (word_rotr 17 (fips_w block (t - 2)) XOR word_rotr 19 (fips_w block (t - 2))
             XOR drop_bit 10 (fips_w block (t - 2)))
          + fips_w block (t - 7)
          + (word_rotr 7 (fips_w block (t - 15)) XOR word_rotr 18 (fips_w block (t - 15))
             XOR drop_bit 3 (fips_w block (t - 15)))
          + fips_w block (t - 16))"

declare fips_w.simps [simp del]

fun fips_round :: "bytes \<Rightarrow> vars \<Rightarrow> nat \<Rightarrow> vars" where
  "fips_round block (a, b, c, d, e, f, g, h) t =
     (let t1 = h + (word_rotr 6 e XOR word_rotr 11 e XOR word_rotr 25 e)
                 + ((e AND f) XOR (NOT e AND g)) + k_table ! t + fips_w block t;
          t2 = (word_rotr 2 a XOR word_rotr 13 a XOR word_rotr 22 a)
                 + ((a AND b) XOR (a AND c) XOR (b AND c))
      in (t1 + t2, a, b, c, d + t1, e, f, g))"

fun list_of_vars :: "vars \<Rightarrow> u32 list" where
  "list_of_vars (a, b, c, d, e, f, g, h) = [a, b, c, d, e, f, g, h]"

definition vars_of_list :: "u32 list \<Rightarrow> vars" where
  "vars_of_list s = (s ! 0, s ! 1, s ! 2, s ! 3, s ! 4, s ! 5, s ! 6, s ! 7)"

definition fips_compress :: "u32 list \<Rightarrow> bytes \<Rightarrow> u32 list" where
  "fips_compress s block =
     map2 (+) s (list_of_vars (foldl (fips_round block) (vars_of_list s) [0..<64]))"

text \<open>Padding: a one bit, zeros up to 56 modulo 64 bytes, the bit length on 64 bits.\<close>

definition fips_pad :: "bytes \<Rightarrow> bytes" where
  "fips_pad msg = msg @ [0x80] @ replicate ((119 - length msg mod 64) mod 64) 0
     @ rev (map (\<lambda>j. ucast (drop_bit (8 * j) (word_of_nat (8 * length msg) :: 64 word))) [0..<8])"

function blocks_of :: "bytes \<Rightarrow> bytes list" where
  "blocks_of xs = (if xs = [] then [] else take 64 xs # blocks_of (drop 64 xs))"
  by pat_completeness auto
termination
  by (relation "measure length") auto

declare blocks_of.simps [simp del]

definition fips_sha256 :: "bytes \<Rightarrow> string" where
  "fips_sha256 msg =
     concat (map (\<lambda>w. map (\<lambda>j. hex_digit (unat w div 16 ^ (7 - j) mod 16)) [0..<8])
       (foldl fips_compress sha256_init (blocks_of (fips_pad msg))))"

section \<open>The compression function\<close>

lemma rotr_word_rotr:
  assumes "0 < n" and "n < 32"
  shows "rotr x n = word_rotr n x"
proof (rule bit_word_eqI)
  fix m assume "m < LENGTH(32)"
  then have m: "m < 32" by simp
  have "\<not> bit x (n + m)" if "32 \<le> n + m"
    using that bit_imp_le_length [of x "n + m"] by auto
  moreover have "(m + n) mod 32 = (if m + n < 32 then m + n else m + n - 32)"
    using m assms by (simp add: mod_if)
  ultimately show "bit (rotr x n) m = bit (word_rotr n x) m"
    using m assms by (auto simp: rotr_def bit_simps bit_word_rotr_iff add.commute)
qed

lemmas rotations = sig0_def sig1_def gam0_def gam1_def ch_def maj_def

lemma bytes_to_word:
  fixes a b c d :: byte
  shows "push_bit 24 (ucast a) OR push_bit 16 (ucast b) OR push_bit 8 (ucast c) OR ucast d =
    (word_of_nat (unat a * 2 ^ 24 + unat b * 2 ^ 16 + unat c * 2 ^ 8 + unat d) :: u32)"
proof -
  have bound: "\<not> bit x i" if "8 \<le> i" for x :: byte and i
    using that bit_imp_le_length [of x i] by auto
  have 1: "push_bit 8 (ucast c) + ucast d = (push_bit 8 (ucast c) OR ucast d :: u32)"
    by (rule disjunctive_add) (auto simp: bit_simps bound)
  have 2: "push_bit 16 (ucast b) + (push_bit 8 (ucast c) OR ucast d) =
        (push_bit 16 (ucast b) OR push_bit 8 (ucast c) OR ucast d :: u32)"
    by (rule disjunctive_add) (auto simp: bit_simps bound)
  have 3: "push_bit 24 (ucast a) + (push_bit 16 (ucast b) OR push_bit 8 (ucast c) OR ucast d) =
        (push_bit 24 (ucast a) OR push_bit 16 (ucast b) OR push_bit 8 (ucast c) OR ucast d :: u32)"
    by (rule disjunctive_add) (auto simp: bit_simps bound)
  have "push_bit n (ucast x) = (word_of_nat (unat x * 2 ^ n) :: u32)" for n and x :: byte
    by (simp add: push_bit_eq_mult)
  moreover have "(push_bit 24 (ucast a) OR push_bit 16 (ucast b) OR push_bit 8 (ucast c) OR ucast d :: u32) =
      push_bit 24 (ucast a) + (push_bit 16 (ucast b) + (push_bit 8 (ucast c) + ucast d))"
    by (simp only: 1 2 3)
  ultimately show ?thesis by (simp add: add.assoc)
qed

lemma load_words_fips: "load_words block = map (fips_w block) [0..<16]"
  by (simp add: load_words_def bytes_to_word fips_w.simps mult.commute)

lemma extend_words_fips:
  "16 \<le> i \<Longrightarrow> i \<le> 64 \<Longrightarrow> extend_words i (map (fips_w block) [0..<i]) = map (fips_w block) [0..<64]"
proof (induction "64 - i" arbitrary: i)
  case 0
  then show ?case by (subst extend_words.simps) simp
next
  case (Suc n)
  have w: "fips_w block i = gam1 (fips_w block (i - 2)) + fips_w block (i - 7)
       + gam0 (fips_w block (i - 15)) + fips_w block (i - 16)"
    using Suc.prems by (subst fips_w.simps) (simp add: rotations rotr_word_rotr)
  have "extend_words i (map (fips_w block) [0..<i]) =
        extend_words (Suc i) (map (fips_w block) [0..<Suc i])"
    using Suc.hyps(2) Suc.prems by (subst extend_words.simps) (cases "i < 64"; simp add: w)
  also have "\<dots> = map (fips_w block) [0..<64]" using Suc by (intro Suc.hyps(1)) auto
  finally show ?case .
qed

lemma round_step_fips: "round_step (k_table ! t) (fips_w block t) v = fips_round block v t"
  by (cases "(block, v, t)" rule: fips_round.cases) (simp add: rotations rotr_word_rotr)

lemma rounds_fips:
  "i \<le> 64 \<Longrightarrow> rounds i (map (fips_w block) [0..<64]) v = foldl (fips_round block) v [i..<64]"
proof (induction "64 - i" arbitrary: i v)
  case 0
  then show ?case by (subst rounds.simps) simp
next
  case (Suc n)
  then have "[i..<64] = i # [Suc i..<64]" by (simp add: upt_conv_Cons)
  moreover have "i < 64" using Suc.hyps(2) by simp
  ultimately show ?case using Suc by (subst rounds.simps) (simp add: round_step_fips)
qed

lemma list8_conv: "length s = 8 \<Longrightarrow> s = [s ! 0, s ! 1, s ! 2, s ! 3, s ! 4, s ! 5, s ! 6, s ! 7]"
  by (auto simp: numeral_eq_Suc length_Suc_conv)

lemma sha256_transform_fips:
  assumes "length s = 8"
  shows "sha256_transform s block = fips_compress s block"
proof -
  obtain a b c d e f g h where v:
    "foldl (fips_round block) (vars_of_list s) [0..<64] = (a, b, c, d, e, f, g, h)"
    by (cases "foldl (fips_round block) (vars_of_list s) [0..<64]" rule: list_of_vars.cases)
  have "rounds 0 (extend_words 16 (load_words block)) (vars_of_list s) = (a, b, c, d, e, f, g, h)"
    by (simp add: load_words_fips extend_words_fips rounds_fips v)
  moreover have "fips_compress s block =
      map2 (+) [s ! 0, s ! 1, s ! 2, s ! 3, s ! 4, s ! 5, s ! 6, s ! 7] [a, b, c, d, e, f, g, h]"
    unfolding fips_compress_def v list_of_vars.simps using list8_conv [OF assms] by simp
  ultimately show ?thesis
    by (simp add: sha256_transform_def vars_of_list_def)
qed

lemma length_sha256_transform [simp]: "length (sha256_transform s block) = 8"
  by (simp add: sha256_transform_def split: prod.splits)

section \<open>Buffers and blocks\<close>

lemma zero_fill_eq:
  "i \<le> lim \<Longrightarrow> lim \<le> length b \<Longrightarrow> zero_fill lim i b = take i b @ replicate (lim - i) 0 @ drop lim b"
proof (induction "lim - i" arbitrary: i b)
  case 0
  then show ?case by (subst zero_fill.simps) simp
next
  case (Suc n)
  then have i: "i < lim" and r: "lim - i = Suc (lim - Suc i)" by auto
  have "zero_fill lim i b = zero_fill lim (Suc i) (b[i := 0])"
    using i by (subst zero_fill.simps) simp
  also have "\<dots> = take (Suc i) (b[i := 0]) @ replicate (lim - Suc i) 0 @ drop lim (b[i := 0])"
    using Suc by (intro Suc.hyps(1)) auto
  also have "\<dots> = take i b @ replicate (lim - i) 0 @ drop lim b"
    using i Suc.prems by (simp add: r take_Suc_conv_app_nth)
  finally show ?case .
qed

lemma put_length_eq:
  "j \<le> 8 \<Longrightarrow> length b = 64 \<Longrightarrow> put_length j n b =
   take 56 b @ rev (map (\<lambda>i. ucast (drop_bit (8 * i) n)) [0..<j]) @ drop (56 + j) b"
proof (induction j arbitrary: n b)
  case (Suc j)
  have "drop (56 + j) (b[56 + j := ucast n]) = ucast n # drop (57 + j) b"
    using Suc.prems by (simp add: upd_conv_take_nth_drop)
  moreover have "map (\<lambda>i. ucast (drop_bit (8 * i) n)) [0..<Suc j] =
      (ucast n :: byte) # map (\<lambda>i. ucast (drop_bit (8 * i) (drop_bit 8 n))) [0..<j]"
    by (simp add: map_upt_Suc add.commute del: upt_Suc)
  ultimately show ?case
    using Suc by (simp del: upt_Suc)
qed simp

lemma blocks_of_Nil [simp]: "blocks_of [] = []"
  by (simp add: blocks_of.simps)

lemma blocks_of_64: "length xs = 64 \<Longrightarrow> blocks_of xs = [xs]"
  by (subst blocks_of.simps) auto

lemma blocks_of_more: "length xs = 64 \<Longrightarrow> blocks_of (xs @ ys) = xs # blocks_of ys"
  by (subst blocks_of.simps) auto

lemma length_copy_in: "length src \<le> length block \<Longrightarrow> length (copy_in block src) = length block"
  by (simp add: copy_in_def)

text \<open>
  The block loop consumes the whole blocks, leaves less than one block of input, and keeps
  the buffer at 64 bytes.
\<close>

lemma block_loop_eq:
  assumes "length block = 64" and "i \<le> length msg" and "length s = 8"
  shows "\<exists>n s' block'. block_loop msg i s block = (n, s', block') \<and> i \<le> n \<and> n \<le> length msg \<and>
    length msg < n + 64 \<and> 64 dvd n - i \<and> length block' = 64 \<and> length s' = 8 \<and>
    (\<forall>t. foldl fips_compress s (blocks_of (drop i msg @ t)) =
         foldl fips_compress s' (blocks_of (drop n msg @ t)))"
  using assms
proof (induction msg i s block rule: block_loop.induct)
  case (1 msg i s block)
  show ?case
  proof (cases "i + 64 \<le> length msg")
    case False
    then show ?thesis using 1 by (subst block_loop.simps) auto
  next
    case True
    let ?b = "take 64 (drop i msg)"
    have b: "copy_in block ?b = ?b" using True 1 by (simp add: copy_in_def)
    have "block_loop msg i s block = block_loop msg (i + 64) (sha256_transform s ?b) ?b"
      using True b by (subst block_loop.simps) (simp add: Let_def)
    moreover have split: "drop i msg @ t = ?b @ drop (i + 64) msg @ t" for t
      by (metis append.assoc append_take_drop_id drop_drop add.commute)
    have "foldl fips_compress s (blocks_of (drop i msg @ t)) =
        foldl fips_compress (sha256_transform s ?b) (blocks_of (drop (i + 64) msg @ t))" for t
      unfolding split using True "1.prems" by (simp add: blocks_of_more sha256_transform_fips)
    moreover have "\<exists>n s' block'. block_loop msg (i + 64) (sha256_transform s ?b) ?b = (n, s', block') \<and>
       i + 64 \<le> n \<and> n \<le> length msg \<and> length msg < n + 64 \<and> 64 dvd n - (i + 64) \<and>
       length block' = 64 \<and> length s' = 8 \<and>
       (\<forall>t. foldl fips_compress (sha256_transform s ?b) (blocks_of (drop (i + 64) msg @ t)) =
            foldl fips_compress s' (blocks_of (drop n msg @ t)))"
      by (rule "1.IH" [OF True refl, unfolded b]) (use True in simp_all)
    moreover have "64 dvd n - i" if "i + 64 \<le> n" and "64 dvd n - (i + 64)" for n
    proof -
      have "n - i = (n - (i + 64)) + 64" using that(1) by arith
      then show ?thesis using that(2) by (metis dvd_add_triv_right_iff)
    qed
    ultimately show ?thesis by (metis add_leD1)
  qed
qed

section \<open>The whole function\<close>

lemma hex2_byte:
  "hex2 (drop_bit (k * 8) w AND 0xff) =
   [hex_digit (unat w div 16 ^ (2 * k + 1) mod 16), hex_digit (unat w div 16 ^ (2 * k) mod 16)]"
proof -
  have "(0xff :: u32) = mask 8" by (simp add: mask_eq_exp_minus_1)
  then have "unat (drop_bit (k * 8) w AND 0xff) = unat w div 2 ^ (k * 8) mod 256"
    by (simp only: take_bit_eq_mask [symmetric] unsigned_take_bit_eq unat_drop_bit_eq)
      (simp add: drop_bit_eq_div take_bit_eq_mod)
  moreover have "(2 :: nat) ^ (k * 8) = 16 ^ (2 * k)"
  proof -
    have "(2 :: nat) ^ (k * 8) = (2 ^ 4) ^ (2 * k)"
      by (simp only: power_mult [symmetric]) (simp add: mult.commute)
    then show ?thesis by simp
  qed
  ultimately have v: "unat (drop_bit (k * 8) w AND 0xff) = unat w div 16 ^ (2 * k) mod 256"
    by (simp only:)
  have m: "(n :: nat) mod 256 div 16 = n div 16 mod 16" "(n :: nat) mod 256 mod 16 = n mod 16" for n
    using mod_mult2_eq [of n 16 16] by simp_all
  have "unat w div 16 ^ (2 * k + 1) = unat w div 16 ^ (2 * k) div 16"
    by (simp only: div_mult2_eq [symmetric] power_add power_one_right)
  then show ?thesis unfolding hex2_def v m by (simp only:)
qed

lemma hex_state_eq:
  assumes "length s = 8"
  shows "hex_state s = concat (map (\<lambda>w. map (\<lambda>j. hex_digit (unat w div 16 ^ (7 - j) mod 16)) [0..<8]) s)"
proof -
  have "concat (map (\<lambda>k. hex2 (drop_bit (k * 8) w AND 0xff)) [3, 2, 1, 0]) =
        map (\<lambda>j. hex_digit (unat w div 16 ^ (7 - j) mod 16)) [0..<8]" for w
  proof -
    have "[0..<8] = [0, 1, 2, 3, 4, 5, 6, 7]" by (simp add: upt_rec)
    then show ?thesis by (simp only: list.map hex2_byte concat.simps) simp
  qed
  then have "hex_state s = concat (map (\<lambda>i. map (\<lambda>j. hex_digit (unat (s ! i) div 16 ^ (7 - j) mod 16)) [0..<8]) [0..<8])"
    by (simp only: hex_state_def)
  also have "map (\<lambda>i. map (\<lambda>j. hex_digit (unat (s ! i) div 16 ^ (7 - j) mod 16)) [0..<8]) [0..<8] =
      map (\<lambda>w. map (\<lambda>j. hex_digit (unat w div 16 ^ (7 - j) mod 16)) [0..<8]) s"
    by (rule nth_equalityI) (simp_all add: assms)
  finally show ?thesis .
qed

lemma length_fips_compress: "length s = 8 \<Longrightarrow> length (fips_compress s b) = 8"
  using sha256_transform_fips length_sha256_transform by metis

lemma fips_pad_split:
  assumes "n \<le> length msg" and "length msg < n + 64" and "64 dvd n"
  shows "fips_pad msg = take n msg @ drop n msg @ [0x80] @
      replicate (if length msg - n \<le> 55 then 55 - (length msg - n) else 119 - (length msg - n)) 0
      @ rev (map (\<lambda>j. ucast (drop_bit (8 * j) (word_of_nat (length msg) * 8 :: 64 word))) [0..<8])"
proof -
  obtain q where n: "n = 64 * q" using assms(3) by (auto elim: dvdE)
  define r where "r = length msg - n"
  have "r < 64" and l: "length msg = 64 * q + r" using assms n by (auto simp: r_def)
  then have "length msg mod 64 = r" by simp
  moreover have "(119 - r) mod 64 = (if r \<le> 55 then 55 - r else 119 - r)"
    using \<open>r < 64\<close> by (auto simp: mod_if)
  moreover have "(word_of_nat (8 * length msg) :: 64 word) = word_of_nat (length msg) * 8"
    by (simp add: mult.commute)
  ultimately show ?thesis
    by (simp add: fips_pad_def r_def del: of_nat_mult)
qed

lemma foldl_fips_compress_length:
  "length s = 8 \<Longrightarrow> length (foldl fips_compress s bs) = 8"
  by (induction bs arbitrary: s) (simp_all add: length_fips_compress)

lemma sha256_on_fips:
  assumes "length block0 = 64"
  shows "sha256_on block0 msg = fips_sha256 msg"
proof -
  define L :: bytes where
    "L = rev (map (\<lambda>j. ucast (drop_bit (8 * j) (word_of_nat (length msg) * 8 :: 64 word))) [0..<8])"
  have L: "length L = 8" by (simp add: L_def)
  obtain n s b where loop: "block_loop msg 0 sha256_init block0 = (n, s, b)"
    and n: "n \<le> length msg" "length msg < n + 64" "64 dvd n" and b: "length b = 64" and s: "length s = 8"
    and fold: "\<And>t. foldl fips_compress sha256_init (blocks_of (msg @ t)) =
               foldl fips_compress s (blocks_of (drop n msg @ t))"
    using block_loop_eq [of block0 0 msg sha256_init] assms by (auto simp: sha256_init_def)
  define r where "r = length msg - n"
  define tail where "tail = drop n msg"
  have r: "length tail = r" "r < 64" using n by (auto simp: r_def tail_def)
  have b1: "(copy_in b tail)[r := 0x80] = tail @ [0x80] @ drop (r + 1) b"
    using r b by (simp add: copy_in_def upd_conv_take_nth_drop)
  have fin: "foldl fips_compress sha256_init (blocks_of (fips_pad msg)) =
     foldl fips_compress s (blocks_of (tail @ [0x80] @ replicate (if r \<le> 55 then 55 - r else 119 - r) 0 @ L))"
    using fips_pad_split [OF n] fold
    by (simp add: r_def tail_def L_def flip: append_assoc)
  show ?thesis
  proof (cases "r \<le> 55")
    case True
    let ?b = "tail @ [0x80] @ replicate (55 - r) 0 @ L"
    have "put_length 8 (word_of_nat (length msg) * 8) (zero_fill 56 (r + 1) ((copy_in b tail)[r := 0x80])) = ?b"
      using True r b Suc_diff_le [OF True] unfolding b1
      by (subst put_length_eq) (simp_all add: zero_fill_eq L_def)
    moreover have "blocks_of ?b = [?b]" using True r L by (intro blocks_of_64) simp
    ultimately show ?thesis
      using True fin s r by (simp add: sha256_on_def loop r_def [symmetric] tail_def [symmetric] Let_def
        fips_sha256_def hex_state_eq sha256_transform_fips length_fips_compress)
  next
    case False
    let ?b = "tail @ [0x80] @ replicate (63 - r) 0" and ?c = "replicate 56 0 @ L"
    have z: "zero_fill 64 (r + 1) ((copy_in b tail)[r := 0x80]) = ?b"
      using False r b unfolding b1 by (subst zero_fill_eq) simp_all
    have "put_length 8 (word_of_nat (length msg) * 8) (zero_fill 56 0 ?b) = ?c"
      using False r b by (subst put_length_eq) (simp_all add: zero_fill_eq L_def)
    moreover have "replicate (119 - r) 0 = replicate (63 - r) 0 @ (replicate 56 0 :: bytes)"
      using r False by (simp flip: replicate_add)
    then have "blocks_of (tail @ [0x80] @ replicate (119 - r) 0 @ L) = [?b, ?c]"
      using blocks_of_more [of ?b ?c] blocks_of_64 [of ?c] r False L by simp
    ultimately show ?thesis
      using False fin s z r by (simp add: sha256_on_def loop r_def [symmetric] tail_def [symmetric] Let_def
        fips_sha256_def hex_state_eq sha256_transform_fips length_fips_compress)
  qed
qed

section \<open>Shape of a digest\<close>

lemma hex_digit_range:
  assumes "n < 16" shows "hex_digit n \<in> set ''0123456789abcdef''"
proof -
  have "list_all (\<lambda>n. hex_digit n \<in> set ''0123456789abcdef'') [0..<16]" by code_simp
  then have "\<forall>m \<in> {0..<16}. hex_digit m \<in> set ''0123456789abcdef''"
    by (simp only: list_all_iff set_upt)
  moreover have "n \<in> {0..<16}" using assms by simp
  ultimately show ?thesis by (rule bspec)
qed

lemma concat_const_length:
  "\<forall>x \<in> set xs. length (f x) = n \<Longrightarrow> length (concat (map f xs)) = length xs * n"
  by (induction xs) auto

lemma sha256_fips: "sha256 msg = fips_sha256 msg"
  by (simp add: sha256_def sha256_on_fips)

lemma sha256_length [simp]: "length (sha256 msg) = 64"
proof -
  have "length (foldl fips_compress sha256_init (blocks_of (fips_pad msg))) = 8"
    by (rule foldl_fips_compress_length) (simp add: sha256_init_def)
  then show ?thesis
    by (simp add: sha256_fips fips_sha256_def concat_const_length [where n = 8] del: upt_Suc)
qed

lemma sha256_chars: "set (sha256 msg) \<subseteq> set ''0123456789abcdef''"
  by (auto simp: sha256_fips fips_sha256_def dest: hex_digit_range [OF mod_less_divisor, rotated]
      intro!: hex_digit_range simp del: upt_Suc list.set)

section \<open>Properties\<close>

text \<open>
  C9: The hand-written SHA-256 equals the FIPS 180-4 function for every message, whatever
  the 64-byte stack buffer held when the function was entered: no stale or uninitialised
  byte of the buffer reaches the digest, in the one-block and in the two-block padding case.
\<close>
theorem sha256_is_fips:
  assumes "length block0 = 64"
  shows "sha256_on block0 msg = fips_sha256 msg"
  using assms by (rule sha256_on_fips)

theorem sha256_is_fips_witness:
  "sha256_on (replicate 64 0xAA) (bytes_of_string ''abc'') = fips_sha256 (bytes_of_string ''abc'')"
  by (rule sha256_is_fips) simp

text \<open>
  C40: A digest is always 64 characters, all of them lower-case hexadecimal digits.
\<close>
theorem sha256_hex_shape:
  "length (sha256 msg) = 64 \<and> set (sha256 msg) \<subseteq> set ''0123456789abcdef''"
  using sha256_length sha256_chars by blast

end
