(* ===== verification/Text_Stream.thy ===== *)
theory Text_Stream
  imports Dfs_Prelude
begin

text \<open>
  The text primitives of the C++ standard library the program uses: formatted extraction
  from a \<^verbatim>\<open>std::istringstream\<close>, \<^verbatim>\<open>std::getline\<close> with a delimiter, \<^verbatim>\<open>std::to_string\<close>,
  \<^verbatim>\<open>std::stoi\<close>, \<open>find\<close> and \<open>find_last_of\<close>. Extraction keeps the two-value
  behaviour of the library: a stream whose failure flag is set leaves the variable as it
  was, a failed number conversion stores \<open>0\<close>, an out-of-range number stores the bound.
  A number is read as an optional sign followed by the longest run of decimal digits.

  The second half shows that reading undoes printing: for words, for numbers in range,
  and for comma-separated lists.
\<close>

section \<open>Character classes\<close>

definition is_space :: "char \<Rightarrow> bool" where
  "is_space c \<longleftrightarrow> (let n = (of_char c :: nat) in n = 32 \<or> (9 \<le> n \<and> n \<le> 13))"

definition is_digit :: "char \<Rightarrow> bool" where
  "is_digit c \<longleftrightarrow> (let n = (of_char c :: nat) in 48 \<le> n \<and> n \<le> 57)"

definition digit_val :: "char \<Rightarrow> int" where
  "digit_val c = int (of_char c) - 48"

definition digit_char :: "nat \<Rightarrow> char" where
  "digit_char n = char_of (48 + n)"

section \<open>Input streams\<close>

record istream =
  rest :: string
  failed :: bool

definition open_stream :: "string \<Rightarrow> istream" where
  "open_stream s = \<lparr>rest = s, failed = False\<rparr>"

text \<open>\<open>read_word old i\<close> is \<^verbatim>\<open>i >> v\<close> for a string variable \<open>v\<close> that holds \<open>old\<close>.\<close>

definition read_word :: "string \<Rightarrow> istream \<Rightarrow> string \<times> istream" where
  "read_word old i =
     (let r = dropWhile is_space (rest i) in
      if failed i \<or> r = [] then (old, \<lparr>rest = (if failed i then rest i else r), failed = True\<rparr>)
      else (takeWhile (\<lambda>c. \<not> is_space c) r,
            \<lparr>rest = dropWhile (\<lambda>c. \<not> is_space c) r, failed = False\<rparr>))"

definition digits_val :: "string \<Rightarrow> int" where
  "digits_val ds = foldl (\<lambda>a c. 10 * a + digit_val c) 0 ds"

definition split_sign :: "string \<Rightarrow> bool \<times> string" where
  "split_sign r = (case r of
      c # cs \<Rightarrow> if c = CHR ''-'' then (True, cs) else if c = CHR ''+'' then (False, cs) else (False, r)
    | [] \<Rightarrow> (False, []))"

text \<open>\<open>read_int lo hi old i\<close> is \<^verbatim>\<open>i >> v\<close> for an integer variable of range \<open>lo .. hi\<close>.\<close>

definition read_int :: "int \<Rightarrow> int \<Rightarrow> int \<Rightarrow> istream \<Rightarrow> int \<times> istream" where
  "read_int lo hi old i =
     (let r = dropWhile is_space (rest i) in
      if failed i \<or> r = [] then (old, \<lparr>rest = (if failed i then rest i else r), failed = True\<rparr>)
      else
        let (neg, cs) = split_sign r;
            ds = takeWhile is_digit cs; r' = dropWhile is_digit cs;
            v = (if neg then - digits_val ds else digits_val ds)
        in if ds = [] then (0, \<lparr>rest = r', failed = True\<rparr>)
           else if hi < v then (hi, \<lparr>rest = r', failed = True\<rparr>)
           else if v < lo then (lo, \<lparr>rest = r', failed = True\<rparr>)
           else (v, \<lparr>rest = r', failed = False\<rparr>))"

abbreviation "INT_MIN \<equiv> - 2147483648 :: int"
abbreviation "INT_MAX \<equiv> 2147483647 :: int"
abbreviation "INT64_MIN \<equiv> - 9223372036854775808 :: int"
abbreviation "INT64_MAX \<equiv> 9223372036854775807 :: int"

abbreviation "read_i32 \<equiv> read_int INT_MIN INT_MAX"
abbreviation "read_i64 \<equiv> read_int INT64_MIN INT64_MAX"

text \<open>\<^verbatim>\<open>std::getline(s, v, d)\<close>: \<open>None\<close> when nothing is left to extract.\<close>

definition get_line :: "char \<Rightarrow> string \<Rightarrow> (string \<times> string) option" where
  "get_line d s = (if s = [] then None
     else Some (takeWhile (\<lambda>c. c \<noteq> d) s, drop 1 (dropWhile (\<lambda>c. c \<noteq> d) s)))"

text \<open>All the lines a \<^verbatim>\<open>while (std::getline(...))\<close> loop sees.\<close>

function get_lines :: "char \<Rightarrow> string \<Rightarrow> string list" where
  "get_lines d s = (case get_line d s of None \<Rightarrow> [] | Some (l, r) \<Rightarrow> l # get_lines d r)"
  by pat_completeness auto
termination
proof (relation "measure (\<lambda>(d, s). length s)")
  fix d s x l r
  assume "get_line d s = Some x" and "(l, r) = x"
  then have "s \<noteq> []" and r: "r = drop 1 (dropWhile (\<lambda>c. c \<noteq> d) s)"
    by (auto simp: get_line_def split: if_splits)
  moreover have "length (dropWhile (\<lambda>c. c \<noteq> d) s) \<le> length s" by (rule length_dropWhile_le)
  moreover have "0 < length s" using \<open>s \<noteq> []\<close> by simp
  ultimately have "length r < length s" unfolding r length_drop by linarith
  then show "((d, r), d, s) \<in> measure (\<lambda>(d, s). length s)" by simp
qed simp

declare get_lines.simps [simp del]

section \<open>Printing and searching\<close>

fun show_nat :: "nat \<Rightarrow> string" where
  "show_nat n = (if n < 10 then [digit_char n] else show_nat (n div 10) @ [digit_char (n mod 10)])"

declare show_nat.simps [simp del]

definition to_string :: "int \<Rightarrow> string" where
  "to_string i = (if i < 0 then CHR ''-'' # show_nat (nat (- i)) else show_nat (nat i))"

text \<open>\<^verbatim>\<open>std::stoi\<close>: leading blanks, a sign, digits; what follows the digits is ignored.\<close>

definition stoi :: "string \<Rightarrow> exn + int" where
  "stoi s =
     (let (neg, cs) = split_sign (dropWhile is_space s);
          ds = takeWhile is_digit cs;
          v = (if neg then - digits_val ds else digits_val ds)
      in if ds = [] then Inl Invalid_argument
         else if v < INT_MIN \<or> INT_MAX < v then Inl Out_of_range
         else Inr v)"

text \<open>\<open>s.find(c)\<close> together with the two \<open>substr\<close> calls around it.\<close>

definition split_first :: "char \<Rightarrow> string \<Rightarrow> (string \<times> string) option" where
  "split_first c s = (if c \<in> set s
     then Some (takeWhile (\<lambda>x. x \<noteq> c) s, drop 1 (dropWhile (\<lambda>x. x \<noteq> c) s)) else None)"

text \<open>The suffix after the last character of \<open>s\<close> that is in \<open>cs\<close> (\<open>find_last_of\<close>).\<close>

definition after_last_of :: "string \<Rightarrow> string \<Rightarrow> string" where
  "after_last_of cs s = rev (takeWhile (\<lambda>x. x \<notin> set cs) (rev s))"

text \<open>The loop that builds a comma-separated list.\<close>

fun join_with :: "char \<Rightarrow> string list \<Rightarrow> string" where
  "join_with c [] = []"
| "join_with c [x] = x"
| "join_with c (x # y # zs) = x @ c # join_with c (y # zs)"

section \<open>Words\<close>

definition is_word :: "string \<Rightarrow> bool" where
  "is_word w \<longleftrightarrow> w \<noteq> [] \<and> list_all (\<lambda>c. \<not> is_space c) w"

lemma is_space_blank [simp]: "is_space CHR '' ''"
  by (simp add: is_space_def)

lemma is_word_hd: "is_word w \<Longrightarrow> \<not> is_space (hd w)"
  by (cases w) (auto simp: is_word_def)

lemma is_word_append: "is_word v \<Longrightarrow> is_word w \<Longrightarrow> is_word (v @ w)"
  by (auto simp: is_word_def)

lemma dropWhile_space_word:
  assumes "is_word w" shows "dropWhile is_space (w @ t) = w @ t"
  using assms by (intro dropWhile_stop) (auto simp: is_word_def list_all_iff hd_append)

lemma takeWhile_nonspace_word:
  "is_word w \<Longrightarrow> takeWhile (\<lambda>c. \<not> is_space c) (w @ t) = w @ takeWhile (\<lambda>c. \<not> is_space c) t"
  by (rule takeWhile_all_append) (simp add: is_word_def list_all_iff)

lemma dropWhile_nonspace_word:
  "is_word w \<Longrightarrow> dropWhile (\<lambda>c. \<not> is_space c) (w @ t) = dropWhile (\<lambda>c. \<not> is_space c) t"
  by (rule dropWhile_all_append) (simp add: is_word_def list_all_iff)

lemmas word_parts = dropWhile_space_word takeWhile_nonspace_word dropWhile_nonspace_word

lemma read_word_last [text_simps]:
  "is_word w \<Longrightarrow> read_word old \<lparr>rest = w, failed = False\<rparr> = (w, \<lparr>rest = [], failed = False\<rparr>)"
  using word_parts [of w "[]"] by (auto simp: read_word_def is_word_def)

lemma read_word_more [text_simps]:
  "is_word w \<Longrightarrow>
   read_word old \<lparr>rest = w @ CHR '' '' # t, failed = False\<rparr> = (w, \<lparr>rest = CHR '' '' # t, failed = False\<rparr>)"
  using word_parts [of w "CHR '' '' # t"] by (auto simp: read_word_def is_word_def)

lemma read_word_skip [text_simps]:
  "read_word old \<lparr>rest = CHR '' '' # t, failed = False\<rparr> = read_word old \<lparr>rest = t, failed = False\<rparr>"
  by (simp add: read_word_def Let_def)

lemma read_word_failed [text_simps]: "failed i \<Longrightarrow> fst (read_word old i) = old \<and> failed (snd (read_word old i))"
  by (simp add: read_word_def Let_def)

section \<open>Numbers\<close>

lemma digit_char_of: "n < 10 \<Longrightarrow> of_char (digit_char n) = (48 + n :: nat)"
  by (simp add: digit_char_def)

lemma is_digit_digit_char [simp]: "n < 10 \<Longrightarrow> is_digit (digit_char n)"
  by (simp add: is_digit_def digit_char_of)

lemma digit_val_digit_char [simp]: "n < 10 \<Longrightarrow> digit_val (digit_char n) = int n"
  by (simp add: digit_val_def digit_char_of)

lemma digit_not_space: "is_digit c \<Longrightarrow> \<not> is_space c"
  by (auto simp: is_digit_def is_space_def Let_def)

lemma digit_not_sign [simp]: "\<not> is_digit CHR ''-''" "\<not> is_digit CHR ''+''" "\<not> is_digit CHR '',''"
  "\<not> is_digit CHR '' ''" "\<not> is_digit CHR '':''"
  by (simp_all add: is_digit_def)

lemma show_nat_digits: "list_all is_digit (show_nat n)"
proof (induction n rule: show_nat.induct)
  case (1 n)
  then show ?case by (subst show_nat.simps) auto
qed

lemma show_nat_length: "n < 10 ^ k \<Longrightarrow> 0 < k \<Longrightarrow> length (show_nat n) \<le> k"
proof (induction k arbitrary: n)
  case (Suc k)
  show ?case
  proof (cases "n < 10")
    case True
    then show ?thesis by (subst show_nat.simps) simp
  next
    case False
    then have "n div 10 < 10 ^ k" "0 < k" using Suc.prems by (auto intro: gr0I)
    then have "length (show_nat (n div 10)) \<le> k" by (rule Suc.IH)
    then show ?thesis using False by (subst show_nat.simps) simp
  qed
qed simp

lemma to_string_length: "\<bar>i\<bar> < 10 ^ 19 \<Longrightarrow> length (to_string i) \<le> 20"
  using show_nat_length [of "nat (- i)" 19] show_nat_length [of "nat i" 19]
  by (auto simp: to_string_def nat_less_iff)

lemma show_nat_nonempty [simp]: "show_nat n \<noteq> []"
  by (subst show_nat.simps) simp

lemma digits_val_snoc [simp]: "digits_val (ds @ [c]) = 10 * digits_val ds + digit_val c"
  by (simp add: digits_val_def)

lemma digits_val_show_nat [simp]: "digits_val (show_nat n) = int n"
proof (induction n rule: show_nat.induct)
  case (1 n)
  show ?case
  proof (cases "n < 10")
    case True
    then show ?thesis by (subst show_nat.simps) (simp add: digits_val_def)
  next
    case False
    then have "digits_val (show_nat n) = 10 * int (n div 10) + int (n mod 10)"
      using 1 by (subst show_nat.simps) simp
    also have "\<dots> = int n" by presburger
    finally show ?thesis .
  qed
qed

lemma show_nat_hd: "is_digit (hd (show_nat n))"
  using show_nat_digits [of n] by (cases "show_nat n") auto

lemma is_word_show_nat [simp]: "is_word (show_nat n)"
  using show_nat_digits [of n] by (auto simp: is_word_def list_all_iff digit_not_space)

lemma is_word_to_string [simp]: "is_word (to_string i)"
  using is_word_show_nat by (auto simp: to_string_def is_word_def is_space_def)

lemma split_sign_show_nat: "split_sign (show_nat n @ t) = (False, show_nat n @ t)"
  using show_nat_hd [of n] by (cases "show_nat n") (auto simp: split_sign_def)

lemma split_sign_to_string:
  "split_sign (to_string i @ t) = (i < 0, show_nat (nat \<bar>i\<bar>) @ t)"
  by (simp add: to_string_def split_sign_show_nat) (simp add: split_sign_def)

lemma digit_run_show_nat:
  assumes "t = [] \<or> \<not> is_digit (hd t)"
  shows "takeWhile is_digit (show_nat n @ t) = show_nat n"
    and "dropWhile is_digit (show_nat n @ t) = t"
  using assms show_nat_digits [of n]
  by (simp_all add: takeWhile_all_append dropWhile_all_append takeWhile_stop dropWhile_stop list_all_iff)

lemma takeWhile_digit_show_nat [simp]: "takeWhile is_digit (show_nat n) = show_nat n"
  using digit_run_show_nat(1) [of "[]" n] by (metis append_Nil2)

lemma read_int_print:
  assumes "lo \<le> i" and "i \<le> hi" and "t = [] \<or> \<not> is_digit (hd t)"
  shows "read_int lo hi old \<lparr>rest = to_string i @ t, failed = False\<rparr> = (i, \<lparr>rest = t, failed = False\<rparr>)"
  using assms(1,2)
  by (simp add: read_int_def Let_def dropWhile_space_word split_sign_to_string
      digit_run_show_nat [OF assms(3)])
    (auto simp: to_string_def)

lemma read_int_last [text_simps]:
  "lo \<le> i \<Longrightarrow> i \<le> hi \<Longrightarrow>
   read_int lo hi old \<lparr>rest = to_string i, failed = False\<rparr> = (i, \<lparr>rest = [], failed = False\<rparr>)"
  using read_int_print [of lo i hi "[]"] by simp

lemma read_int_more [text_simps]:
  "lo \<le> i \<Longrightarrow> i \<le> hi \<Longrightarrow>
   read_int lo hi old \<lparr>rest = to_string i @ CHR '' '' # t, failed = False\<rparr> =
     (i, \<lparr>rest = CHR '' '' # t, failed = False\<rparr>)"
  using read_int_print [of lo i hi "CHR '' '' # t"] by simp

lemma read_int_skip [text_simps]:
  "read_int lo hi old \<lparr>rest = CHR '' '' # t, failed = False\<rparr> =
   read_int lo hi old \<lparr>rest = t, failed = False\<rparr>"
  by (simp add: read_int_def Let_def)

lemma read_int_failed [text_simps]:
  "failed i \<Longrightarrow> fst (read_int lo hi old i) = old \<and> failed (snd (read_int lo hi old i))"
  by (simp add: read_int_def Let_def)

lemma read_int_range:
  assumes "lo \<le> hi" and "\<not> failed (snd (read_int lo hi old i))"
  shows "lo \<le> fst (read_int lo hi old i) \<and> fst (read_int lo hi old i) \<le> hi"
  using assms by (auto simp: read_int_def Let_def split: if_splits prod.splits)

lemma stoi_to_string [text_simps]:
  "INT_MIN \<le> i \<Longrightarrow> i \<le> INT_MAX \<Longrightarrow> stoi (to_string i) = Inr i"
  using dropWhile_space_word [of "to_string i" "[]"] split_sign_to_string [of i "[]"]
  by (simp add: stoi_def Let_def)

section \<open>Delimited lists and splitting\<close>

lemma get_line_Nil [simp]: "get_line d [] = None"
  by (simp add: get_line_def)

lemma get_lines_Nil [simp]: "get_lines d [] = []"
  by (simp add: get_lines.simps)

lemma get_lines_last: "x \<noteq> [] \<Longrightarrow> d \<notin> set x \<Longrightarrow> get_lines d x = [x]"
  by (subst get_lines.simps) (simp add: get_line_def until_simps)

lemma get_lines_step: "d \<notin> set x \<Longrightarrow> get_lines d (x @ d # t) = x # get_lines d t"
  by (subst get_lines.simps)
    (simp add: get_line_def until_simps)

lemma get_lines_join:
  assumes "\<forall>x \<in> set xs. x \<noteq> [] \<and> d \<notin> set x"
  shows "get_lines d (join_with d xs) = xs"
  using assms
  by (induction d xs rule: join_with.induct) (auto simp: get_lines_last get_lines_step)

lemma is_word_join:
  assumes "xs \<noteq> []" and "\<forall>x \<in> set xs. is_word x" and "\<not> is_space d"
  shows "is_word (join_with d xs)"
  using assms by (induction d xs rule: join_with.induct) (auto simp: is_word_def)

lemma split_first_print [text_simps]:
  "c \<notin> set s \<Longrightarrow> split_first c (s @ c # t) = Some (s, t)"
  by (simp add: split_first_def until_simps)

lemma after_last_of_none: "set cs \<inter> set s = {} \<Longrightarrow> after_last_of cs s = s"
proof -
  assume "set cs \<inter> set s = {}"
  then have "takeWhile (\<lambda>x. x \<notin> set cs) (rev s @ []) = rev s"
    by (subst takeWhile_all_append) auto
  then show ?thesis unfolding after_last_of_def by (metis append_Nil2 rev_rev_ident)
qed

lemma after_last_of_some:
  assumes "c \<in> set cs" and "set cs \<inter> set s = {}"
  shows "after_last_of cs (d @ c # s) = s"
proof -
  have "takeWhile (\<lambda>x. x \<notin> set cs) (rev s @ c # rev d) = rev s"
    using assms by (subst takeWhile_all_append) auto
  then show ?thesis by (simp add: after_last_of_def)
qed

end
