(* ===== verification/Chunking.thy ===== *)
theory Chunking
  imports Sha256 Text_Stream "HOL-Library.Multiset"
begin

text \<open>
  \<^verbatim>\<open>src/src/common/chunk.hpp\<close>, \<^verbatim>\<open>chunk.cpp\<close>, \<^verbatim>\<open>file_utils.cpp\<close>, \<^verbatim>\<open>hash_utils.cpp\<close> and
  \<^verbatim>\<open>src/src/client/verify_files.cpp\<close>: cutting a file into 1 MB chunks, hashing them,
  writing a file back from chunks, and the content identifier of a file.

  The file system is a record: the contents of the readable files by path, and which
  paths can be opened for writing. Progress and error messages are not modelled.
  \<open>std::sort\<close> is the stable \<open>sort_key\<close>; where it differs from an unstable sort (equal
  indices) the code rejects the chunk list whatever the order.
\<close>

section \<open>Data\<close>

record chunk =
  chunk_index :: int
  chunk_hash :: string
  chunk_data :: bytes
  chunk_size :: int

record file_system =
  files :: "string \<rightharpoonup> bytes"
  creatable :: "string \<Rightarrow> bool"

definition CHUNK_SIZE :: nat where
  "CHUNK_SIZE = 1048576"

section \<open>Operations\<close>

definition chunk_to_string :: "chunk \<Rightarrow> string" where
  "chunk_to_string c =
     ''Chunk{index='' @ to_string (chunk_index c) @ '', hash='' @ [CHR 0x27] @ chunk_hash c
     @ [CHR 0x27] @ '', size='' @ to_string (chunk_size c) @ ''}''"

text \<open>
  The read loop. \<open>unread\<close> is what is left of the file; a pass reads up to \<open>CHUNK_SIZE\<close>
  bytes and goes on while the read succeeded or delivered something. The inner test
  \<^verbatim>\<open>bytesRead > 0\<close> of the source repeats what the loop condition established.
\<close>

function read_chunks :: "int \<Rightarrow> bytes \<Rightarrow> chunk list" where
  "read_chunks i unread =
     (let got = take CHUNK_SIZE unread; bytesRead = length got in
      if bytesRead = CHUNK_SIZE \<or> 0 < bytesRead
      then \<lparr>chunk_index = i, chunk_hash = [], chunk_data = got, chunk_size = int bytesRead\<rparr>
           # read_chunks (i + 1) (drop CHUNK_SIZE unread)
      else [])"
  by pat_completeness auto
termination
  by (relation "measure (\<lambda>(i, unread). length unread)") (auto simp: CHUNK_SIZE_def)

declare read_chunks.simps [simp del]

definition splitFileIntoChunks :: "file_system \<Rightarrow> string \<Rightarrow> chunk list" where
  "splitFileIntoChunks fs filepath = (case files fs filepath of
      None \<Rightarrow> []
    | Some contents \<Rightarrow> read_chunks 0 contents)"

text \<open>The check loop over the sorted chunks: \<open>False\<close> at the first index out of place.\<close>

fun indices_from :: "nat \<Rightarrow> chunk list \<Rightarrow> bool" where
  "indices_from i [] = True"
| "indices_from i (c # cs) = (if chunk_index c \<noteq> int i then False else indices_from (Suc i) cs)"

definition valid_data :: "chunk \<Rightarrow> bytes" where
  "valid_data c = take (nat (chunk_size c)) (chunk_data c)"

definition reconstructFile :: "chunk list \<Rightarrow> string \<Rightarrow> file_system \<Rightarrow> bool \<times> file_system" where
  "reconstructFile chunks outputPath fs =
     (if chunks = [] then (False, fs)
      else
        let sortedChunks = sort_key chunk_index chunks in
        if \<not> indices_from 0 sortedChunks then (False, fs)
        else if \<not> creatable fs outputPath then (False, fs)
        else (True, fs\<lparr>files := (files fs)(outputPath \<mapsto> concat (map valid_data sortedChunks))\<rparr>))"

definition computeSHA256_ptr :: "bytes \<Rightarrow> nat \<Rightarrow> string" where
  "computeSHA256_ptr d len = sha256 (take len d)"

definition computeSHA256 :: "bytes \<Rightarrow> string" where
  "computeSHA256 d = sha256 d"

definition hashChunk :: "chunk \<Rightarrow> chunk" where
  "hashChunk c = c\<lparr>chunk_hash := computeSHA256 (valid_data c)\<rparr>"

fun hashAllChunks :: "chunk list \<Rightarrow> chunk list" where
  "hashAllChunks [] = []"
| "hashAllChunks (c # cs) = hashChunk c # hashAllChunks cs"

definition computeRootHash :: "string list \<Rightarrow> string" where
  "computeRootHash chunkHashes =
     (let combined = foldl (@) [] chunkHashes
      in computeSHA256_ptr (bytes_of_string combined) (length combined))"

definition computeCID :: "file_system \<Rightarrow> string \<Rightarrow> string" where
  "computeCID fs filepath =
     (let chunks = splitFileIntoChunks fs filepath in
      if chunks = [] then []
      else computeRootHash (map chunk_hash (hashAllChunks chunks)))"

section \<open>Splitting\<close>

lemma CHUNK_SIZE_pos [simp]: "0 < CHUNK_SIZE"
  by (simp add: CHUNK_SIZE_def)

lemma read_chunks_Nil [simp]: "read_chunks i [] = []"
  by (subst read_chunks.simps) (simp add: CHUNK_SIZE_def)

lemma read_chunks_Cons:
  "d \<noteq> [] \<Longrightarrow> read_chunks i d =
   \<lparr>chunk_index = i, chunk_hash = [], chunk_data = take CHUNK_SIZE d,
    chunk_size = int (min (length d) CHUNK_SIZE)\<rparr> # read_chunks (i + 1) (drop CHUNK_SIZE d)"
  by (subst read_chunks.simps) (simp add: Let_def)

lemma read_chunks_empty_iff [simp]: "read_chunks i d = [] \<longleftrightarrow> d = []"
  by (cases "d = []") (simp_all add: read_chunks_Cons)

lemma read_chunks_induct [case_names Nil Cons]:
  fixes P :: "int \<Rightarrow> bytes \<Rightarrow> bool"
  assumes "\<And>i. P i []"
    and "\<And>i d. d \<noteq> [] \<Longrightarrow> P (i + 1) (drop CHUNK_SIZE d) \<Longrightarrow> P i d"
  shows "P i d"
proof (induction i d rule: read_chunks.induct)
  case (1 i d)
  then show ?case using assms by (cases "d = []") auto
qed

lemma read_chunks_concat: "concat (map valid_data (read_chunks i d)) = d"
  by (induction i d rule: read_chunks_induct)
    (simp_all add: read_chunks_Cons valid_data_def min_def)

lemma read_chunks_indices: "map chunk_index (read_chunks i d) = map (\<lambda>k. i + int k) [0..<length (read_chunks i d)]"
proof (induction i d rule: read_chunks_induct)
  case (Cons i d)
  then show ?case by (simp add: read_chunks_Cons map_upt_Suc add.assoc del: upt_Suc)
qed simp

lemma read_chunks_count: "length (read_chunks i d) = (length d + CHUNK_SIZE - 1) div CHUNK_SIZE"
proof (induction i d rule: read_chunks_induct)
  case (Cons i d)
  have "(length d + CHUNK_SIZE - 1) div CHUNK_SIZE = Suc ((length d - 1) div CHUNK_SIZE)"
    using Cons(1) div_add_self2 [of CHUNK_SIZE "length d - 1"] by (cases d) simp_all
  moreover have "(length d - CHUNK_SIZE + CHUNK_SIZE - 1) div CHUNK_SIZE = (length d - 1) div CHUNK_SIZE"
  proof (cases "CHUNK_SIZE \<le> length d")
    case False
    then have "(length d - 1) div CHUNK_SIZE = 0" by (intro div_less) linarith
    then show ?thesis using False by (simp add: CHUNK_SIZE_def)
  qed simp
  ultimately show ?case using Cons by (simp add: read_chunks_Cons)
qed (simp add: CHUNK_SIZE_def)

lemma read_chunks_sizes:
  "c \<in> set (read_chunks i d) \<Longrightarrow>
   chunk_size c = int (length (chunk_data c)) \<and> 0 < chunk_size c \<and> chunk_size c \<le> int CHUNK_SIZE"
  by (induction i d rule: read_chunks_induct) (auto simp: read_chunks_Cons min_def)

lemma read_chunks_full:
  "c \<in> set (butlast (read_chunks i d)) \<Longrightarrow> chunk_size c = int CHUNK_SIZE"
proof (induction i d rule: read_chunks_induct)
  case (Cons i d)
  let ?R = "read_chunks (i + 1) (drop CHUNK_SIZE d)"
  have "?R \<noteq> [] \<Longrightarrow> min (length d) CHUNK_SIZE = CHUNK_SIZE" by simp
  with Cons.prems Cons.IH show ?case
    unfolding read_chunks_Cons [OF Cons.hyps] by (auto simp del: read_chunks_empty_iff split: if_splits)
qed simp

section \<open>Reassembling\<close>

lemma indices_from_iff: "indices_from i cs \<longleftrightarrow> map chunk_index cs = map int [i..<i + length cs]"
proof (induction i cs rule: indices_from.induct)
  case (2 i c cs)
  then show ?case by (simp add: upt_conv_Cons del: upt_Suc)
qed simp

lemma sort_key_unique:
  assumes "mset xs = mset ys" and "sorted (map f ys)" and "distinct (map f ys)"
  shows "sort_key f xs = ys"
proof (rule map_sorted_distinct_set_unique)
  have m: "mset (sort_key f xs) = mset ys" using assms(1) by simp
  show s: "set (sort_key f xs) = set ys" using m by (rule mset_eq_setD)
  have "inj_on f (set ys)" using assms(3) by (simp add: distinct_map)
  then show "inj_on f (set (sort_key f xs) \<union> set ys)" by (simp only: s Un_absorb)
  have "mset (map f (sort_key f xs)) = mset (map f ys)" using m by simp
  then show "distinct (map f (sort_key f xs))"
    using assms(3) mset_eq_imp_distinct_iff by blast
qed (use assms in auto)

lemma reconstructFile_ok:
  assumes "mset cs = mset ds" and "ds \<noteq> []" and "map chunk_index ds = map int [0..<length ds]"
    and "creatable fs out"
  shows "reconstructFile cs out fs = (True, fs\<lparr>files := (files fs)(out \<mapsto> concat (map valid_data ds))\<rparr>)"
proof -
  have "sort_key chunk_index cs = ds"
    using assms(1) by (rule sort_key_unique) (simp_all add: assms(3) distinct_map sorted_map monoI)
  moreover have "cs \<noteq> []" using assms(1,2) by auto
  moreover have "indices_from 0 ds" using assms(3) by (simp add: indices_from_iff)
  ultimately show ?thesis using assms(4) by (simp add: reconstructFile_def)
qed

lemma valid_data_cong [simp]: "valid_data (c\<lparr>chunk_hash := h\<rparr>) = valid_data c"
  by (simp add: valid_data_def)

lemma sorted_indices:
  assumes "mset (map chunk_index cs) = mset (map int [0..<length cs])"
  shows "map chunk_index (sort_key chunk_index cs) = map int [0..<length cs]"
proof -
  have "mset (map chunk_index (sort_key chunk_index cs)) = mset (map int [0..<length cs])"
    using assms by simp
  then have "sort (map int [0..<length cs]) = map chunk_index (sort_key chunk_index cs)"
    by (rule properties_for_sort) simp
  then show ?thesis by (simp add: sorted_sort_id sorted_map monoI)
qed

lemma reconstructFile_iff:
  "fst (reconstructFile cs out fs) \<longleftrightarrow>
   cs \<noteq> [] \<and> creatable fs out \<and> mset (map chunk_index cs) = mset (map int [0..<length cs])"
proof -
  have "map chunk_index (sort_key chunk_index cs) = map int [0..<length cs] \<longleftrightarrow>
        mset (map chunk_index cs) = mset (map int [0..<length cs])"
    using sorted_indices [of cs] by (metis mset_map mset_sort)
  then show ?thesis by (auto simp: reconstructFile_def indices_from_iff Let_def)
qed

lemma reconstructFile_fail: "\<not> fst (reconstructFile cs out fs) \<Longrightarrow> reconstructFile cs out fs = (False, fs)"
  by (auto simp: reconstructFile_def Let_def split: if_splits)

section \<open>Hashing\<close>

lemma hashAllChunks_map: "hashAllChunks cs = map hashChunk cs"
  by (induction cs) simp_all

lemma hashChunk_simps [simp]:
  "chunk_index (hashChunk c) = chunk_index c" "chunk_data (hashChunk c) = chunk_data c"
  "chunk_size (hashChunk c) = chunk_size c" "valid_data (hashChunk c) = valid_data c"
  "chunk_hash (hashChunk c) = sha256 (valid_data c)"
  by (simp_all add: hashChunk_def computeSHA256_def)

lemma foldl_append_concat: "foldl (@) a xs = a @ concat xs"
  by (induction xs arbitrary: a) simp_all

lemma computeRootHash_eq: "computeRootHash hs = sha256 (bytes_of_string (concat hs))"
  by (simp add: computeRootHash_def computeSHA256_ptr_def foldl_append_concat Let_def)

lemma computeCID_cong: "files fs p = files gs q \<Longrightarrow> computeCID fs p = computeCID gs q"
  by (simp add: computeCID_def splitFileIntoChunks_def)

lemma sha256_nonempty [simp]: "sha256 m \<noteq> []"
  by (metis sha256_length length_0_conv zero_neq_numeral)

lemma computeCID_empty: "computeCID fs q = [] \<longleftrightarrow> files fs q = None \<or> files fs q = Some []"
  by (auto simp: computeCID_def splitFileIntoChunks_def computeRootHash_eq Let_def split: option.splits)

lemma split_reconstruct:
  assumes "files fs p = Some d" and "d \<noteq> []" and "mset cs = mset (splitFileIntoChunks fs p)"
    and "creatable fs out"
  shows "reconstructFile cs out fs = (True, fs\<lparr>files := (files fs)(out \<mapsto> d)\<rparr>)"
proof -
  have "splitFileIntoChunks fs p = read_chunks 0 d" using assms(1) by (simp add: splitFileIntoChunks_def)
  with assms show ?thesis
    using reconstructFile_ok [of cs "read_chunks 0 d" fs out] read_chunks_indices [of 0 d]
    by (simp add: read_chunks_concat)
qed

section \<open>Properties\<close>

text \<open>
  C7: Splitting and reassembling a file is the identity: the chunks of a non-empty file, in
  whatever order they arrive, are accepted by \<open>reconstructFile\<close>, which writes exactly the
  original contents and changes no other file.
\<close>
theorem split_then_reconstruct:
  assumes "files fs p = Some d" and "d \<noteq> []" and "mset cs = mset (splitFileIntoChunks fs p)"
    and "creatable fs out"
  shows "reconstructFile cs out fs = (True, fs\<lparr>files := (files fs)(out \<mapsto> d)\<rparr>)"
  using assms by (rule split_reconstruct)

definition wit_fs :: file_system where
  "wit_fs = \<lparr>files = [''a.txt'' \<mapsto> [1, 2, 3], ''empty'' \<mapsto> []], creatable = (\<lambda>p. p \<noteq> ''/root/x'')\<rparr>"

theorem split_then_reconstruct_witness:
  "reconstructFile (rev (splitFileIntoChunks wit_fs ''a.txt'')) ''out'' wit_fs =
   (True, wit_fs\<lparr>files := (files wit_fs)(''out'' \<mapsto> [1, 2, 3])\<rparr>)"
  by (rule split_then_reconstruct [where p = "''a.txt''"]) (simp_all add: wit_fs_def)

text \<open>
  C38: The chunks of a file of \<open>n\<close> bytes are numbered \<open>0, 1, \<dots>\<close> in order, there are \<open>n\<close>
  divided by the chunk size, rounded up, of them, each records its true length between one
  byte and 1 MB, and every chunk but the last is full.
\<close>
theorem split_shape:
  assumes "files fs p = Some d"
  shows "map chunk_index (splitFileIntoChunks fs p) = map int [0..<(length d + CHUNK_SIZE - 1) div CHUNK_SIZE]
    \<and> (\<forall>c \<in> set (splitFileIntoChunks fs p).
         chunk_size c = int (length (chunk_data c)) \<and> 0 < chunk_size c \<and> chunk_size c \<le> int CHUNK_SIZE)
    \<and> (\<forall>c \<in> set (butlast (splitFileIntoChunks fs p)). chunk_size c = int CHUNK_SIZE)"
  using assms read_chunks_indices [of 0 d] read_chunks_sizes [of _ 0 d] read_chunks_full [of _ 0 d]
    read_chunks_count [of 0 d]
  by (fastforce simp: splitFileIntoChunks_def)

theorem split_shape_witness:
  "map chunk_index (splitFileIntoChunks wit_fs ''a.txt'') = map int [0..<(3 + CHUNK_SIZE - 1) div CHUNK_SIZE]"
  using split_shape [of wit_fs "''a.txt''" "[1, 2, 3]"] by (simp add: wit_fs_def)

text \<open>
  C37: \<open>reconstructFile\<close> succeeds exactly when there is at least one chunk, the output can
  be created and the indices are \<open>0 .. n-1\<close> each once, in any order; otherwise (no chunk, a
  missing, repeated or negative index, an unwritable path) it returns false and leaves
  every file as it was.
\<close>
theorem reconstruct_rejects_iff:
  "reconstructFile cs out fs = (False, fs) \<longleftrightarrow>
   \<not> (cs \<noteq> [] \<and> creatable fs out \<and> mset (map chunk_index cs) = mset (map int [0..<length cs]))"
  using reconstructFile_iff [of cs out fs] reconstructFile_fail [of cs out fs] by (metis fst_conv)

text \<open>
  The content identifier survives a round trip: after a file is reassembled from its
  chunks, \<open>computeCID\<close> gives the copy the identifier of the original, which is the digest
  of the concatenated digests of its chunks; it is the empty string exactly for a file that
  is missing or empty.
\<close>
theorem cid_round_trip:
  assumes "files fs p = Some d" and "d \<noteq> []" and "creatable fs out"
  shows "computeCID (snd (reconstructFile (splitFileIntoChunks fs p) out fs)) out = computeCID fs p
    \<and> computeCID fs p =
        sha256 (bytes_of_string (concat (map (\<lambda>c. sha256 (chunk_data c)) (splitFileIntoChunks fs p))))
    \<and> (computeCID fs q = [] \<longleftrightarrow> files fs q = None \<or> files fs q = Some [])"
proof -
  have "map chunk_hash (hashAllChunks (read_chunks 0 d)) = map (\<lambda>c. sha256 (chunk_data c)) (read_chunks 0 d)"
    using read_chunks_sizes [of _ 0 d] by (simp add: hashAllChunks_map valid_data_def)
  then show ?thesis
    using assms split_reconstruct [OF assms(1,2) refl assms(3)] computeCID_empty [of fs q]
    by (simp add: computeCID_def splitFileIntoChunks_def computeRootHash_eq)
qed

theorem cid_round_trip_witness:
  "computeCID (snd (reconstructFile (splitFileIntoChunks wit_fs ''a.txt'') ''out'' wit_fs)) ''out'' =
   computeCID wit_fs ''a.txt''"
  using cid_round_trip [of wit_fs "''a.txt''" "[1, 2, 3]" "''out''"] by (simp add: wit_fs_def)

end
