(* ===== verification/Std_Map.thy ===== *)
theory Std_Map
  imports Dfs_Prelude
begin

text \<open>
  The part of \<^verbatim>\<open>std::map<K, V>\<close> the program uses: an association list kept strictly
  ascending by key, with \<open>m[k] = v\<close>, \<open>erase\<close>, \<open>find\<close>, \<open>lower_bound\<close> and in-order
  iteration. The locale \<open>ordered_map\<close> states the interface: what a lookup returns after
  every operation, the order of iteration, and where \<open>lower_bound\<close> points. Facts the
  clients (the hash ring, the server's connection table) need are proved from these laws
  alone and reach the model through the interpretation \<open>sm\<close>.
\<close>

type_synonym ('k, 'v) std_map = "('k \<times> 'v) list"

definition map_inv :: "('k::linorder, 'v) std_map \<Rightarrow> bool" where
  "map_inv m \<longleftrightarrow> sorted_wrt (<) (map fst m)"

fun map_put :: "'k::linorder \<Rightarrow> 'v \<Rightarrow> ('k, 'v) std_map \<Rightarrow> ('k, 'v) std_map" where
  "map_put k v [] = [(k, v)]"
| "map_put k v ((a, b) # m) =
     (if a < k then (a, b) # map_put k v m
      else if a = k then (k, v) # m
      else (k, v) # (a, b) # m)"

fun map_erase :: "'k \<Rightarrow> ('k, 'v) std_map \<Rightarrow> ('k, 'v) std_map" where
  "map_erase k [] = []"
| "map_erase k ((a, b) # m) = (if a = k then m else (a, b) # map_erase k m)"

definition map_find :: "('k, 'v) std_map \<Rightarrow> 'k \<Rightarrow> 'v option" where
  "map_find m k = map_of m k"

text \<open>An iterator is the list of entries from its position to \<open>end()\<close>.\<close>

definition map_lower_bound :: "('k::linorder, 'v) std_map \<Rightarrow> 'k \<Rightarrow> ('k, 'v) std_map" where
  "map_lower_bound m k = dropWhile (\<lambda>e. fst e < k) m"

text \<open>\<^verbatim>\<open>if (it == m.end()) it = m.begin();\<close> on iterators.\<close>

definition or_begin :: "('k \<times> 'v) list \<Rightarrow> ('k \<times> 'v) list \<Rightarrow> ('k \<times> 'v) list" where
  "or_begin m it = (if it = [] then m else it)"

text \<open>The entry a ring position maps to: the first at or after it, else the very first.\<close>

definition next_entry :: "('k::linorder \<times> 'v) set \<Rightarrow> 'k \<Rightarrow> 'k \<times> 'v \<Rightarrow> bool" where
  "next_entry E p e \<longleftrightarrow> e \<in> E \<and>
     (if \<exists>d \<in> E. p \<le> fst d then p \<le> fst e \<and> (\<forall>d \<in> E. p \<le> fst d \<longrightarrow> fst e \<le> fst d)
      else \<forall>d \<in> E. fst e \<le> fst d)"

lemma next_entry_remove:
  assumes "next_entry E p e" and "fst e \<noteq> k"
  shows "next_entry {d \<in> E. fst d \<noteq> k} p e"
proof (cases "\<exists>d \<in> E. p \<le> fst d")
  case True
  then have e: "e \<in> E" "p \<le> fst e" "\<forall>d \<in> E. p \<le> fst d \<longrightarrow> fst e \<le> fst d"
    using assms(1) unfolding next_entry_def by presburger+
  then have "\<exists>d \<in> {d \<in> E. fst d \<noteq> k}. p \<le> fst d" using assms(2) by blast
  then show ?thesis using e assms(2) by (simp add: next_entry_def)
next
  case False
  then have "e \<in> E" "\<forall>d \<in> E. fst e \<le> fst d"
    using assms(1) unfolding next_entry_def by presburger+
  moreover have "\<not> (\<exists>d \<in> {d \<in> E. fst d \<noteq> k}. p \<le> fst d)" using False by blast
  ultimately show ?thesis using assms(2) unfolding next_entry_def by auto
qed

section \<open>The interface\<close>

locale ordered_map =
  fixes empty :: "'m"
    and put :: "'k::linorder \<Rightarrow> 'v \<Rightarrow> 'm \<Rightarrow> 'm"
    and erase :: "'k \<Rightarrow> 'm \<Rightarrow> 'm"
    and look :: "'m \<Rightarrow> 'k \<Rightarrow> 'v option"
    and entries :: "'m \<Rightarrow> ('k \<times> 'v) list"
    and lower :: "'m \<Rightarrow> 'k \<Rightarrow> ('k \<times> 'v) list"
    and inv :: "'m \<Rightarrow> bool"
  assumes look_empty: "look empty = Map.empty"
    and look_put: "inv m \<Longrightarrow> look (put k v m) = (look m)(k \<mapsto> v)"
    and look_erase: "inv m \<Longrightarrow> look (erase k m) = (look m)(k := None)"
    and inv_empty: "inv empty"
    and inv_put: "inv m \<Longrightarrow> inv (put k v m)"
    and inv_erase: "inv m \<Longrightarrow> inv (erase k m)"
    and entries_sorted: "inv m \<Longrightarrow> sorted_wrt (<) (map fst (entries m))"
    and look_entries: "inv m \<Longrightarrow> look m = map_of (entries m)"
    and lower_entries: "inv m \<Longrightarrow> lower m k = filter (\<lambda>e. k \<le> fst e) (entries m)"
begin

lemma entries_distinct: "inv m \<Longrightarrow> distinct (map fst (entries m))"
  using entries_sorted strict_sorted_iff by blast

lemma in_entries_iff: "inv m \<Longrightarrow> (k, v) \<in> set (entries m) \<longleftrightarrow> look m k = Some v"
  by (simp add: look_entries entries_distinct)

lemma entries_put:
  "inv m \<Longrightarrow> set (entries (put k v m)) = insert (k, v) {e \<in> set (entries m). fst e \<noteq> k}"
  by (auto simp: in_entries_iff inv_put look_put split: if_splits)

lemma entries_erase:
  "inv m \<Longrightarrow> set (entries (erase k m)) = {e \<in> set (entries m). fst e \<noteq> k}"
  by (auto simp: in_entries_iff inv_erase look_erase split: if_splits)

lemma lower_Nil_iff: "inv m \<Longrightarrow> lower m k = [] \<longleftrightarrow> (\<forall>e \<in> set (entries m). fst e < k)"
  by (auto simp: lower_entries filter_empty_conv not_le)

lemma lower_Cons_least:
  assumes "inv m" and "lower m k = e # es"
  shows "e \<in> set (entries m)" and "k \<le> fst e"
    and "\<And>d. d \<in> set (entries m) \<Longrightarrow> k \<le> fst d \<Longrightarrow> fst e \<le> fst d"
proof -
  have f: "filter (\<lambda>e. k \<le> fst e) (entries m) = e # es"
    using assms lower_entries by metis
  then have "e \<in> set (filter (\<lambda>e. k \<le> fst e) (entries m))" by simp
  then show "e \<in> set (entries m)" and "k \<le> fst e" by auto
  fix d assume "d \<in> set (entries m)" and "k \<le> fst d"
  then have d: "d \<in> set (e # es)" by (simp flip: f)
  have "sorted_wrt (<) (map fst (e # es))"
    using entries_sorted [OF assms(1)]
    by (metis f sorted_wrt_map sorted_wrt_filter)
  with d show "fst e \<le> fst d" by auto
qed

lemma entries_Cons_least:
  "inv m \<Longrightarrow> entries m = e # es \<Longrightarrow> d \<in> set (entries m) \<Longrightarrow> fst e \<le> fst d"
  using entries_sorted [of m] by auto

text \<open>What the wrapped \<open>lower_bound\<close> points to, and how it moves under an update.\<close>

lemma or_begin_next:
  assumes "inv m" and "entries m \<noteq> []"
  shows "next_entry (set (entries m)) p (hd (or_begin (entries m) (lower m p)))"
proof (cases "lower m p")
  case Nil
  obtain e es where e: "entries m = e # es" using assms(2) by (cases "entries m") auto
  then show ?thesis
    using Nil assms lower_Nil_iff [of m p] entries_Cons_least [OF assms(1) e]
    by (auto simp: next_entry_def or_begin_def not_le [symmetric])
next
  case (Cons e es)
  then show ?thesis
    using assms lower_Cons_least [OF assms(1) Cons] by (auto simp: next_entry_def or_begin_def)
qed

lemma next_unique:
  assumes "inv m" and "next_entry (set (entries m)) p d" and "next_entry (set (entries m)) p e"
  shows "d = e"
proof -
  have "fst d = fst e"
    using assms(2,3) by (auto simp: next_entry_def split: if_splits intro: antisym)
  moreover have "d \<in> set (entries m)" "e \<in> set (entries m)" using assms(2,3) by (auto simp: next_entry_def)
  ultimately show ?thesis using entries_distinct [OF assms(1)] by (metis eq_key_imp_eq_value prod.collapse)
qed

lemma next_erase:
  assumes "inv m" and "entries m \<noteq> []" and "fst (hd (or_begin (entries m) (lower m p))) \<noteq> k"
  shows "hd (or_begin (entries (erase k m)) (lower (erase k m) p)) = hd (or_begin (entries m) (lower m p))"
proof -
  let ?e = "hd (or_begin (entries m) (lower m p))"
  have n: "next_entry (set (entries m)) p ?e" using assms or_begin_next by blast
  have E: "set (entries (erase k m)) = {e \<in> set (entries m). fst e \<noteq> k}"
    using assms(1) by (rule entries_erase)
  have "next_entry (set (entries (erase k m))) p ?e"
    unfolding E using n assms(3) by (rule next_entry_remove)
  moreover from this have "entries (erase k m) \<noteq> []" by (auto simp: next_entry_def)
  ultimately show ?thesis
    using next_unique or_begin_next inv_erase [OF assms(1)] by blast
qed

end

section \<open>The association list implements it\<close>

lemma map_put_keys: "set (map fst (map_put k v m)) = insert k (set (map fst m))"
  by (induction k v m rule: map_put.induct) auto

lemma map_erase_keys: "set (map fst (map_erase k m)) \<subseteq> set (map fst m)"
  by (induction k m rule: map_erase.induct) auto

lemma map_inv_put: "map_inv m \<Longrightarrow> map_inv (map_put k v m)"
proof (induction k v m rule: map_put.induct)
  case (2 k v a b m)
  then show ?case
    using map_put_keys [of k v m] by (auto simp: map_inv_def)
qed (simp add: map_inv_def)

lemma map_inv_erase: "map_inv m \<Longrightarrow> map_inv (map_erase k m)"
proof (induction k m rule: map_erase.induct)
  case (2 k a b m)
  then show ?case
    using map_erase_keys [of k m] by (force simp: map_inv_def)
qed (simp add: map_inv_def)

lemma map_of_put: "map_inv m \<Longrightarrow> map_of (map_put k v m) = (map_of m)(k \<mapsto> v)"
  by (induction k v m rule: map_put.induct) (auto simp: map_inv_def fun_eq_iff)

lemma map_of_erase: "map_inv m \<Longrightarrow> map_of (map_erase k m) = (map_of m)(k := None)"
proof (induction k m rule: map_erase.induct)
  case (2 k a b m)
  then have "a \<notin> set (map fst m)" by (auto simp: map_inv_def)
  with 2 show ?case by (auto simp: map_inv_def fun_eq_iff map_of_eq_None_iff)
qed simp

lemma map_lower_bound_filter:
  "map_inv m \<Longrightarrow> map_lower_bound m k = filter (\<lambda>e. k \<le> fst e) m"
proof (induction m)
  case (Cons e m)
  then have "\<forall>d \<in> set m. fst e < fst d" by (auto simp: map_inv_def)
  then have "k \<le> fst e \<Longrightarrow> filter (\<lambda>e. k \<le> fst e) m = m"
    by (intro filter_True) auto
  with Cons show ?case by (auto simp: map_lower_bound_def map_inv_def not_less)
qed (simp add: map_lower_bound_def)

interpretation sm: ordered_map "[]" map_put map_erase map_find "\<lambda>m. m" map_lower_bound map_inv
proof unfold_locales
  show "map_find [] = Map.empty" by (simp add: map_find_def fun_eq_iff)
next
  fix m :: "('k::linorder \<times> 'v) list" and k v
  assume "map_inv m"
  then show "map_find (map_put k v m) = (map_find m)(k \<mapsto> v)"
    by (simp add: map_find_def fun_eq_iff map_of_put)
next
  fix m :: "('k::linorder \<times> 'v) list" and k
  assume "map_inv m"
  then show "map_find (map_erase k m) = (map_find m)(k := None)"
    by (simp add: map_find_def fun_eq_iff map_of_erase)
qed (auto simp: map_inv_put map_inv_erase map_lower_bound_filter map_find_def fun_eq_iff,
     simp_all add: map_inv_def)

end
