(* ===== verification/Consistent_Hash.thy ===== *)
theory Consistent_Hash
  imports Std_Map Text_Stream
begin

text \<open>
  \<^verbatim>\<open>src/src/dht/consistent_hash.cpp\<close>: the ring that places chunks on storage nodes.
  The state is the \<open>std::map\<close> from ring positions to node addresses. Positions are
  32-bit signed: \<open>hashKey\<close> multiplies and adds on 32-bit words, read as a signed
  number (the wrap-around every supported compiler produces for the \<open>int\<close> arithmetic of
  the source, whose overflow the C++ standard leaves undefined).
\<close>

section \<open>The class\<close>

record consistent_hash =
  ring :: "(int, string) std_map"

definition empty_ring :: consistent_hash where
  "empty_ring = \<lparr>ring = []\<rparr>"

definition hashKey :: "string \<Rightarrow> int" where
  "hashKey key = sint (foldl (\<lambda>h c. 31 * h + word_of_nat (of_char c)) (0 :: 32 word) key)"

definition addNode :: "string \<Rightarrow> consistent_hash \<Rightarrow> consistent_hash" where
  "addNode nodeAddress r = r\<lparr>ring := map_put (hashKey nodeAddress) nodeAddress (ring r)\<rparr>"

definition removeNode :: "string \<Rightarrow> consistent_hash \<Rightarrow> consistent_hash" where
  "removeNode nodeAddress r = r\<lparr>ring := map_erase (hashKey nodeAddress) (ring r)\<rparr>"

definition getNodeForKey :: "consistent_hash \<Rightarrow> string \<Rightarrow> string" where
  "getNodeForKey r key =
     (if ring r = [] then []
      else let pos = hashKey key;
               it = or_begin (ring r) (map_lower_bound (ring r) pos)
           in snd (hd it))"

text \<open>The search for the start index: \<open>0\<close> unless some position equals \<open>x\<close>.\<close>

fun start_index :: "int list \<Rightarrow> int \<Rightarrow> nat \<Rightarrow> nat" where
  "start_index [] x i = 0"
| "start_index (y # ys) x i = (if y = x then i else start_index ys x (Suc i))"

text \<open>The collecting loop; \<open>ring_.at\<close> throws when a position is absent.\<close>

function collect_nodes :: "(int, string) std_map \<Rightarrow> int list \<Rightarrow> nat \<Rightarrow> int \<Rightarrow> nat \<Rightarrow> string list
    \<Rightarrow> exn + string list" where
  "collect_nodes m keys start k i nodes =
     (if i < length keys \<and> int (length nodes) < k
      then let idx = (start + i) mod length keys in
           case map_find m (keys ! idx) of
             None \<Rightarrow> Inl Out_of_range
           | Some node \<Rightarrow>
               if node \<in> set nodes then collect_nodes m keys start k (Suc i) nodes
               else collect_nodes m keys start k (Suc i) (nodes @ [node])
      else Inr nodes)"
  by pat_completeness auto
termination
  by (relation "measure (\<lambda>(m, keys, start, k, i, nodes). length keys - i)") auto

declare collect_nodes.simps [simp del]

definition getNodesForKey :: "consistent_hash \<Rightarrow> string \<Rightarrow> int \<Rightarrow> exn + string list" where
  "getNodesForKey r key k =
     (if ring r = [] then Inr []
      else let pos = hashKey key;
               it = or_begin (ring r) (map_lower_bound (ring r) pos);
               keys = map fst (ring r);
               startIndex = start_index keys (fst (hd it)) 0
           in collect_nodes (ring r) keys startIndex k 0 [])"

definition getAllNodes :: "consistent_hash \<Rightarrow> string list" where
  "getAllNodes r = map snd (ring r)"

definition getNodeCount :: "consistent_hash \<Rightarrow> int" where
  "getNodeCount r = int (length (ring r))"

definition hasNode :: "consistent_hash \<Rightarrow> string \<Rightarrow> bool" where
  "hasNode r nodeAddress \<longleftrightarrow> map_find (ring r) (hashKey nodeAddress) \<noteq> None"

definition printRing :: "consistent_hash \<Rightarrow> string" where
  "printRing r =
     ''=== Consistent Hash Ring ==='' @ [CHR 0x0A] @ ''Nodes: '' @ to_string (int (length (ring r))) @ [CHR 0x0A]
     @ concat (map (\<lambda>p. ''  Position '' @ to_string (fst p) @ '' -> '' @ snd p @ [CHR 0x0A]) (ring r))
     @ ''============================='' @ [CHR 0x0A]"

section \<open>The invariant\<close>

text \<open>Every position holds an address that hashes to it, so addresses are distinct.\<close>

definition ring_inv :: "consistent_hash \<Rightarrow> bool" where
  "ring_inv r \<longleftrightarrow> map_inv (ring r) \<and> list_all (\<lambda>e. fst e = hashKey (snd e)) (ring r)"

lemma ring_inv_empty [simp]: "ring_inv empty_ring"
  by (simp add: ring_inv_def empty_ring_def sm.inv_empty)

lemma ring_inv_add: "ring_inv r \<Longrightarrow> ring_inv (addNode a r)"
  using sm.entries_put [of "ring r" "hashKey a" a]
  by (auto simp: ring_inv_def addNode_def sm.inv_put list_all_iff)

lemma ring_inv_remove: "ring_inv r \<Longrightarrow> ring_inv (removeNode a r)"
  using sm.entries_erase [of "ring r" "hashKey a"]
  by (auto simp: ring_inv_def removeNode_def sm.inv_erase list_all_iff)

lemma ring_addresses_distinct:
  assumes "ring_inv r" shows "distinct (map snd (ring r))"
proof -
  have "distinct (map fst (ring r))" using assms by (auto simp: ring_inv_def intro: sm.entries_distinct)
  moreover have "map fst (ring r) = map hashKey (map snd (ring r))"
    using assms by (auto simp: ring_inv_def list_all_iff)
  ultimately show ?thesis by (metis distinct_map)
qed

section \<open>Lookup\<close>

text \<open>The nodes met walking the ring once from a position.\<close>

definition walk_from :: "(int, string) std_map \<Rightarrow> int \<Rightarrow> string list" where
  "walk_from m p = map snd (filter (\<lambda>e. p \<le> fst e) m @ filter (\<lambda>e. fst e < p) m)"

lemma start_index_found: "x = ys ! j \<Longrightarrow> j < length ys \<Longrightarrow> distinct ys \<Longrightarrow> start_index ys x i = i + j"
proof (induction ys arbitrary: i j)
  case (Cons y ys)
  then show ?case by (cases j) auto
qed simp

lemma mod_shift_distinct:
  fixes n :: nat
  assumes "j < i" and "i < n"
  shows "(s + i) mod n \<noteq> (s + j) mod n"
proof
  assume "(s + i) mod n = (s + j) mod n"
  then have "n dvd (s + i) - (s + j)" using assms(1) by (subst mod_eq_dvd_iff_nat [symmetric]) auto
  then show False using assms by (simp add: nat_dvd_not_less)
qed

lemma map_find_nth: "map_inv m \<Longrightarrow> j < length m \<Longrightarrow> map_find m (fst (m ! j)) = Some (snd (m ! j))"
  using sm.in_entries_iff [of m "fst (m ! j)" "snd (m ! j)"] by simp

lemma collect_nodes_eq:
  assumes "map_inv m" and "distinct (map snd m)" and "keys = map fst m" and "0 \<le> k" and "i \<le> length m"
    and "nodes = take (nat k) (map (\<lambda>j. snd (m ! ((start + j) mod length m))) [0..<i])"
  shows "collect_nodes m keys start k i nodes =
    Inr (take (nat k) (map (\<lambda>j. snd (m ! ((start + j) mod length m))) [0..<length m]))"
  using assms(5,6)
proof (induction "length m - i" arbitrary: i nodes)
  case 0
  then show ?case by (subst collect_nodes.simps) (simp add: assms)
next
  case (Suc n)
  let ?f = "\<lambda>j. snd (m ! ((start + j) mod length m))"
  have i: "i < length m" using Suc.hyps(2) by simp
  show ?case
  proof (cases "int (length nodes) < k")
    case False
    then have "nat k \<le> i" using Suc.prems(2) by auto
    then have "take (nat k) (map ?f [0..<length m]) = nodes"
      using i Suc.prems(2) by (simp add: take_map min_absorb1)
    then show ?thesis using False by (subst collect_nodes.simps) simp
  next
    case True
    then have short: "nodes = map ?f [0..<i]" and k: "Suc i \<le> nat k" using Suc.prems(2) assms(4) by auto
    have inj: "?f i \<noteq> ?f j" if "j < i" for j
    proof -
      have "(start + i) mod length m \<noteq> (start + j) mod length m"
        using that i by (rule mod_shift_distinct)
      moreover have "x mod length m < length m" for x using i by (intro mod_less_divisor) linarith
      ultimately show ?thesis using assms(2) by (auto simp: distinct_conv_nth)
    qed
    have "(start + i) mod length m < length m" using i by (intro mod_less_divisor) linarith
    then have "map_find m (keys ! ((start + i) mod length m)) = Some (?f i)"
      using map_find_nth [OF assms(1)] assms(3) by simp
    moreover have "?f i \<notin> set nodes" using inj by (force simp: short)
    ultimately have "collect_nodes m keys start k i nodes = collect_nodes m keys start k (Suc i) (nodes @ [?f i])"
      using True i assms(3) by (subst collect_nodes.simps) (simp add: Let_def)
    also have "\<dots> = Inr (take (nat k) (map ?f [0..<length m]))"
      using Suc.hyps(2) i k by (intro Suc.hyps(1)) (auto simp: short)
    finally show ?thesis .
  qed
qed

lemma below_filter: "map_inv m \<Longrightarrow> takeWhile (\<lambda>e. fst e < p) m = filter (\<lambda>e. fst e < p) m"
proof (induction m)
  case (Cons e m)
  then have "\<forall>d \<in> set m. fst e < fst d" by (auto simp: map_inv_def)
  then have "\<not> fst e < p \<Longrightarrow> filter (\<lambda>e. fst e < p) m = []" by (intro filter_False) force
  with Cons show ?case by (auto simp: map_inv_def)
qed simp

lemma rotate_walk:
  assumes "map_inv m" and "m \<noteq> []"
  shows "map snd (rotate (start_index (map fst m) (fst (hd (or_begin m (map_lower_bound m p)))) 0) m) =
    walk_from m p"
proof -
  let ?b = "filter (\<lambda>e. fst e < p) m" and ?a = "filter (\<lambda>e. p \<le> fst e) m"
  have m: "m = ?b @ ?a"
    using takeWhile_dropWhile_id [of "\<lambda>e. fst e < p" m] below_filter [OF assms(1)]
      map_lower_bound_filter [OF assms(1)] by (simp add: map_lower_bound_def)
  have dist: "distinct (map fst m)" using assms(1) by (rule sm.entries_distinct)
  show ?thesis
  proof (cases "?a = []")
    case True
    then have "start_index (map fst m) (fst (hd m)) 0 = 0"
      using start_index_found [of "fst (hd m)" "map fst m" 0 0] assms(2) dist by (simp add: hd_conv_nth)
    then show ?thesis
      using True m assms by (simp add: or_begin_def map_lower_bound_filter walk_from_def)
  next
    case False
    have j: "length ?b < length m" using arg_cong [OF m, of length] False by simp
    have "m ! length ?b = hd ?a" using False arg_cong [OF m, of "\<lambda>l. l ! length ?b"]
      by (simp add: nth_append hd_conv_nth)
    then have "start_index (map fst m) (fst (hd ?a)) 0 = length ?b"
      using start_index_found [of "fst (hd ?a)" "map fst m" "length ?b" 0] j dist by simp
    moreover have "rotate (length ?b) m = ?a @ ?b"
      using rotate_append [of ?b ?a] m by simp
    ultimately show ?thesis
      using False assms by (simp add: or_begin_def map_lower_bound_filter walk_from_def)
  qed
qed

lemma rotate_map_nth: "map (\<lambda>j. snd (m ! ((s + j) mod length m))) [0..<length m] = map snd (rotate s m)"
  by (rule nth_equalityI) (simp_all add: nth_rotate)

lemma getNodesForKey_eq:
  assumes "ring_inv r" and "0 \<le> k"
  shows "getNodesForKey r key k = Inr (take (nat k) (walk_from (ring r) (hashKey key)))"
proof (cases "ring r = []")
  case True
  then show ?thesis by (simp add: getNodesForKey_def walk_from_def)
next
  case False
  have "map_inv (ring r)" using assms(1) by (simp add: ring_inv_def)
  then show ?thesis
    using False assms ring_addresses_distinct [OF assms(1)]
    by (simp add: getNodesForKey_def collect_nodes_eq rotate_map_nth rotate_walk Let_def)
qed

lemma distinct_walk: "ring_inv r \<Longrightarrow> distinct (walk_from (ring r) p)"
proof -
  assume "ring_inv r"
  then have "distinct (map snd (ring r))" by (rule ring_addresses_distinct)
  then show ?thesis
    by (fastforce simp: walk_from_def distinct_map inj_on_def)
qed

lemma set_walk: "set (walk_from m p) = snd ` set m"
  by (auto simp: walk_from_def image_Un [symmetric] not_le)

lemma length_walk: "length (walk_from m p) = length m"
proof -
  have "(\<lambda>e. fst e < p) = (\<lambda>e. \<not> p \<le> fst e)" by (auto simp: not_le)
  then show ?thesis
    using sum_length_filter_compl [of "\<lambda>e. p \<le> fst e" m] by (simp add: walk_from_def not_le)
qed

lemma hd_walk:
  assumes "ring_inv r" and "ring r \<noteq> []"
  shows "hd (walk_from (ring r) (hashKey key)) = getNodeForKey r key"
proof -
  have inv: "map_inv (ring r)" using assms(1) by (simp add: ring_inv_def)
  show ?thesis
  proof (cases "filter (\<lambda>e. hashKey key \<le> fst e) (ring r)")
    case Nil
    then have "filter (\<lambda>e. fst e < hashKey key) (ring r) = ring r"
      by (auto simp: filter_empty_conv not_le intro!: filter_True)
    then show ?thesis using Nil inv assms(2)
      by (simp add: getNodeForKey_def walk_from_def or_begin_def map_lower_bound_filter hd_map)
  next
    case (Cons e es)
    then show ?thesis using inv assms(2)
      by (simp add: getNodeForKey_def walk_from_def or_begin_def map_lower_bound_filter)
  qed
qed

section \<open>Growing the ring\<close>

lemma map_put_split:
  assumes "map_find m k = None"
  shows "\<exists>l u. m = l @ u \<and> map_put k v m = l @ (k, v) # u"
  using assms
proof (induction k v m rule: map_put.induct)
  case (2 k v a b m)
  show ?case
  proof (cases "k < a")
    case True
    then have "(a, b) # m = [] @ (a, b) # m \<and> map_put k v ((a, b) # m) = [] @ (k, v) # (a, b) # m" by auto
    then show ?thesis by blast
  next
    case False
    then have "k \<noteq> a" "map_find m k = None" using 2(2) by (auto simp: map_find_def split: if_splits)
    moreover from this have "a < k" using False by auto
    ultimately obtain l u where "m = l @ u" "map_put k v m = l @ (k, v) # u" using 2(1) by blast
    then have "(a, b) # m = ((a, b) # l) @ u \<and> map_put k v ((a, b) # m) = ((a, b) # l) @ (k, v) # u"
      using \<open>a < k\<close> by auto
    then show ?thesis by blast
  qed
qed simp

lemma walk_put:
  assumes "map_find m k = None"
  shows "\<exists>xs ys. walk_from m p = xs @ ys \<and> walk_from (map_put k v m) p = xs @ v # ys"
proof -
  obtain l u where m: "m = l @ u" "map_put k v m = l @ (k, v) # u" using map_put_split [OF assms] by blast
  let ?a = "filter (\<lambda>e. p \<le> fst e)" and ?b = "filter (\<lambda>e. fst e < p)"
  show ?thesis
  proof (cases "p \<le> k")
    case True
    then have "walk_from m p = map snd (?a l) @ map snd (?a u @ ?b l @ ?b u) \<and>
        walk_from (map_put k v m) p = map snd (?a l) @ v # map snd (?a u @ ?b l @ ?b u)"
      unfolding m(2) by (simp add: m(1) walk_from_def)
    then show ?thesis by blast
  next
    case False
    then have "walk_from m p = map snd (?a l @ ?a u @ ?b l) @ map snd (?b u) \<and>
        walk_from (map_put k v m) p = map snd (?a l @ ?a u @ ?b l) @ v # map snd (?b u)"
      unfolding m(2) by (simp add: m(1) walk_from_def)
    then show ?thesis by blast
  qed
qed

lemma take_insert: "take k (xs @ a # ys) = take k (take i ns @ a # drop i ns)"
  if "ns = take k (xs @ ys)" and "i = min k (length xs)"
  using that by (auto simp: min_def take_Cons' drop_take)

section \<open>The placement contract\<close>

text \<open>
  What the client relies on when it places and looks up chunks: the replica list is a
  function of the key alone, without repetition, as long as asked for where there are
  enough members.
\<close>

locale placement =
  fixes replicas :: "'r \<Rightarrow> string \<Rightarrow> int \<Rightarrow> exn + string list"
    and members :: "'r \<Rightarrow> string set"
    and ok :: "'r \<Rightarrow> bool"
  assumes placed: "ok r \<Longrightarrow> 0 \<le> k \<Longrightarrow> \<exists>ns. replicas r key k = Inr ns \<and> distinct ns \<and> set ns \<subseteq> members r
      \<and> length ns = min (nat k) (card (members r))"
begin

text \<open>With two members at different places, no single place holds all replicas of a key.\<close>

lemma survivor:
  assumes "ok r" and "2 \<le> card (members r)" and "inj_on ep (members r)"
  shows "\<exists>ns. replicas r key 2 = Inr ns \<and> set ns \<subseteq> members r \<and> (\<exists>a \<in> set ns. ep a \<noteq> e)"
proof -
  obtain ns where ns: "replicas r key 2 = Inr ns" "distinct ns" "set ns \<subseteq> members r" "length ns = 2"
    using placed [OF assms(1), of 2 key] assms(2) by auto
  obtain a b where ab: "ns = [a, b]" using ns(4) by (auto simp: length_Suc_conv numeral_2_eq_2)
  then have "ep a \<noteq> ep b" using assms(3) ns(2,3) by (auto simp: inj_on_def)
  then have "ep a \<noteq> e \<or> ep b \<noteq> e" by metis
  then show ?thesis using ns(1,3) ab by auto
qed

end

lemma getNodesForKey_placed:
  assumes "ring_inv r" and "0 \<le> k"
  shows "\<exists>ns. getNodesForKey r key k = Inr ns \<and> distinct ns \<and> set ns \<subseteq> set (getAllNodes r)
    \<and> length ns = min (nat k) (card (set (getAllNodes r)))"
proof -
  have "card (set (getAllNodes r)) = length (ring r)"
    using distinct_card [OF ring_addresses_distinct [OF assms(1)]] by (simp add: getAllNodes_def)
  then show ?thesis
    using getNodesForKey_eq [OF assms, of key] distinct_walk [OF assms(1)] set_walk [of "ring r" "hashKey key"]
    by (auto simp: length_walk min.commute getAllNodes_def dest: in_set_takeD)
qed

lemma added_replica:
  assumes "ring_inv r" and "\<not> hasNode r a" and "0 \<le> k"
  shows "\<exists>ns i. getNodesForKey r key k = Inr ns \<and> i \<le> length ns \<and>
    getNodesForKey (addNode a r) key k = Inr (take (nat k) (take i ns @ a # drop i ns))"
proof -
  have "map_find (ring r) (hashKey a) = None" using assms(2) by (simp add: hasNode_def)
  then obtain xs ys where w: "walk_from (ring r) (hashKey key) = xs @ ys"
      "walk_from (ring (addNode a r)) (hashKey key) = xs @ a # ys"
    using walk_put [of "ring r" "hashKey a" "hashKey key" a] by (auto simp: addNode_def)
  let ?ns = "take (nat k) (xs @ ys)" and ?i = "min (nat k) (length xs)"
  have "getNodesForKey (addNode a r) key k = Inr (take (nat k) (take ?i ?ns @ a # drop ?i ?ns))"
    using getNodesForKey_eq [OF ring_inv_add [OF assms(1)] assms(3)] w(2) take_insert [of ?ns "nat k" xs ys ?i a] by simp
  moreover have "getNodesForKey r key k = Inr ?ns" using getNodesForKey_eq [OF assms(1,3)] w(1) by simp
  moreover have "?i \<le> length ?ns" by simp
  ultimately show ?thesis by blast
qed

text \<open>Of two replicas one stays when a node is added.\<close>

lemma common_replica:
  assumes "ring_inv r" and "\<not> hasNode r a" and "2 \<le> length (ring r)"
  shows "\<exists>ns ns' b. getNodesForKey r key 2 = Inr ns \<and> getNodesForKey (addNode a r) key 2 = Inr ns' \<and>
    set ns \<subseteq> set (getAllNodes r) \<and> set ns' \<subseteq> insert a (set ns) \<and> b \<in> set ns \<and> b \<in> set ns'"
proof -
  obtain ns i where ns: "getNodesForKey r key 2 = Inr ns" "i \<le> length ns"
      "getNodesForKey (addNode a r) key 2 = Inr (take 2 (take i ns @ a # drop i ns))"
    using added_replica [OF assms(1,2), of 2 key] by auto
  have sub: "set ns \<subseteq> set (getAllNodes r)" "length ns = 2"
    using getNodesForKey_eq [OF assms(1), of 2 key] ns(1) set_walk [of "ring r" "hashKey key"] assms(3)
    by (auto simp: getAllNodes_def length_walk dest: in_set_takeD)
  then obtain b c where bc: "ns = [b, c]" by (auto simp: length_Suc_conv numeral_2_eq_2)
  have "i = 0 \<or> i = 1 \<or> i = 2" using ns(2) sub(2) by linarith
  then show ?thesis using ns(1,3) sub(1) bc
    by (elim disjE; intro exI [of _ ns] exI [of _ "take 2 (take i ns @ a # drop i ns)"] exI [of _ b]) auto
qed

interpretation dht: placement getNodesForKey "\<lambda>r. set (getAllNodes r)" ring_inv
  by unfold_locales (rule getNodesForKey_placed)

section \<open>Properties\<close>

text \<open>
  C8: \<open>getNodesForKey\<close> returns the replica set the design asks for. On a ring kept by its
  own operations and for a non-negative count it never throws; it lists the nodes met
  walking once around the ring from the key's position, cut at \<open>k\<close>: no node twice,
  \<open>min k n\<close> of them, all on the ring, and the first is the node \<open>getNodeForKey\<close> returns.
\<close>
theorem replica_set:
  assumes "ring_inv r" and "0 \<le> k"
  shows "\<exists>ns. getNodesForKey r key k = Inr ns \<and> ns = take (nat k) (walk_from (ring r) (hashKey key))
    \<and> distinct ns \<and> length ns = min (nat k) (length (ring r)) \<and> set ns \<subseteq> set (getAllNodes r)
    \<and> (0 < k \<and> ring r \<noteq> [] \<longrightarrow> hd ns = getNodeForKey r key)"
proof -
  let ?ns = "take (nat k) (walk_from (ring r) (hashKey key))"
  have "walk_from (ring r) (hashKey key) \<noteq> [] \<longleftrightarrow> ring r \<noteq> []" by (metis length_walk length_0_conv)
  then have "0 < k \<and> ring r \<noteq> [] \<longrightarrow> hd ?ns = getNodeForKey r key"
    using hd_walk [OF assms(1)] by (simp add: hd_take)
  then show ?thesis
    using getNodesForKey_eq [OF assms] distinct_walk [OF assms(1)] set_walk [of "ring r" "hashKey key"]
    by (auto simp: length_walk min.commute getAllNodes_def dest: in_set_takeD)
qed

definition wit_ring :: consistent_hash where
  "wit_ring = addNode ''127.0.0.1:8002'' (addNode ''127.0.0.1:8001'' empty_ring)"

lemma wit_ring_inv [simp]: "ring_inv wit_ring"
  by (simp add: wit_ring_def ring_inv_add)

lemma wit_ring_eq: "ring wit_ring = [(-35736874, ''127.0.0.1:8001''), (-35736873, ''127.0.0.1:8002'')]"
  by code_simp

theorem replica_set_witness: "\<exists>ns. getNodesForKey wit_ring ''abc'' 2 = Inr ns \<and> distinct ns \<and> length ns = 2"
  using replica_set [of wit_ring 2 "''abc''"] by (auto simp: wit_ring_eq)

text \<open>
  C36: Adding a node moves as little as possible. After \<open>addNode\<close> of an address whose
  position was free, the replicas of every key, for every count \<open>k\<close>, are those of before in
  the same order with the new node put in at one place, cut at \<open>k\<close> again: at most one old
  replica leaves, and nothing else changes.
\<close>
theorem add_minimal_movement:
  assumes "ring_inv r" and "\<not> hasNode r a" and "0 \<le> k"
  shows "\<exists>ns i. getNodesForKey r key k = Inr ns \<and> i \<le> length ns \<and>
    getNodesForKey (addNode a r) key k = Inr (take (nat k) (take i ns @ a # drop i ns))"
  using added_replica [OF assms] .

theorem add_minimal_movement_witness:
  "\<exists>ns i. getNodesForKey wit_ring ''abc'' 2 = Inr ns \<and> i \<le> length ns \<and>
     getNodesForKey (addNode ''127.0.0.1:8003'' wit_ring) ''abc'' 2 = Inr (take (nat 2) (take i ns @ ''127.0.0.1:8003'' # drop i ns))"
proof (rule add_minimal_movement)
  show "\<not> hasNode wit_ring ''127.0.0.1:8003''" by code_simp
qed (simp_all add: wit_ring_eq)

text \<open>
  Removing a node moves only its own keys: a key served by another node keeps it.
\<close>
theorem remove_minimal_movement:
  assumes "ring_inv r" and "ring r \<noteq> []" and "hashKey (getNodeForKey r key) \<noteq> hashKey a"
  shows "getNodeForKey (removeNode a r) key = getNodeForKey r key"
proof -
  let ?e = "hd (or_begin (ring r) (map_lower_bound (ring r) (hashKey key)))"
  have inv: "map_inv (ring r)" using assms(1) by (simp add: ring_inv_def)
  have nxt: "next_entry (set (ring r)) (hashKey key) ?e" using inv assms(2) by (rule sm.or_begin_next)
  then have "fst ?e = hashKey (snd ?e)"
    using assms(1) by (auto simp: ring_inv_def list_all_iff next_entry_def)
  then have k: "fst ?e \<noteq> hashKey a" using assms(2,3) by (simp add: getNodeForKey_def Let_def)
  have "?e \<in> set (map_erase (hashKey a) (ring r))"
    using nxt k sm.entries_erase [OF inv, of "hashKey a"] by (auto simp: next_entry_def)
  then have "map_erase (hashKey a) (ring r) \<noteq> []" by auto
  then show ?thesis
    using sm.next_erase [OF inv assms(2) k] assms(2) by (simp add: getNodeForKey_def removeNode_def Let_def)
qed

theorem remove_minimal_movement_witness:
  "getNodeForKey (removeNode ''127.0.0.1:8002'' wit_ring) ''127.0.0.1:8001'' = getNodeForKey wit_ring ''127.0.0.1:8001''"
proof (rule remove_minimal_movement)
  show "hashKey (getNodeForKey wit_ring ''127.0.0.1:8001'') \<noteq> hashKey ''127.0.0.1:8002''" by code_simp
qed (simp_all add: wit_ring_eq)

text \<open>
  Every operation of the ring keeps its invariant (positions strictly ascending, each
  the hash of the address it holds), and membership reads back what was written: after
  \<open>addNode a\<close> the node is there and any address at another position is unaffected; after
  \<open>removeNode a\<close> it is gone.
\<close>
theorem ring_operations_preserve:
  assumes "ring_inv r"
  shows "ring_inv (addNode a r) \<and> ring_inv (removeNode a r)
    \<and> hasNode (addNode a r) b = (hashKey b = hashKey a \<or> hasNode r b)
    \<and> hasNode (removeNode a r) b = (hashKey b \<noteq> hashKey a \<and> hasNode r b)
    \<and> set (getAllNodes (addNode a r)) = insert a {n \<in> set (getAllNodes r). hashKey n \<noteq> hashKey a}
    \<and> set (getAllNodes (removeNode a r)) = {n \<in> set (getAllNodes r). hashKey n \<noteq> hashKey a}"
proof -
  have inv: "map_inv (ring r)" and h: "\<forall>e \<in> set (ring r). fst e = hashKey (snd e)"
    using assms by (simp_all add: ring_inv_def list_all_iff)
  have "hasNode (addNode a r) b = (hashKey b = hashKey a \<or> hasNode r b)"
    and "hasNode (removeNode a r) b = (hashKey b \<noteq> hashKey a \<and> hasNode r b)"
    using sm.look_put [OF inv, of "hashKey a" a] sm.look_erase [OF inv, of "hashKey a"]
    by (simp_all add: hasNode_def addNode_def removeNode_def)
  moreover have "set (getAllNodes (addNode a r)) = insert a {n \<in> set (getAllNodes r). hashKey n \<noteq> hashKey a}"
    and "set (getAllNodes (removeNode a r)) = {n \<in> set (getAllNodes r). hashKey n \<noteq> hashKey a}"
    using sm.entries_put [OF inv, of "hashKey a" a] sm.entries_erase [OF inv, of "hashKey a"] h
    by (force simp: getAllNodes_def addNode_def removeNode_def)+
  ultimately show ?thesis using ring_inv_add [OF assms] ring_inv_remove [OF assms] by blast
qed

theorem ring_operations_preserve_witness:
  "ring_inv (removeNode ''127.0.0.1:8001'' wit_ring) \<and> \<not> hasNode (removeNode ''127.0.0.1:8001'' wit_ring) ''127.0.0.1:8001''"
  using ring_operations_preserve [of wit_ring "''127.0.0.1:8001''" "''127.0.0.1:8001''"] by simp

text \<open>
  Two addresses with the same hash displace each other: the node added second takes
  the position, the first is no longer returned by \<open>getAllNodes\<close>, and \<open>hasNode\<close> still
  reports it as present.
\<close>
theorem colliding_address_displaced:
  assumes "ring_inv r" and "hashKey a = hashKey b" and "a \<noteq> b"
  shows "a \<notin> set (getAllNodes (addNode b (addNode a r))) \<and> hasNode (addNode b (addNode a r)) a
    \<and> getNodeCount (addNode b (addNode a r)) = getNodeCount (addNode a r)"
proof -
  let ?r = "addNode a r"
  have inv: "map_inv (ring ?r)" and r: "ring_inv ?r" using assms(1) ring_inv_add by (auto simp: ring_inv_def)
  have "set (ring (addNode b ?r)) = insert (hashKey b, b) {e \<in> set (ring ?r). fst e \<noteq> hashKey b}"
    using sm.entries_put [OF inv] by (simp add: addNode_def)
  moreover have "\<forall>e \<in> set (ring ?r). fst e = hashKey (snd e)" using r by (simp add: ring_inv_def list_all_iff)
  ultimately have "a \<notin> set (getAllNodes (addNode b ?r))" using assms(2,3) by (auto simp: getAllNodes_def)
  moreover have "hasNode (addNode b ?r) a"
    using sm.look_put [OF inv, of "hashKey b" b] assms(2) by (simp add: hasNode_def addNode_def)
  moreover have "map fst (ring (addNode b ?r)) = map fst (ring ?r)"
  proof (rule sorted_distinct_set_unique)
    have keys: "set (map fst (ring ?r)) = insert (hashKey a) (set (map fst (ring r)))"
      unfolding addNode_def using map_put_keys by simp
    show "set (map fst (ring (addNode b ?r))) = set (map fst (ring ?r))"
      using map_put_keys [of "hashKey b" b "ring ?r"] keys assms(2) by (simp add: addNode_def insert_absorb)
  qed (use inv sm.inv_put [OF inv] in \<open>auto simp: addNode_def map_inv_def strict_sorted_iff\<close>)
  then have "getNodeCount (addNode b ?r) = getNodeCount ?r"
    unfolding getNodeCount_def by (metis length_map)
  ultimately show ?thesis by blast
qed

theorem colliding_address_displaced_witness:
  "''Aa'' \<notin> set (getAllNodes (addNode ''BB'' (addNode ''Aa'' empty_ring)))
   \<and> hasNode (addNode ''BB'' (addNode ''Aa'' empty_ring)) ''Aa''"
proof -
  have "hashKey ''Aa'' = hashKey ''BB''" by code_simp
  then show ?thesis using colliding_address_displaced [of empty_ring "''Aa''" "''BB''"] by simp
qed

end
