(* ===== verification/Tcp_Framing.thy ===== *)
theory Tcp_Framing
  imports Dfs_Prelude
begin

unbundle bit_operations_syntax

text \<open>
  The wire format shared by \<^verbatim>\<open>src/src/network/tcp_client.cpp\<close> and \<^verbatim>\<open>tcp_server.cpp\<close>:
  a four-byte big-endian length, then the payload, sent and received by loops around
  \<open>::send\<close> and \<open>::recv\<close>.

  The operating system is an argument: a list with the value each successive call
  returns. A positive value \<open>n\<close> accepts or delivers \<open>n\<close> bytes, at most the number
  asked for and, for \<open>::recv\<close>, at most what the peer has sent; a value that is zero or
  negative, or a missing one, is an error or the end of the stream.
\<close>

section \<open>Byte order\<close>

definition htonl_bytes :: "32 word \<Rightarrow> bytes" where
  "htonl_bytes w = [ucast (drop_bit 24 w), ucast (drop_bit 16 w), ucast (drop_bit 8 w), ucast w]"

definition ntohl_bytes :: "bytes \<Rightarrow> 32 word" where
  "ntohl_bytes b = push_bit 24 (ucast (b ! 0)) OR push_bit 16 (ucast (b ! 1)) OR push_bit 8 (ucast (b ! 2)) OR ucast (b ! 3)"

section \<open>Sending\<close>

text \<open>The loop \<^verbatim>\<open>while (sent < len)\<close>: the bytes put on the wire and the result.\<close>

fun send_loop :: "int list \<Rightarrow> bytes \<Rightarrow> nat \<Rightarrow> bytes \<times> bool" where
  "send_loop os d sent =
     (if sent < length d then
        (case os of
           [] \<Rightarrow> ([], False)
         | n # os' \<Rightarrow>
             if n \<le> 0 then ([], False)
             else let m = min (nat n) (length d - sent); (w, ok) = send_loop os' d (sent + m)
                  in (take m (drop sent d) @ w, ok))
      else ([], True))"

declare send_loop.simps [simp del]

text \<open>\<open>sendData\<close> after its guard: the length word in one call, then the loop.\<close>

definition send_frame :: "int list \<Rightarrow> bytes \<Rightarrow> bytes \<times> bool" where
  "send_frame os d =
     (let len32 = htonl_bytes (word_of_nat (length d)) in
      case os of
        [] \<Rightarrow> ([], False)
      | n # os' \<Rightarrow>
          if n \<noteq> 4 then (take (nat n) len32, False)
          else let (w, ok) = send_loop os' d 0 in (len32 @ w, ok))"

section \<open>Receiving\<close>

text \<open>
  The loop \<^verbatim>\<open>while (got < len)\<close> over the bytes the peer sent: \<open>None\<close> is the early
  \<^verbatim>\<open>return {}\<close>. The second component is what stays unread.
\<close>

fun recv_loop :: "int list \<Rightarrow> nat \<Rightarrow> bytes \<Rightarrow> bytes \<Rightarrow> bytes option \<times> bytes" where
  "recv_loop os len got stream =
     (if length got < len then
        (case os of
           [] \<Rightarrow> (None, stream)
         | n # os' \<Rightarrow>
             let m = min (nat n) (min (len - length got) (length stream)) in
             if m = 0 then (None, stream)
             else recv_loop os' len (got @ take m stream) (drop m stream))
      else (Some got, stream))"

declare recv_loop.simps [simp del]

text \<open>\<open>recvData\<close> after its guard; a failed read is the empty vector, as in the code.\<close>

definition recv_frame :: "int list \<Rightarrow> bytes \<Rightarrow> bytes \<times> bytes" where
  "recv_frame os stream =
     (case os of
        [] \<Rightarrow> ([], stream)
      | n # os' \<Rightarrow>
          if n \<noteq> 4 \<or> length stream < 4 then ([], drop (nat n) stream)
          else let len = unat (ntohl_bytes (take 4 stream)) in
               case recv_loop os' len [] (drop 4 stream) of
                 (None, r) \<Rightarrow> ([], r)
               | (Some d, r) \<Rightarrow> (d, r))"

section \<open>One whole frame\<close>

definition frame :: "bytes \<Rightarrow> bytes" where
  "frame d = htonl_bytes (word_of_nat (length d)) @ d"

text \<open>The frame at the front of a stream, once all of it has arrived.\<close>

definition take_frame :: "bytes \<Rightarrow> (bytes \<times> bytes) option" where
  "take_frame s =
     (if length s < 4 then None
      else let len = unat (ntohl_bytes (take 4 s)) in
           if length s - 4 < len then None
           else Some (take len (drop 4 s), drop len (drop 4 s)))"

lemma length_htonl [simp]: "length (htonl_bytes w) = 4"
  by (simp add: htonl_bytes_def)

lemma length_frame [simp]: "length (frame d) = 4 + length d"
  by (simp add: frame_def)

lemma ntohl_htonl [simp]: "ntohl_bytes (htonl_bytes w @ t) = w"
proof (rule bit_word_eqI)
  fix n assume "n < LENGTH(32)"
  then consider "n < 8" | "8 \<le> n" "n < 16" | "16 \<le> n" "n < 24" | "24 \<le> n" "n < 32" by force
  then show "bit (ntohl_bytes (htonl_bytes w @ t)) n = bit w n"
    by cases (auto simp: ntohl_bytes_def htonl_bytes_def bit_simps)
qed

lemma ntohl_htonl_Nil [simp]: "ntohl_bytes (htonl_bytes w) = w"
  using ntohl_htonl [of w "[]"] by simp

lemma unat_len32: "length d < 2 ^ 32 \<Longrightarrow> unat (word_of_nat (length d) :: 32 word) = length d"
  by (simp add: unat_of_nat)

lemma take_frame_frame [wire_simps]:
  "length d < 2 ^ 32 \<Longrightarrow> take_frame (frame d @ t) = Some (d, t)"
  by (simp add: take_frame_def frame_def unat_len32 Let_def)

lemma take_frame_single [wire_simps]: "length d < 2 ^ 32 \<Longrightarrow> take_frame (frame d) = Some (d, [])"
  using take_frame_frame [of d "[]"] by simp

lemma take_frame_Nil [wire_simps]: "take_frame [] = None"
  by (simp add: take_frame_def)

lemma take_frame_shorter: "take_frame s = Some (d, r) \<Longrightarrow> length r < length s"
  by (auto simp: take_frame_def Let_def split: if_splits)

section \<open>The loops\<close>

text \<open>
  A script makes progress when every call returns a positive count; the first call, for
  the length word, returns four. One byte per call is the slowest progress possible.
\<close>

definition progressing :: "nat \<Rightarrow> int list \<Rightarrow> bool" where
  "progressing n os \<longleftrightarrow> (case os of [] \<Rightarrow> False | m # os' \<Rightarrow> m = 4 \<and> list_all (\<lambda>k. 0 < k) os' \<and> n \<le> length os')"

lemma send_loop_all:
  "list_all (\<lambda>k. 0 < k) os \<Longrightarrow> length d \<le> sent + length os \<Longrightarrow> send_loop os d sent = (drop sent d, True)"
proof (induction os arbitrary: sent)
  case Nil
  then show ?case by (subst send_loop.simps) simp
next
  case (Cons n os)
  show ?case
  proof (cases "sent < length d")
    case True
    let ?m = "min (nat n) (length d - sent)"
    have "0 < ?m" using Cons.prems True by simp
    then have "send_loop os d (sent + ?m) = (drop (sent + ?m) d, True)"
      using Cons.prems by (intro Cons.IH) auto
    moreover have "take ?m (drop sent d) @ drop (sent + ?m) d = drop sent d"
      by (metis append_take_drop_id drop_drop add.commute)
    ultimately show ?thesis using True Cons.prems by (subst send_loop.simps) (simp add: Let_def)
  next
    case False
    then show ?thesis by (subst send_loop.simps) simp
  qed
qed

lemma send_loop_prefix:
  "send_loop os d sent = (w, ok) \<Longrightarrow> \<exists>t. drop sent d = w @ t \<and> (ok \<longrightarrow> t = [])"
proof (induction os arbitrary: sent w)
  case Nil
  then show ?case by (subst (asm) send_loop.simps) (auto split: if_splits)
next
  case (Cons n os)
  show ?case
  proof (cases "sent < length d \<and> 0 < n")
    case True
    let ?m = "min (nat n) (length d - sent)"
    obtain w' where l: "send_loop os d (sent + ?m) = (w', ok)" and w: "w = take ?m (drop sent d) @ w'"
      using Cons.prems True by (subst (asm) send_loop.simps) (auto simp: Let_def split: prod.splits)
    obtain t where "drop (sent + ?m) d = w' @ t" "ok \<longrightarrow> t = []" using Cons.IH [OF l] by blast
    moreover have "drop sent d = take ?m (drop sent d) @ drop (sent + ?m) d"
      by (metis append_take_drop_id drop_drop add.commute)
    ultimately have "drop sent d = w @ t" unfolding w by simp
    then show ?thesis using \<open>ok \<longrightarrow> t = []\<close> by blast
  next
    case False
    then show ?thesis using Cons.prems by (subst (asm) send_loop.simps) (auto split: if_splits)
  qed
qed

lemma recv_loop_all:
  assumes "list_all (\<lambda>k. 0 < k) os" and "len \<le> length got + length os" and "length got \<le> len"
    and "len \<le> length got + length s"
  shows "recv_loop os len got s = (Some (got @ take (len - length got) s), drop (len - length got) s)"
  using assms
proof (induction os arbitrary: got s)
  case Nil
  then show ?case by (subst recv_loop.simps) simp
next
  case (Cons n os)
  show ?case
  proof (cases "length got < len")
    case True
    let ?m = "min (nat n) (min (len - length got) (length s))"
    have m: "?m \<noteq> 0" "?m \<le> len - length got" "?m \<le> length s" using Cons.prems True by auto
    have "recv_loop (n # os) len got s = recv_loop os len (got @ take ?m s) (drop ?m s)"
      using True by (subst recv_loop.simps) (simp only: Let_def list.case m(1) if_True if_False)
    also have "\<dots> = (Some ((got @ take ?m s) @ take (len - length (got @ take ?m s)) (drop ?m s)),
                     drop (len - length (got @ take ?m s)) (drop ?m s))"
      using Cons.prems m by (intro Cons.IH) auto
    also have "len - length (got @ take ?m s) = (len - length got) - ?m" using m by simp
    also have "drop (len - length got - ?m) (drop ?m s) = drop (len - length got) s"
      by (simp only: drop_drop le_add_diff_inverse2 [OF m(2)])
    also have "(got @ take ?m s) @ take (len - length got - ?m) (drop ?m s) = got @ take (len - length got) s"
      by (simp only: append_assoc take_add [symmetric] le_add_diff_inverse [OF m(2)])
    finally show ?thesis .
  next
    case False
    then show ?thesis using Cons.prems by (subst recv_loop.simps) simp
  qed
qed

lemma recv_loop_short:
  "len > length got + length s \<Longrightarrow> fst (recv_loop os len got s) = None"
proof (induction os arbitrary: got s)
  case Nil
  then show ?case by (subst recv_loop.simps) simp
next
  case (Cons n os)
  let ?m = "min (nat n) (min (len - length got) (length s))"
  have "fst (recv_loop os len (got @ take ?m s) (drop ?m s)) = None" using Cons by (intro Cons.IH) auto
  then show ?case using Cons.prems by (subst recv_loop.simps) (simp add: Let_def)
qed

lemma send_frame_all:
  "progressing (length d) os \<Longrightarrow> send_frame os d = (frame d, True)"
  by (cases os) (simp_all add: progressing_def send_frame_def send_loop_all frame_def)

lemma recv_frame_all:
  assumes "progressing (length d) os" and "length d < 2 ^ 32"
  shows "recv_frame os (frame d @ t) = (d, t)"
proof (cases os)
  case (Cons n os')
  have "recv_loop os' (length d) [] (d @ t) = (Some d, t)"
    using assms(1) Cons recv_loop_all [of os' "length d" "[]" "d @ t"] by (simp add: progressing_def)
  then show ?thesis
    using assms Cons by (simp add: progressing_def recv_frame_def frame_def unat_len32 Let_def)
qed (use assms in \<open>simp add: progressing_def\<close>)

section \<open>Properties\<close>



text \<open>
  C39: A connection that breaks in the middle never yields a truncated message. If the peer's
  stream ends anywhere inside a frame, \<open>recvData\<close> returns the empty vector whatever the
  calls return; and a \<open>sendData\<close> whose calls fail has put only a prefix of the frame on
  the wire, all of it when it reports success.
\<close>
theorem broken_frame_is_empty:
  assumes "length d < 2 ^ 32" and "n < length (frame d)"
  shows "fst (recv_frame recvs (take n (frame d))) = []
    \<and> (\<exists>t. frame d = fst (send_frame sends d) @ t \<and> (snd (send_frame sends d) \<longrightarrow> t = []))"
proof
  show "fst (recv_frame recvs (take n (frame d))) = []"
  proof (cases recvs)
    case (Cons m os)
    show ?thesis
    proof (cases "m = 4 \<and> 4 \<le> n")
      case True
      have "ntohl_bytes (take 4 (take n (frame d))) = word_of_nat (length d)"
        using True by (simp add: frame_def min_absorb1)
      moreover have "fst (recv_loop os (length d) [] (drop 4 (take n (frame d)))) = None"
        using True assms(2) by (intro recv_loop_short) auto
      ultimately show ?thesis
        using True assms Cons by (auto simp: recv_frame_def unat_len32 Let_def split: prod.splits option.splits)
    next
      case False
      then show ?thesis using Cons assms(2) by (auto simp: recv_frame_def)
    qed
  qed (simp add: recv_frame_def)
next
  show "\<exists>t. frame d = fst (send_frame sends d) @ t \<and> (snd (send_frame sends d) \<longrightarrow> t = [])"
  proof (cases sends)
    case (Cons m os)
    obtain w ok where l: "send_loop os d 0 = (w, ok)" by fastforce
    show ?thesis
    proof (cases "m = 4")
      case True
      then show ?thesis using Cons l send_loop_prefix [OF l] by (auto simp: send_frame_def frame_def)
    next
      case False
      have "frame d = take (nat m) (htonl_bytes (word_of_nat (length d))) @
          (drop (nat m) (htonl_bytes (word_of_nat (length d))) @ d)"
        by (simp add: frame_def)
      then show ?thesis using Cons False by (auto simp: send_frame_def Let_def)
    qed
  qed (simp add: send_frame_def)
qed

theorem broken_frame_is_empty_witness:
  "fst (recv_frame [4, 1, 1] (take 5 (frame [1, 2]))) = []"
  using broken_frame_is_empty [of "[1, 2]" 5 "[4, 1, 1]" "[]"] by simp

text \<open>
  The length field has 32 bits. A payload of 4 GiB or more is announced with its length
  reduced modulo \<open>2 ^ 32\<close>, so the receiver gets a prefix and reads the rest of the payload
  as the next frame.
\<close>
theorem oversized_frame_is_cut:
  assumes "2 ^ 32 \<le> length d"
  shows "take_frame (frame d) = Some (take (length d mod 2 ^ 32) d, drop (length d mod 2 ^ 32) d)"
proof -
  have "unat (word_of_nat (length d) :: 32 word) = length d mod 2 ^ 32" by (simp add: unat_of_nat)
  then show ?thesis by (simp add: take_frame_def frame_def Let_def not_less)
qed

theorem oversized_frame_is_cut_witness:
  "take_frame (frame (replicate (2 ^ 32) 7)) =
   Some (take (2 ^ 32 mod 2 ^ 32) (replicate (2 ^ 32) 7), drop (2 ^ 32 mod 2 ^ 32) (replicate (2 ^ 32) 7))"
  by (rule oversized_frame_is_cut [of "replicate (2 ^ 32) 7", unfolded length_replicate, OF order_refl])

end
