(* ===== verification/Tcp_Sockets.thy ===== *)
theory Tcp_Sockets
  imports Tcp_Framing Std_Map "HOL-Library.Multiset"
begin

text \<open>
  The socket objects of \<^verbatim>\<open>src/src/network/tcp_client.cpp\<close>, \<^verbatim>\<open>tcp_server.cpp\<close> and their
  headers: which file descriptors they hold and when they open and close them. What the
  operating system answers (the descriptor of \<open>socket\<close> and \<open>accept\<close>, negative on failure,
  whether \<open>inet_pton\<close>, \<open>connect\<close>, \<open>setsockopt\<close>, \<open>bind\<close> and \<open>listen\<close> succeed) is an
  argument of each operation; \<open>descriptors\<close> is the process's table of open descriptors,
  with a flag that records a \<open>close\<close> of a descriptor that was not open. The transfer of
  data is that of \<open>Tcp_Framing\<close>.

  Every method of the server that touches \<open>clients_\<close> holds \<open>clientsMutex_\<close>, so a method
  is one step; \<open>nextClientId_\<close> is taken not to run past the range of \<open>int\<close>.
\<close>

section \<open>Descriptors\<close>

record descriptors =
  open_fds :: "int list"
  stray :: bool

definition os_open :: "int \<Rightarrow> descriptors \<Rightarrow> descriptors" where
  "os_open fd os = os\<lparr>open_fds := fd # open_fds os\<rparr>"

definition os_close :: "int \<Rightarrow> descriptors \<Rightarrow> descriptors" where
  "os_close fd os =
     (if fd \<in> set (open_fds os) then os\<lparr>open_fds := remove1 fd (open_fds os)\<rparr> else os\<lparr>stray := True\<rparr>)"

lemma os_simps [simp]:
  "open_fds (os_open fd os) = fd # open_fds os" "stray (os_open fd os) = stray os"
  "mset (open_fds (os_close fd os)) = mset (open_fds os) - {#fd#}"
  "stray (os_close fd os) = (stray os \<or> fd \<notin> set (open_fds os))"
  by (auto simp: os_open_def os_close_def mset_remove1 diff_single_trivial)

lemma set_open_mset: "fd \<in> set (open_fds os) \<longleftrightarrow> fd \<in># mset (open_fds os)"
  by simp

section \<open>TCPClient\<close>

record tcp_client =
  sock :: int
  connected :: bool

definition new_tcp_client :: tcp_client where
  "new_tcp_client = \<lparr>sock = -1, connected = False\<rparr>"

definition client_close :: "tcp_client \<Rightarrow> descriptors \<Rightarrow> tcp_client \<times> descriptors" where
  "client_close c os =
     (if connected c \<and> 0 \<le> sock c then (c\<lparr>sock := -1, connected := False\<rparr>, os_close (sock c) os) else (c, os))"

definition client_connect :: "int \<Rightarrow> bool \<Rightarrow> bool \<Rightarrow> tcp_client \<Rightarrow> descriptors \<Rightarrow> bool \<times> tcp_client \<times> descriptors" where
  "client_connect fd pton_ok connect_ok c os =
     (let (c, os) = (if connected c then client_close c os else (c, os));
          c = c\<lparr>sock := fd\<rparr>
      in if fd < 0 then (False, c, os)
         else
           let os = os_open fd os in
           if \<not> pton_ok then (False, c\<lparr>sock := -1\<rparr>, os_close fd os)
           else if \<not> connect_ok then (False, c\<lparr>sock := -1\<rparr>, os_close fd os)
           else (True, c\<lparr>connected := True\<rparr>, os))"

definition client_sendData :: "int list \<Rightarrow> bytes \<Rightarrow> tcp_client \<Rightarrow> bytes \<times> bool" where
  "client_sendData sends d c = (if \<not> connected c \<or> sock c < 0 then ([], False) else send_frame sends d)"

definition client_recvData :: "int list \<Rightarrow> bytes \<Rightarrow> tcp_client \<Rightarrow> bytes \<times> bytes" where
  "client_recvData recvs stream c = (if \<not> connected c \<or> sock c < 0 then ([], stream) else recv_frame recvs stream)"

text \<open>The destructor.\<close>

definition client_destroy :: "tcp_client \<Rightarrow> descriptors \<Rightarrow> descriptors" where
  "client_destroy c os = snd (client_close c os)"

text \<open>The life of one object: calls of \<open>connect\<close> and \<open>close\<close> in any order.\<close>

inductive client_step :: "tcp_client \<times> descriptors \<Rightarrow> tcp_client \<times> descriptors \<Rightarrow> bool" where
  connect: "fd < 0 \<or> fd \<notin> set (open_fds os) \<Longrightarrow> client_connect fd pton_ok connect_ok c os = (ok, c', os') \<Longrightarrow>
    client_step (c, os) (c', os')"
| close: "client_close c os = (c', os') \<Longrightarrow> client_step (c, os) (c', os')"

definition client_inv :: "int list \<Rightarrow> tcp_client \<times> descriptors \<Rightarrow> bool" where
  "client_inv base s \<longleftrightarrow> (case s of (c, os) \<Rightarrow>
     \<not> stray os \<and> (connected c \<longrightarrow> 0 \<le> sock c) \<and>
     mset (open_fds os) = mset base + (if connected c then {#sock c#} else {#}))"

lemma client_close_inv: "client_inv base (c, os) \<Longrightarrow> client_inv base (client_close c os)"
  by (auto simp: client_inv_def client_close_def set_open_mset)

lemma client_connect_inv:
  assumes "client_inv base (c, os)" and "client_connect fd pton_ok connect_ok c os = (ok, c', os')"
  shows "client_inv base (c', os')"
proof -
  obtain c1 os1 where 1: "(if connected c then client_close c os else (c, os)) = (c1, os1)" by fastforce
  have "client_inv base (c1, os1)" using 1 assms(1) client_close_inv by (metis (full_types))
  moreover have "\<not> connected c1" using 1 assms(1) by (auto simp: client_inv_def client_close_def split: if_splits)
  ultimately have "\<not> stray os1" "mset (open_fds os1) = mset base" "\<not> connected c1" by (simp_all add: client_inv_def)
  then show ?thesis using assms(2) unfolding client_connect_def 1
    by (auto simp: client_inv_def Let_def split: if_splits)
qed

lemma client_step_inv:
  assumes "client_step x y" and "client_inv base x" shows "client_inv base y"
  using assms(1)
proof (cases rule: client_step.cases)
  case (connect fd os a b c ok c' os')
  then show ?thesis using assms(2) client_connect_inv by simp
next
  case (close c os c' os')
  then show ?thesis using assms(2) client_close_inv [of base c os] by simp
qed

lemma reachable_client_inv:
  assumes "client_step\<^sup>*\<^sup>* (new_tcp_client, \<lparr>open_fds = base, stray = False\<rparr>) x" shows "client_inv base x"
  using assms
proof (induction rule: rtranclp_induct)
  case base
  show ?case by (simp add: client_inv_def new_tcp_client_def)
qed (rule client_step_inv)

section \<open>TCPServer\<close>

record socket_context =
  ctx_socket :: int
  ctx_valid :: bool

record tcp_server =
  serverSock :: int
  srv_running :: bool
  clients :: "(int, socket_context) std_map"
  nextClientId :: int

definition new_tcp_server :: tcp_server where
  "new_tcp_server = \<lparr>serverSock = -1, srv_running = False, clients = [], nextClientId = 1\<rparr>"

definition server_start :: "int \<Rightarrow> bool \<Rightarrow> bool \<Rightarrow> bool \<Rightarrow> tcp_server \<Rightarrow> descriptors \<Rightarrow> bool \<times> tcp_server \<times> descriptors" where
  "server_start fd opt_ok bind_ok listen_ok s os =
     (let s = s\<lparr>serverSock := fd\<rparr> in
      if fd < 0 then (False, s, os)
      else
        let os = os_open fd os in
        if \<not> opt_ok then (False, s\<lparr>serverSock := -1\<rparr>, os_close fd os)
        else if \<not> bind_ok then (False, s\<lparr>serverSock := -1\<rparr>, os_close fd os)
        else if \<not> listen_ok then (False, s\<lparr>serverSock := -1\<rparr>, os_close fd os)
        else (True, s\<lparr>srv_running := True\<rparr>, os))"

definition acceptClient :: "int \<Rightarrow> tcp_server \<Rightarrow> descriptors \<Rightarrow> int \<times> tcp_server \<times> descriptors" where
  "acceptClient fd s os =
     (if \<not> srv_running s \<or> serverSock s < 0 then (-1, s, os)
      else if fd < 0 then (-1, s, os)
      else
        let i = nextClientId s in
        (i, s\<lparr>nextClientId := i + 1, clients := map_put i \<lparr>ctx_socket = fd, ctx_valid = True\<rparr> (clients s)\<rparr>, os_open fd os))"

definition server_sendData :: "int list \<Rightarrow> int \<Rightarrow> bytes \<Rightarrow> tcp_server \<Rightarrow> bytes \<times> bool" where
  "server_sendData sends clientId d s =
     (case map_find (clients s) clientId of
        None \<Rightarrow> ([], False)
      | Some ctx \<Rightarrow> if \<not> ctx_valid ctx then ([], False) else send_frame sends d)"

definition server_recvData :: "int list \<Rightarrow> int \<Rightarrow> bytes \<Rightarrow> tcp_server \<Rightarrow> bytes \<times> bytes" where
  "server_recvData recvs clientId stream s =
     (case map_find (clients s) clientId of
        None \<Rightarrow> ([], stream)
      | Some ctx \<Rightarrow> if \<not> ctx_valid ctx then ([], stream) else recv_frame recvs stream)"

text \<open>The overload for a vector, and messages as vectors of their characters.\<close>

definition server_sendVector :: "int list \<Rightarrow> int \<Rightarrow> bytes \<Rightarrow> tcp_server \<Rightarrow> bytes \<times> bool" where
  "server_sendVector sends clientId d s = server_sendData sends clientId d s"

definition server_sendMessage :: "int list \<Rightarrow> int \<Rightarrow> string \<Rightarrow> tcp_server \<Rightarrow> bytes \<times> bool" where
  "server_sendMessage sends clientId message s = server_sendData sends clientId (bytes_of_string message) s"

definition server_recvMessage :: "int list \<Rightarrow> int \<Rightarrow> bytes \<Rightarrow> tcp_server \<Rightarrow> string \<times> bytes" where
  "server_recvMessage recvs clientId stream s =
     (let (d, stream) = server_recvData recvs clientId stream s
      in (if d = [] then [] else string_of_bytes d, stream))"

definition closeClient :: "int \<Rightarrow> tcp_server \<Rightarrow> descriptors \<Rightarrow> tcp_server \<times> descriptors" where
  "closeClient clientId s os =
     (case map_find (clients s) clientId of
        None \<Rightarrow> (s, os)
      | Some ctx \<Rightarrow>
          (s\<lparr>clients := map_erase clientId (clients s)\<rparr>, if 0 \<le> ctx_socket ctx then os_close (ctx_socket ctx) os else os))"

fun close_all :: "(int, socket_context) std_map \<Rightarrow> descriptors \<Rightarrow> descriptors" where
  "close_all [] os = os"
| "close_all ((i, ctx) # m) os = close_all m (if 0 \<le> ctx_socket ctx then os_close (ctx_socket ctx) os else os)"

definition server_stop :: "tcp_server \<Rightarrow> descriptors \<Rightarrow> tcp_server \<times> descriptors" where
  "server_stop s os =
     (if srv_running s
      then
        let s' = s\<lparr>srv_running := False, serverSock := (if 0 \<le> serverSock s then -1 else serverSock s)\<rparr>;
            os = (if 0 \<le> serverSock s then os_close (serverSock s) os else os)
        in (s'\<lparr>clients := []\<rparr>, close_all (clients s') os)
      else (s, os))"

text \<open>The destructor.\<close>

definition server_destroy :: "tcp_server \<Rightarrow> descriptors \<Rightarrow> descriptors" where
  "server_destroy s os = snd (server_stop s os)"

text \<open>
  The life of a server object: it is started when it is not running, and then its methods
  are called in any order, by any thread. Descriptors come from the system, so a new one is
  not open already.
\<close>

inductive server_step :: "tcp_server \<times> descriptors \<Rightarrow> tcp_server \<times> descriptors \<Rightarrow> bool" where
  start: "\<not> srv_running s \<Longrightarrow> fd < 0 \<or> fd \<notin> set (open_fds os) \<Longrightarrow>
    server_start fd opt_ok bind_ok listen_ok s os = (ok, s', os') \<Longrightarrow> server_step (s, os) (s', os')"
| accept: "fd < 0 \<or> fd \<notin> set (open_fds os) \<Longrightarrow> acceptClient fd s os = (i, s', os') \<Longrightarrow> server_step (s, os) (s', os')"
| closing: "closeClient i s os = (s', os') \<Longrightarrow> server_step (s, os) (s', os')"
| stop: "server_stop s os = (s', os') \<Longrightarrow> server_step (s, os) (s', os')"

section \<open>Ownership\<close>

definition owned :: "tcp_server \<Rightarrow> int list" where
  "owned s = (if srv_running s then [serverSock s] else []) @ map (\<lambda>e. ctx_socket (snd e)) (clients s)"

definition server_inv :: "int list \<Rightarrow> tcp_server \<times> descriptors \<Rightarrow> bool" where
  "server_inv base x \<longleftrightarrow> (case x of (s, os) \<Rightarrow>
     \<not> stray os \<and> mset (open_fds os) = mset base + mset (owned s) \<and> map_inv (clients s) \<and>
     (srv_running s \<longrightarrow> 0 \<le> serverSock s) \<and> (\<not> srv_running s \<longrightarrow> clients s = []) \<and> 1 \<le> nextClientId s \<and>
     (\<forall>e \<in> set (clients s). 1 \<le> fst e \<and> fst e < nextClientId s \<and> ctx_valid (snd e) \<and> 0 \<le> ctx_socket (snd e)))"

lemma map_put_last: "\<forall>e \<in> set m. fst e < k \<Longrightarrow> map_put k v m = m @ [(k, v)]"
  by (induction k v m rule: map_put.induct) auto

lemma mset_map_erase:
  "map_find m k = Some v \<Longrightarrow> mset (map f (map_erase k m)) = mset (map f m) - {#f (k, v)#}"
proof (induction k m rule: map_erase.induct)
  case (2 k a b m)
  show ?case
  proof (cases "a = k")
    case False
    then have "map_find m k = Some v" using 2(2) by (simp add: map_find_def)
    moreover from this have "(k, v) \<in> set m" by (auto simp: map_find_def dest: map_of_SomeD)
    then have "f (k, v) \<in># mset (map f m)" by force
    ultimately show ?thesis using 2(1) False by simp
  qed (use 2(2) in \<open>simp add: map_find_def\<close>)
qed (simp add: map_find_def)

lemma close_all_eq:
  assumes "\<forall>e \<in> set m. 0 \<le> ctx_socket (snd e)" and "mset (map (\<lambda>e. ctx_socket (snd e)) m) \<subseteq># mset (open_fds os)"
  shows "mset (open_fds (close_all m os)) = mset (open_fds os) - mset (map (\<lambda>e. ctx_socket (snd e)) m)
    \<and> stray (close_all m os) = stray os"
  using assms
proof (induction m os rule: close_all.induct)
  case (2 i ctx m os)
  let ?os = "os_close (ctx_socket ctx) os"
  have "ctx_socket ctx \<in># mset (open_fds os)" using 2(3) by (simp add: insert_subset_eq_iff del: set_mset_mset)
  then have "ctx_socket ctx \<in> set (open_fds os)" by simp
  moreover have "mset (map (\<lambda>e. ctx_socket (snd e)) m) \<subseteq># mset (open_fds ?os)"
    using 2(3) by (simp add: insert_subset_eq_iff)
  ultimately show ?case using 2(1,2) by simp
qed simp

lemma server_start_inv:
  "server_inv base (s, os) \<Longrightarrow> \<not> srv_running s \<Longrightarrow> server_start fd a b c s os = (ok, s', os') \<Longrightarrow> server_inv base (s', os')"
  by (auto simp: server_start_def server_inv_def owned_def Let_def split: if_splits)

lemma acceptClient_inv:
  assumes "server_inv base (s, os)" and "acceptClient fd s os = (i, s', os')"
  shows "server_inv base (s', os')"
proof (cases "srv_running s \<and> 0 \<le> serverSock s \<and> 0 \<le> fd")
  case False
  then have "s' = s" "os' = os" using assms(2) by (auto simp: acceptClient_def split: if_splits)
  then show ?thesis using assms(1) by simp
next
  case True
  have inv: "map_inv (clients s)" and small: "\<forall>e \<in> set (clients s). fst e < nextClientId s"
    using assms(1) by (auto simp: server_inv_def)
  have put: "map_put (nextClientId s) ctx (clients s) = clients s @ [(nextClientId s, ctx)]" for ctx
    using small by (rule map_put_last)
  have "map_inv (clients s @ [(nextClientId s, ctx)])" for ctx
    using sm.inv_put [OF inv, of "nextClientId s" ctx] by (simp add: put)
  moreover have "s' = s\<lparr>nextClientId := nextClientId s + 1,
      clients := clients s @ [(nextClientId s, \<lparr>ctx_socket = fd, ctx_valid = True\<rparr>)]\<rparr>" "os' = os_open fd os"
    using assms(2) True by (auto simp: acceptClient_def put Let_def)
  ultimately show ?thesis using assms(1) True by (auto simp: server_inv_def owned_def)
qed

lemma closeClient_inv:
  assumes "server_inv base (s, os)" and "closeClient i s os = (s', os')"
  shows "server_inv base (s', os')"
proof (cases "map_find (clients s) i")
  case None
  then show ?thesis using assms by (simp add: closeClient_def)
next
  case (Some ctx)
  let ?g = "\<lambda>e. ctx_socket (snd e)"
  have inv: "map_inv (clients s)" using assms(1) by (simp add: server_inv_def)
  have mem: "(i, ctx) \<in> set (clients s)" using Some by (auto simp: map_find_def dest: map_of_SomeD)
  have sock: "0 \<le> ctx_socket ctx" and run: "srv_running s" using assms(1) mem by (auto simp: server_inv_def)
  have er: "mset (map ?g (map_erase i (clients s))) = mset (map ?g (clients s)) - {#ctx_socket ctx#}"
    using mset_map_erase [OF Some, of ?g] by simp
  have in_g: "ctx_socket ctx \<in># mset (map ?g (clients s))" using mem by force
  then have "ctx_socket ctx \<in># mset (open_fds os)" using assms(1) by (simp add: server_inv_def owned_def)
  moreover have "mset base + mset (owned s) - {#ctx_socket ctx#} = mset base + mset (owned (s\<lparr>clients := map_erase i (clients s)\<rparr>))"
    using in_g by (simp add: owned_def er del: mset_map)
  moreover have "set (map_erase i (clients s)) \<subseteq> set (clients s)" using sm.entries_erase [OF inv, of i] by auto
  moreover have "s' = s\<lparr>clients := map_erase i (clients s)\<rparr>" "os' = os_close (ctx_socket ctx) os"
    using assms(2) Some sock by (simp_all add: closeClient_def)
  ultimately show ?thesis
    using assms(1) run sm.inv_erase [OF inv, of i]
    by (auto simp: server_inv_def set_open_mset simp del: set_mset_mset)
qed

lemma server_stop_eq:
  assumes "server_inv base (s, os)" and "server_stop s os = (s', os')"
  shows "\<not> srv_running s' \<and> clients s' = [] \<and> nextClientId s' = nextClientId s \<and> \<not> stray os' \<and> mset (open_fds os') = mset base"
proof (cases "srv_running s")
  case False
  then show ?thesis using assms by (auto simp: server_stop_def server_inv_def owned_def)
next
  case True
  let ?os = "os_close (serverSock s) os" and ?socks = "mset (map (\<lambda>e. ctx_socket (snd e)) (clients s))"
  have m: "mset (open_fds os) = mset base + {#serverSock s#} + ?socks" "0 \<le> serverSock s" "\<not> stray os"
    "\<forall>e \<in> set (clients s). 0 \<le> ctx_socket (snd e)"
    using assms(1) True by (auto simp: server_inv_def owned_def)
  then have "serverSock s \<in> set (open_fds os)" unfolding set_open_mset by simp
  moreover have o: "mset (open_fds ?os) = mset base + ?socks" using m(1) by simp
  then have "mset (open_fds (close_all (clients s) ?os)) = mset base \<and> stray (close_all (clients s) ?os) = stray ?os"
    using close_all_eq [OF m(4), of ?os] by simp
  ultimately show ?thesis using assms(2) True m(2,3) by (auto simp: server_stop_def Let_def)
qed

lemma server_stop_inv:
  assumes "server_inv base (s, os)" and "server_stop s os = (s', os')"
  shows "server_inv base (s', os')"
  using server_stop_eq [OF assms] assms(1) by (auto simp: server_inv_def owned_def map_inv_def)

lemma server_step_inv:
  assumes "server_step x y" and "server_inv base x" shows "server_inv base y"
  using assms
  by (cases rule: server_step.cases)
    (auto intro: server_start_inv acceptClient_inv closeClient_inv server_stop_inv)

lemma reachable_server_inv:
  assumes "server_step\<^sup>*\<^sup>* (new_tcp_server, \<lparr>open_fds = base, stray = False\<rparr>) x" shows "server_inv base x"
  using assms
proof (induction rule: rtranclp_induct)
  case base
  show ?case by (simp add: server_inv_def new_tcp_server_def owned_def map_inv_def)
qed (rule server_step_inv)

section \<open>Identifiers\<close>

definition retired :: "int \<Rightarrow> tcp_server \<Rightarrow> bool" where
  "retired i s \<longleftrightarrow> i < nextClientId s \<and> map_find (clients s) i = None"

lemma server_step_retired:
  assumes "server_step x y" and "server_inv base x" and "retired i (fst x)"
  shows "retired i (fst y)"
  using assms(1)
proof (cases rule: server_step.cases)
  case (start s fd os a b c ok s' os')
  then show ?thesis using assms(3) by (auto simp: retired_def server_start_def Let_def split: if_splits)
next
  case (accept fd os s j s' os')
  have "map_inv (clients s)" using assms(2) accept(1) by (simp add: server_inv_def)
  then show ?thesis using accept assms(3)
    by (auto simp: retired_def acceptClient_def Let_def sm.look_put split: if_splits)
next
  case (closing j s os s' os')
  have "map_inv (clients s)" using assms(2) closing(1) by (simp add: server_inv_def)
  then show ?thesis using closing assms(3)
    by (auto simp: retired_def closeClient_def sm.look_erase split: option.splits)
next
  case (stop s os s' os')
  then show ?thesis using assms(3)
    by (auto simp: retired_def server_stop_def Let_def map_find_def split: if_splits)
qed

section \<open>Messages\<close>

lemma server_message_round_trip:
  assumes "map_find (clients s) i = Some ctx" and "ctx_valid ctx" and "length m < 2 ^ 32"
    and "progressing (length m) sends" and "progressing (length m) recvs"
  shows "\<exists>wire. server_sendMessage sends i m s = (wire, True) \<and> server_recvMessage recvs i (wire @ later) s = (m, later)"
  using send_frame_all [of "bytes_of_string m" sends] recv_frame_all [of "bytes_of_string m" recvs later] assms
  by (auto simp: server_sendMessage_def server_recvMessage_def server_sendData_def server_recvData_def)

lemma closed_id_has_no_messages:
  assumes "map_find (clients s) i = None"
  shows "server_sendMessage sends i m s = ([], False) \<and> server_recvMessage recvs i stream s = ([], stream)"
  using assms by (simp add: server_sendMessage_def server_recvMessage_def server_sendData_def server_recvData_def)

lemma client_destroy_inv:
  assumes "client_inv base (c, os)"
  shows "\<not> stray (client_destroy c os) \<and> mset (open_fds (client_destroy c os)) = mset base"
  using assms by (auto simp: client_destroy_def client_close_def client_inv_def set_open_mset)

lemma server_destroy_inv:
  assumes "server_inv base (s, os)"
  shows "\<not> stray (server_destroy s os) \<and> mset (open_fds (server_destroy s os)) = mset base"
  using server_stop_eq [OF assms, of "fst (server_stop s os)" "snd (server_stop s os)"] by (simp add: server_destroy_def)

section \<open>Properties\<close>


definition served :: "tcp_server \<times> descriptors" where
  "served = (\<lparr>serverSock = 3, srv_running = True, clients = [(1, \<lparr>ctx_socket = 4, ctx_valid = True\<rparr>)], nextClientId = 2\<rparr>,
     \<lparr>open_fds = [4, 3, 0], stray = False\<rparr>)"

lemma served_reachable: "server_step\<^sup>*\<^sup>* (new_tcp_server, \<lparr>open_fds = [0], stray = False\<rparr>) served"
proof -
  let ?s = "\<lparr>serverSock = 3, srv_running = True, clients = [], nextClientId = 1\<rparr>" and ?o = "\<lparr>open_fds = [3, 0], stray = False\<rparr>"
  have "server_step (new_tcp_server, \<lparr>open_fds = [0], stray = False\<rparr>) (?s, ?o)"
    by (rule server_step.start [where fd = 3 and opt_ok = True and bind_ok = True and listen_ok = True])
      (simp_all add: new_tcp_server_def server_start_def os_open_def)
  moreover have "server_step (?s, ?o) served" unfolding served_def
    by (rule server_step.accept [where fd = 4]) (simp_all add: acceptClient_def os_open_def Let_def)
  ultimately show ?thesis by (rule converse_rtranclp_into_rtranclp [OF _ r_into_rtranclp])
qed


text \<open>
  A closed connection is never confused with a later one. Once the identifier of a
  client is no longer in the table, nothing that happens to the server afterwards brings it
  back: a send on it fails without writing a byte, a receive returns the empty vector.
\<close>
theorem closed_id_stays_closed:
  assumes "server_step\<^sup>*\<^sup>* (new_tcp_server, \<lparr>open_fds = base, stray = False\<rparr>) (s, os)"
    and "map_find (clients s) i \<noteq> None" and "closeClient i s os = (s1, os1)" and "server_step\<^sup>*\<^sup>* (s1, os1) (s2, os2)"
  shows "server_sendData sends i d s2 = ([], False) \<and> server_recvData recvs i stream s2 = ([], stream)"
proof -
  have inv: "server_inv base (s, os)" using assms(1) by (rule reachable_server_inv)
  obtain ctx where ctx: "map_find (clients s) i = Some ctx" using assms(2) by blast
  have "map_inv (clients s)" "i < nextClientId s"
    using inv ctx by (auto simp: server_inv_def map_find_def dest!: map_of_SomeD)
  then have "retired i s1" using assms(3) ctx by (auto simp: retired_def closeClient_def sm.look_erase)
  from assms(4) have "server_inv base (s2, os2) \<and> retired i (fst (s2, os2))"
  proof (induction rule: rtranclp_induct)
    case base
    then show ?case using \<open>retired i s1\<close> closeClient_inv [OF inv assms(3)] by simp
  qed (blast intro: server_step_inv server_step_retired)
  then show ?thesis by (simp add: retired_def server_sendData_def server_recvData_def)
qed

theorem closed_id_stays_closed_witness:
  "server_sendData [4, 1] 1 [7] (fst (closeClient 1 (fst served) (snd served))) = ([], False)"
proof -
  obtain s1 os1 where c: "closeClient 1 (fst served) (snd served) = (s1, os1)" by fastforce
  have "map_find (clients (fst served)) 1 \<noteq> None" by (simp add: served_def map_find_def)
  then show ?thesis
    using closed_id_stays_closed [of "[0]" "fst served" "snd served" 1 s1 os1 s1 os1 "[4, 1]" "[7]"] served_reachable c by simp
qed

text \<open>
  A client object never leaks a socket. After any calls of \<open>connect\<close>, successful or
  not, and \<open>close\<close>, it holds one descriptor when connected and none otherwise, it is
  refused data when it is not connected, and the \<open>close\<close> of the destructor leaves the
  descriptors as they were before the object was made.
\<close>
theorem client_never_leaks:
  assumes "client_step\<^sup>*\<^sup>* (new_tcp_client, \<lparr>open_fds = base, stray = False\<rparr>) (c, os)"
  shows "\<not> stray os \<and> mset (open_fds os) = mset base + (if connected c then {#sock c#} else {#}) \<and>
    (\<not> connected c \<longrightarrow> client_sendData sends d c = ([], False)) \<and>
    (\<exists>c' os'. client_close c os = (c', os') \<and> \<not> connected c' \<and> \<not> stray os' \<and> mset (open_fds os') = mset base)"
proof -
  have inv: "client_inv base (c, os)" using assms by (rule reachable_client_inv)
  obtain c' os' where c': "client_close c os = (c', os')" by fastforce
  then have "client_inv base (c', os')" using client_close_inv [OF inv] by simp
  moreover have "\<not> connected c'" using c' inv by (auto simp: client_inv_def client_close_def split: if_splits)
  ultimately show ?thesis using inv c' by (auto simp: client_inv_def client_sendData_def)
qed

theorem client_never_leaks_witness:
  "\<not> stray \<lparr>open_fds = [5], stray = False\<rparr> \<and>
   (\<exists>c' os'. client_close \<lparr>sock = 5, connected = True\<rparr> \<lparr>open_fds = [5], stray = False\<rparr> = (c', os') \<and> mset (open_fds os') = mset [])"
proof -
  have "client_step (new_tcp_client, \<lparr>open_fds = [], stray = False\<rparr>) (\<lparr>sock = 5, connected = True\<rparr>, \<lparr>open_fds = [5], stray = False\<rparr>)"
    by (rule client_step.connect [where fd = 5 and pton_ok = True and connect_ok = True])
      (simp_all add: client_connect_def new_tcp_client_def os_open_def)
  then have "client_step\<^sup>*\<^sup>* (new_tcp_client, \<lparr>open_fds = [], stray = False\<rparr>)
      (\<lparr>sock = 5, connected = True\<rparr>, \<lparr>open_fds = [5], stray = False\<rparr>)" by (rule r_into_rtranclp)
  from client_never_leaks [OF this] show ?thesis by auto
qed

end
