(* ===== verification/Server_Sockets.thy ===== *)
theory Server_Sockets
  imports Tcp_Sockets
begin

text \<open>
  The sockets of a running node, thread by thread. \<open>Tcp_Sockets\<close> takes a method of the
  server object as one step; here \<open>acceptClient\<close>, \<open>recvData\<close> and \<open>stop\<close>
  (\<^verbatim>\<open>src/src/network/tcp_server.cpp\<close>) are cut at every access to the members and every call
  of the system that is not under \<open>clientsMutex_\<close>, and run by the threads of \<open>start\<close> and
  \<open>handleClient\<close> (\<^verbatim>\<open>src/src/storage/storage_node.cpp\<close>; the metadata node uses its server in the same
  way, without a destructor of its own): the
  accepting thread, which destroys the node in the end, and one thread per connection. The
  table of descriptors belongs to the process, so other parts of it open and close
  descriptors meanwhile; \<open>foreign\<close> lists those they own.

  The condition variable of \<open>start\<close> is the subject of \<open>Server_Lifecycle\<close>; here the
  accepting thread goes on when all handlers have left.
\<close>

section \<open>Program points\<close>

text \<open>In \<open>stop\<close>: the test of \<open>running_\<close>, its reset, the test of \<open>serverSock_\<close>, its close, its reset, the clients.\<close>

datatype stop_pc = S_Test | S_Flag | S_Sock | S_Shut | S_Reset | S_Clients

text \<open>
  In a handler, with its client identifier: the loop test, the look-up in \<open>recvData\<close>, the
  receive on the descriptor found, a received \<open>DIE\<close>, its \<open>stop\<close>, the final \<open>closeClient\<close>.
\<close>

datatype conn_pc = C_Loop int | C_Recv int | C_Receiving int int | C_Die int | C_Stop stop_pc int
  | C_Close int | C_Gone

text \<open>
  In the accepting thread: the loop test, the test and the call of \<open>accept\<close>, the insertion of
  the descriptor, the start of the handler, the wait for the handlers, then the destructors
  of the node and of its server, which call \<open>stop\<close> once each.
\<close>

datatype accept_pc = A_Loop | A_Check | A_Accept | A_Insert int | A_Spawn int | A_Wait | A_Destroy
  | A_Stop nat stop_pc | A_Done

text \<open>\<open>dies\<close> counts the \<open>DIE\<close> commands carried out.\<close>

record server_process =
  node_up :: bool
  srv :: tcp_server
  fds :: descriptors
  foreign :: "int list"
  acceptor :: accept_pc
  conns :: "conn_pc list"
  dies :: nat

text \<open>
  The beginning of \<open>start\<close>, with what the system answers to \<open>server_.start\<close>. When that fails
  \<open>start\<close> returns and the node is destroyed.
\<close>

definition storage_begin :: "int \<Rightarrow> bool \<Rightarrow> bool \<Rightarrow> bool \<Rightarrow> int list \<Rightarrow> server_process" where
  "storage_begin fd opt_ok bind_ok listen_ok base =
     (let (ok, s, os) = server_start fd opt_ok bind_ok listen_ok new_tcp_server \<lparr>open_fds = base, stray = False\<rparr>
      in \<lparr>node_up = ok, srv = s, fds = os, foreign = base, acceptor = (if ok then A_Loop else A_Destroy), conns = [], dies = 0\<rparr>)"

text \<open>After a successful \<open>server_.start\<close> with listening socket \<open>fd\<close>.\<close>

definition process_start :: "int \<Rightarrow> int list \<Rightarrow> server_process" where
  "process_start fd base =
     \<lparr>node_up = True, srv = new_tcp_server\<lparr>serverSock := fd, srv_running := True\<rparr>,
      fds = \<lparr>open_fds = fd # base, stray = False\<rparr>, foreign = base, acceptor = A_Loop, conns = [], dies = 0\<rparr>"

lemma storage_begin_up: "0 \<le> fd \<Longrightarrow> storage_begin fd True True True base = process_start fd base"
  by (simp add: storage_begin_def process_start_def server_start_def os_open_def new_tcp_server_def Let_def)

section \<open>Actions\<close>

text \<open>One action of \<open>stop\<close>; \<open>None\<close> when it returns.\<close>

fun stop_act :: "stop_pc \<Rightarrow> tcp_server \<times> descriptors \<Rightarrow> stop_pc option \<times> tcp_server \<times> descriptors" where
  "stop_act S_Test (s, os) = (if srv_running s then (Some S_Flag, s, os) else (None, s, os))"
| "stop_act S_Flag (s, os) = (Some S_Sock, s\<lparr>srv_running := False\<rparr>, os)"
| "stop_act S_Sock (s, os) = (if 0 \<le> serverSock s then (Some S_Shut, s, os) else (Some S_Clients, s, os))"
| "stop_act S_Shut (s, os) = (Some S_Reset, s, os_close (serverSock s) os)"
| "stop_act S_Reset (s, os) = (Some S_Clients, s\<lparr>serverSock := -1\<rparr>, os)"
| "stop_act S_Clients (s, os) = (None, s\<lparr>clients := []\<rparr>, close_all (clients s) os)"

text \<open>
  One action of the accepting thread. \<open>fd\<close> is the answer of \<open>accept\<close>, where it is called: a
  new descriptor, or negative. Under the lock \<open>nextClientId_\<close> is taken and the entry made.
\<close>

fun accept_act :: "int \<Rightarrow> server_process \<Rightarrow> server_process option" where
  "accept_act fd p =
     (case acceptor p of
        A_Loop \<Rightarrow> Some (p\<lparr>acceptor := if node_up p then A_Check else A_Wait\<rparr>)
      | A_Check \<Rightarrow> Some (p\<lparr>acceptor := if \<not> srv_running (srv p) \<or> serverSock (srv p) < 0 then A_Loop else A_Accept\<rparr>)
      | A_Accept \<Rightarrow>
          if fd < 0 then Some (p\<lparr>acceptor := A_Loop\<rparr>)
          else if fd \<in> set (open_fds (fds p)) then None
          else Some (p\<lparr>acceptor := A_Insert fd, fds := os_open fd (fds p)\<rparr>)
      | A_Insert d \<Rightarrow>
          let i = nextClientId (srv p) in
          Some (p\<lparr>acceptor := A_Spawn i,
            srv := (srv p)\<lparr>nextClientId := i + 1,
              clients := map_put i \<lparr>ctx_socket = d, ctx_valid = True\<rparr> (clients (srv p))\<rparr>\<rparr>)
      | A_Spawn i \<Rightarrow> Some (p\<lparr>acceptor := A_Loop, conns := conns p @ [C_Loop i]\<rparr>)
      | A_Wait \<Rightarrow> if list_all (\<lambda>c. c = C_Gone) (conns p) then Some (p\<lparr>acceptor := A_Destroy\<rparr>) else None
      | A_Destroy \<Rightarrow> Some (p\<lparr>acceptor := A_Stop 1 S_Test, node_up := False\<rparr>)
      | A_Stop k pc \<Rightarrow>
          let (next, s, os) = stop_act pc (srv p, fds p) in
          Some (p\<lparr>srv := s, fds := os,
            acceptor := case next of Some pc' \<Rightarrow> A_Stop k pc' | None \<Rightarrow> if k = 0 then A_Done else A_Stop (k - 1) S_Test\<rparr>)
      | A_Done \<Rightarrow> None)"

text \<open>
  What a handler's receive brings: nothing (end or failure), a command after which it tests
  \<open>running_\<close> again, a \<open>STORE\<close> whose data it receives next, or \<open>DIE\<close>.
\<close>

datatype heard = Nothing | Command | Store_Command | Die_Command

text \<open>One action of a handler at program point \<open>c\<close>: its next point and the new state.\<close>

fun conn_step :: "heard \<Rightarrow> conn_pc \<Rightarrow> server_process \<Rightarrow> (conn_pc \<times> server_process) option" where
  "conn_step h (C_Loop i) p = Some (if node_up p then C_Recv i else C_Close i, p)"
| "conn_step h (C_Recv i) p =
     Some (case map_find (clients (srv p)) i of
         None \<Rightarrow> C_Close i
       | Some ctx \<Rightarrow> if ctx_valid ctx then C_Receiving i (ctx_socket ctx) else C_Close i, p)"
| "conn_step h (C_Receiving i fd) p =
     Some (case h of Nothing \<Rightarrow> C_Close i | Command \<Rightarrow> C_Loop i | Store_Command \<Rightarrow> C_Recv i | Die_Command \<Rightarrow> C_Die i, p)"
| "conn_step h (C_Die i) p = Some (C_Stop S_Test i, p\<lparr>node_up := False, dies := Suc (dies p)\<rparr>)"
| "conn_step h (C_Stop pc i) p =
     (let (next, s, os) = stop_act pc (srv p, fds p) in
      Some (case next of Some pc' \<Rightarrow> C_Stop pc' i | None \<Rightarrow> C_Close i, p\<lparr>srv := s, fds := os\<rparr>))"
| "conn_step h (C_Close i) p =
     (let (s, os) = closeClient i (srv p) (fds p) in Some (C_Gone, p\<lparr>srv := s, fds := os\<rparr>))"
| "conn_step h C_Gone p = None"

datatype sock_action = Acceptor int | Handler nat heard | Env_Open int | Env_Close int

fun sock_act :: "sock_action \<Rightarrow> server_process \<Rightarrow> server_process option" where
  "sock_act (Acceptor fd) p = accept_act fd p"
| "sock_act (Handler j h) p =
     (if j < length (conns p)
      then map_option (\<lambda>(c, q). q\<lparr>conns := (conns q)[j := c]\<rparr>) (conn_step h (conns p ! j) p) else None)"
| "sock_act (Env_Open fd) p =
     (if fd < 0 \<or> fd \<in> set (open_fds (fds p)) then None
      else Some (p\<lparr>fds := os_open fd (fds p), foreign := fd # foreign p\<rparr>))"
| "sock_act (Env_Close fd) p =
     (if fd \<in> set (foreign p) then Some (p\<lparr>fds := os_close fd (fds p), foreign := remove1 fd (foreign p)\<rparr>) else None)"

inductive sock_step :: "server_process \<Rightarrow> server_process \<Rightarrow> bool" where
  "sock_act a p = Some q \<Longrightarrow> sock_step p q"

inductive_simps sock_step_iff: "sock_step p q"

fun sock_run :: "sock_action list \<Rightarrow> server_process \<Rightarrow> server_process option" where
  "sock_run [] p = Some p"
| "sock_run (a # as) p = (case sock_act a p of None \<Rightarrow> None | Some q \<Rightarrow> sock_run as q)"

lemma sock_run_reachable: "sock_run as p = Some q \<Longrightarrow> sock_step\<^sup>*\<^sup>* p q"
proof (induction as p rule: sock_run.induct)
  case (2 a as p)
  then obtain r where "sock_act a p = Some r" "sock_run as r = Some q" by (auto split: option.splits)
  then show ?case using 2(1) by (meson converse_rtranclp_into_rtranclp sock_step.intros)
qed simp

text \<open>A \<open>stop\<close> and an \<open>acceptClient\<close> that nobody interrupts are the operations of \<open>Tcp_Sockets\<close>.\<close>

fun stop_run :: "nat \<Rightarrow> stop_pc \<Rightarrow> tcp_server \<times> descriptors \<Rightarrow> (tcp_server \<times> descriptors) option" where
  "stop_run 0 pc x = None"
| "stop_run (Suc n) pc x = (case stop_act pc x of (None, y) \<Rightarrow> Some y | (Some pc', y) \<Rightarrow> stop_run n pc' y)"

lemma stop_alone: "stop_run 6 S_Test (s, os) = Some (server_stop s os)"
  by (simp add: server_stop_def eval_nat_numeral)

lemma accept_alone:
  assumes "acceptor p = A_Check" and "fd < 0 \<or> fd \<notin> set (open_fds (fds p))" and "acceptClient fd (srv p) (fds p) = (i, s, os)"
    and "0 \<le> nextClientId (srv p)"
  shows "sock_run (if \<not> srv_running (srv p) \<or> serverSock (srv p) < 0 then [Acceptor fd]
      else if fd < 0 then [Acceptor fd, Acceptor fd] else [Acceptor fd, Acceptor fd, Acceptor fd]) p =
    Some (p\<lparr>srv := s, fds := os, acceptor := if i = -1 then A_Loop else A_Spawn i\<rparr>)"
  using assms by (auto simp: acceptClient_def Let_def)

section \<open>One stop at a time\<close>

text \<open>
  The invariant of runs with at most one \<open>DIE\<close>. \<open>stopping\<close> are the handlers inside \<open>stop\<close>;
  \<open>stop_state\<close> ties the members of the server to how far the one stop has come.
\<close>

fun in_stop :: "conn_pc \<Rightarrow> bool" where
  "in_stop (C_Stop pc i) = True"
| "in_stop c = False"

definition up_state :: "tcp_server \<Rightarrow> bool" where
  "up_state s \<longleftrightarrow> srv_running s \<and> 0 \<le> serverSock s"

definition down_state :: "tcp_server \<Rightarrow> bool" where
  "down_state s \<longleftrightarrow> \<not> srv_running s \<and> serverSock s = -1"

fun stop_state :: "nat \<Rightarrow> tcp_server \<Rightarrow> stop_pc option \<Rightarrow> bool" where
  "stop_state n s None \<longleftrightarrow> (if n = 0 then up_state s else down_state s)"
| "stop_state n s (Some S_Test) \<longleftrightarrow> n = 1 \<and> up_state s"
| "stop_state n s (Some S_Flag) \<longleftrightarrow> n = 1 \<and> up_state s"
| "stop_state n s (Some S_Clients) \<longleftrightarrow> n = 1 \<and> down_state s"
| "stop_state n s (Some pc) \<longleftrightarrow> n = 1 \<and> \<not> srv_running s \<and> 0 \<le> serverSock s"

fun alone_in_stop :: "conn_pc multiset \<Rightarrow> stop_pc option \<Rightarrow> bool" where
  "alone_in_stop M None \<longleftrightarrow> M = {#}"
| "alone_in_stop M (Some pc) \<longleftrightarrow> (\<exists>i. M = {#C_Stop pc i#})"

abbreviation stopping :: "conn_pc list \<Rightarrow> conn_pc multiset" where
  "stopping cs \<equiv> filter_mset in_stop (mset cs)"

text \<open>The descriptors the node owns.\<close>

definition listening :: "tcp_server \<Rightarrow> stop_pc option \<Rightarrow> int multiset" where
  "listening s w = (if 0 \<le> serverSock s \<and> w \<noteq> Some S_Reset then {#serverSock s#} else {#})"

fun accepted :: "accept_pc \<Rightarrow> int multiset" where
  "accepted (A_Insert d) = {#d#}"
| "accepted a = {#}"

definition client_fds :: "tcp_server \<Rightarrow> int multiset" where
  "client_fds s = mset (map (\<lambda>e. ctx_socket (snd e)) (clients s))"

text \<open>Every entry of the table has a handler, running or about to be started, that will close it.\<close>

fun conn_id :: "conn_pc \<Rightarrow> int option" where
  "conn_id (C_Loop i) = Some i" | "conn_id (C_Recv i) = Some i" | "conn_id (C_Receiving i fd) = Some i"
| "conn_id (C_Die i) = Some i" | "conn_id (C_Stop pc i) = Some i" | "conn_id (C_Close i) = Some i"
| "conn_id C_Gone = None"

definition tended :: "tcp_server \<Rightarrow> accept_pc \<Rightarrow> conn_pc list \<Rightarrow> bool" where
  "tended s a cs \<longleftrightarrow> (\<forall>e \<in> set (clients s). fst e < nextClientId s \<and> ctx_valid (snd e) \<and> 0 \<le> ctx_socket (snd e) \<and>
     (a = A_Spawn (fst e) \<or> Some (fst e) \<in> conn_id ` set cs))"

text \<open>Where the accepting thread can be, and what it knows there.\<close>

abbreviation all_gone :: "conn_pc list \<Rightarrow> bool" where
  "all_gone cs \<equiv> list_all (\<lambda>c. c = C_Gone) cs"

fun acceptor_ok :: "accept_pc \<Rightarrow> bool \<Rightarrow> conn_pc list \<Rightarrow> bool" where
  "acceptor_ok A_Wait up cs \<longleftrightarrow> \<not> up"
| "acceptor_ok A_Destroy up cs \<longleftrightarrow> \<not> up \<and> all_gone cs"
| "acceptor_ok (A_Stop k pc) up cs \<longleftrightarrow> \<not> up \<and> all_gone cs \<and> pc = S_Test"
| "acceptor_ok A_Done up cs \<longleftrightarrow> \<not> up \<and> all_gone cs"
| "acceptor_ok (A_Insert d) up cs \<longleftrightarrow> 0 \<le> d"
| "acceptor_ok a up cs \<longleftrightarrow> True"

definition owner_inv :: "server_process \<Rightarrow> stop_pc option \<Rightarrow> bool" where
  "owner_inv p w \<longleftrightarrow> stop_state (dies p) (srv p) w \<and> alone_in_stop (stopping (conns p)) w \<and>
     mset (open_fds (fds p)) = mset (foreign p) + listening (srv p) w + client_fds (srv p) + accepted (acceptor p)"

definition sock_inv :: "server_process \<Rightarrow> stop_pc option \<Rightarrow> bool" where
  "sock_inv p w \<longleftrightarrow> \<not> stray (fds p) \<and> map_inv (clients (srv p)) \<and> tended (srv p) (acceptor p) (conns p) \<and>
     acceptor_ok (acceptor p) (node_up p) (conns p) \<and> (\<not> node_up p \<longrightarrow> 0 < dies p) \<and> owner_inv p w"

lemma sock_invD:
  assumes "sock_inv p w"
  shows "\<not> stray (fds p)" and "map_inv (clients (srv p))" and "tended (srv p) (acceptor p) (conns p)"
    and "acceptor_ok (acceptor p) (node_up p) (conns p)" and "\<not> node_up p \<Longrightarrow> 0 < dies p"
    and "stop_state (dies p) (srv p) w" and "alone_in_stop (stopping (conns p)) w"
    and "mset (open_fds (fds p)) = mset (foreign p) + listening (srv p) w + client_fds (srv p) + accepted (acceptor p)"
  using assms unfolding sock_inv_def owner_inv_def by blast+

lemma sock_inv_start: "0 \<le> fd \<Longrightarrow> sock_inv (process_start fd base) None"
  by (simp add: sock_inv_def process_start_def new_tcp_server_def map_inv_def tended_def owner_inv_def up_state_def
      listening_def client_fds_def)

section \<open>The invariant is kept\<close>

lemma filter_mset_update:
  assumes "j < length cs"
  shows "filter_mset P (mset (cs[j := c])) =
    filter_mset P (mset cs) - (if P (cs ! j) then {#cs ! j#} else {#}) + (if P c then {#c#} else {#})"
  using assms by (simp add: mset_update filter_diff_mset)

lemma tended_simps [simp]:
  "tended (s\<lparr>srv_running := b\<rparr>) = tended s" "tended (s\<lparr>serverSock := fd\<rparr>) = tended s"
  by (simp_all add: tended_def fun_eq_iff)

lemma stop_state_cong:
  "serverSock s' = serverSock s \<Longrightarrow> srv_running s' = srv_running s \<Longrightarrow> stop_state n s' w = stop_state n s w"
  by (cases "(n, s, w)" rule: stop_state.cases) (auto simp: up_state_def down_state_def)

lemma tended_move:
  assumes "tended s a cs" and "conn_id c = conn_id (cs ! j)" and "j < length cs"
  shows "tended s a (cs[j := c])"
proof -
  have "map conn_id (cs[j := c]) = map conn_id cs" using assms(2,3) by (simp add: map_update list_update_same_conv)
  then have "conn_id ` set (cs[j := c]) = conn_id ` set cs" by (metis list.set_map)
  then show ?thesis using assms(1) by (simp add: tended_def)
qed

lemma acceptor_ok_move:
  assumes "acceptor_ok a up cs" and "j < length cs" and "cs ! j \<noteq> C_Gone" and "up' \<longrightarrow> up"
  shows "acceptor_ok a up' cs'"
proof -
  have "\<not> all_gone cs" using assms(2,3) by (auto simp: list_all_length)
  then show ?thesis using assms(1,4) by (cases a) auto
qed

lemma sock_inv_move:
  assumes "sock_inv p w" and "j < length (conns p)" and "\<not> in_stop (conns p ! j)" and "\<not> in_stop c"
    and "conn_id c = conn_id (conns p ! j)" and "conns p ! j \<noteq> C_Gone"
  shows "sock_inv (p\<lparr>conns := (conns p)[j := c]\<rparr>) w"
  using sock_invD [OF assms(1)] tended_move [OF sock_invD(3) [OF assms(1)] assms(5,2)]
    acceptor_ok_move [OF sock_invD(4) [OF assms(1)] assms(2,6)] assms(2-4)
  by (simp add: sock_inv_def owner_inv_def filter_mset_update)

lemma env_open_inv:
  assumes "sock_inv p w" and "fd \<notin> set (open_fds (fds p))"
  shows "sock_inv (p\<lparr>fds := os_open fd (fds p), foreign := fd # foreign p\<rparr>) w"
  using sock_invD [OF assms(1)] by (simp add: sock_inv_def owner_inv_def)

lemma env_close_inv:
  assumes "sock_inv p w" and "fd \<in> set (foreign p)"
  shows "sock_inv (p\<lparr>fds := os_close fd (fds p), foreign := remove1 fd (foreign p)\<rparr>) w"
proof -
  note I = sock_invD [OF assms(1)]
  have "fd \<in> set (open_fds (fds p))" unfolding set_open_mset I(8) using assms(2) by simp
  then show ?thesis using I assms(2) by (simp add: sock_inv_def owner_inv_def mset_remove1)
qed

lemma die_inv:
  assumes "sock_inv p w" and "j < length (conns p)" and c: "conns p ! j = C_Die i" and "dies p = 0"
  shows "sock_inv (p\<lparr>node_up := False, dies := Suc (dies p), conns := (conns p)[j := C_Stop S_Test i]\<rparr>) (Some S_Test)"
proof -
  note I = sock_invD [OF assms(1)]
  have "w = None" using I(6) assms(4) by (cases "(dies p, srv p, w)" rule: stop_state.cases) simp_all
  moreover have "tended (srv p) (acceptor p) ((conns p)[j := C_Stop S_Test i])"
    using tended_move [OF I(3) _ assms(2)] c by simp
  moreover have "acceptor_ok (acceptor p) False ((conns p)[j := C_Stop S_Test i])"
    using acceptor_ok_move [OF I(4) assms(2)] c by simp
  ultimately show ?thesis
    using I assms(2,4) c by (simp add: sock_inv_def owner_inv_def filter_mset_update listening_def)
qed

text \<open>The handler in \<open>stop\<close> is the only one, at the point \<open>w\<close> tells.\<close>

lemma alone_in_stopD:
  assumes "alone_in_stop (stopping cs) w" and "j < length cs" and "cs ! j = C_Stop pc i"
  shows "w = Some pc" and "stopping cs = {#C_Stop pc i#}"
proof -
  have "C_Stop pc i \<in> set cs" using assms(2,3) by (metis nth_mem)
  then have "C_Stop pc i \<in># stopping cs" by simp
  then show "w = Some pc" "stopping cs = {#C_Stop pc i#}" using assms(1) by (cases w; auto)+
qed

lemma stop_act_inv:
  assumes "map_inv (clients s)" and "tended s a cs" and "stop_state n s (Some pc)" and "\<not> stray os"
    and "mset (open_fds os) = rest + listening s (Some pc) + client_fds s" and "stop_act pc (s, os) = (w, s', os')"
  shows "map_inv (clients s') \<and> tended s' a cs \<and> stop_state n s' w \<and> \<not> stray os' \<and>
    mset (open_fds os') = rest + listening s' w + client_fds s'"
proof (cases pc)
  case S_Shut
  then have "serverSock s \<in> set (open_fds os)" using assms(3,5) unfolding set_open_mset by (simp add: listening_def)
  then show ?thesis using assms S_Shut by (auto simp: listening_def client_fds_def)
next
  case S_Clients
  have c: "\<forall>e \<in> set (clients s). 0 \<le> ctx_socket (snd e)" using assms(2) by (simp add: tended_def)
  have l: "listening s (Some pc) = {#}" using assms(3) S_Clients by (simp add: down_state_def listening_def)
  have os': "os' = close_all (clients s) os" "s' = s\<lparr>clients := []\<rparr>" "w = None" using assms(6) S_Clients by auto
  have "mset (open_fds (close_all (clients s) os)) = rest \<and> stray (close_all (clients s) os) = stray os"
    using close_all_eq [OF c, of os] assms(5) l by (simp add: client_fds_def)
  then show ?thesis using assms(3,4) S_Clients
    by (simp add: os' map_inv_def tended_def down_state_def listening_def client_fds_def)
qed (use assms in \<open>auto simp: up_state_def down_state_def listening_def client_fds_def split: if_splits\<close>)

lemma stopping_inv:
  assumes "sock_inv p w" and j: "j < length (conns p)" and c: "conns p ! j = C_Stop pc i"
    and "stop_act pc (srv p, fds p) = (w', s, os)"
  shows "sock_inv (p\<lparr>srv := s, fds := os, conns := (conns p)[j := case w' of Some pc' \<Rightarrow> C_Stop pc' i | None \<Rightarrow> C_Close i]\<rparr>) w'"
proof -
  note I = sock_invD [OF assms(1)]
  let ?c = "case w' of Some pc' \<Rightarrow> C_Stop pc' i | None \<Rightarrow> C_Close i"
  have w: "w = Some pc" and al: "stopping (conns p) = {#C_Stop pc i#}" using alone_in_stopD [OF I(7) j c] .
  have t: "tended (srv p) (acceptor p) ((conns p)[j := ?c])" using tended_move [OF I(3) _ j] c by (cases w') simp_all
  have ok: "acceptor_ok (acceptor p) (node_up p) ((conns p)[j := ?c])" using acceptor_ok_move [OF I(4) j] c by simp
  have "alone_in_stop (stopping ((conns p)[j := ?c])) w'"
    using j c al by (cases w') (simp_all add: filter_mset_update)
  moreover have "mset (open_fds (fds p)) = (mset (foreign p) + accepted (acceptor p)) + listening (srv p) (Some pc) + client_fds (srv p)"
    using I(8) w by (simp add: ac_simps)
  from stop_act_inv [OF I(2) t _ I(1) this assms(4)] I(6) w
  have "map_inv (clients s) \<and> tended s (acceptor p) ((conns p)[j := ?c]) \<and> stop_state (dies p) s w' \<and> \<not> stray os \<and>
      mset (open_fds os) = mset (foreign p) + accepted (acceptor p) + listening s w' + client_fds s" by simp
  ultimately show ?thesis using I(5) ok by (simp add: sock_inv_def owner_inv_def ac_simps)
qed

lemma tended_close:
  assumes "tended s a cs" and "cs ! j = C_Close i" and "nextClientId s' = nextClientId s"
    and "\<forall>e \<in> set (clients s'). e \<in> set (clients s) \<and> fst e \<noteq> i"
  shows "tended s' a (cs[j := C_Gone])"
proof -
  have "Some k \<in> conn_id ` set (cs[j := C_Gone])" if k: "Some k \<in> conn_id ` set cs" "k \<noteq> i" for k
  proof -
    obtain l where l: "l < length cs" "conn_id (cs ! l) = Some k" using k(1) by (metis imageE in_set_conv_nth)
    then have "l \<noteq> j" using assms(2) k(2) by auto
    then have "cs[j := C_Gone] ! l = cs ! l" by simp
    then show ?thesis using l by (metis image_eqI length_list_update nth_mem)
  qed
  then show ?thesis using assms unfolding tended_def by metis
qed

lemma closing_inv:
  assumes "sock_inv p w" and j: "j < length (conns p)" and c: "conns p ! j = C_Close i"
    and cl: "closeClient i (srv p) (fds p) = (s, os)"
  shows "sock_inv (p\<lparr>srv := s, fds := os, conns := (conns p)[j := C_Gone]\<rparr>) w"
proof -
  note I = sock_invD [OF assms(1)]
  have ok: "acceptor_ok (acceptor p) (node_up p) ((conns p)[j := C_Gone])" using acceptor_ok_move [OF I(4) j] c by simp
  have al: "alone_in_stop (stopping ((conns p)[j := C_Gone])) w" using I(7) j c by (simp add: filter_mset_update)
  have same: "nextClientId s = nextClientId (srv p)" "serverSock s = serverSock (srv p)" "srv_running s = srv_running (srv p)"
    using cl by (auto simp: closeClient_def split: option.splits)
  have st: "stop_state (dies p) s w" using I(6) stop_state_cong [OF same(2,3)] by simp
  have li: "listening s w = listening (srv p) w" using same by (simp add: listening_def)
  have "map_inv (clients s) \<and> (\<forall>e \<in> set (clients s). e \<in> set (clients (srv p)) \<and> fst e \<noteq> i) \<and> \<not> stray os \<and>
      mset (open_fds os) = mset (foreign p) + listening (srv p) w + client_fds s + accepted (acceptor p)"
  proof (cases "map_find (clients (srv p)) i")
    case None
    then have "\<forall>e \<in> set (clients (srv p)). fst e \<noteq> i" by (auto simp: map_find_def map_of_eq_None_iff)
    then show ?thesis using None cl I by (simp add: closeClient_def)
  next
    case (Some ctx)
    let ?g = "\<lambda>e. ctx_socket (snd e)"
    have mem: "(i, ctx) \<in> set (clients (srv p))" using Some by (auto simp: map_find_def dest: map_of_SomeD)
    then have pos: "0 \<le> ctx_socket ctx" using I(3) by (auto simp: tended_def)
    have s: "s = (srv p)\<lparr>clients := map_erase i (clients (srv p))\<rparr>" "os = os_close (ctx_socket ctx) (fds p)"
      using cl Some pos by (simp_all add: closeClient_def)
    have er: "client_fds s = client_fds (srv p) - {#ctx_socket ctx#}"
      using mset_map_erase [OF Some, of ?g] by (simp add: s client_fds_def)
    have in_g: "ctx_socket ctx \<in># client_fds (srv p)" using mem by (force simp: client_fds_def)
    then have "ctx_socket ctx \<in> set (open_fds (fds p))" unfolding set_open_mset I(8) by simp
    moreover have "mset (open_fds (fds p)) - {#ctx_socket ctx#} =
        mset (foreign p) + listening (srv p) w + client_fds s + accepted (acceptor p)"
      using in_g by (simp add: I(8) er)
    ultimately show ?thesis
      using sm.entries_erase [OF I(2), of i] sm.inv_erase [OF I(2), of i] I(1) by (auto simp: s(1) s(2))
  qed
  then show ?thesis
    using I(5) ok al st li tended_close [OF I(3) c same(1)] by (simp add: sock_inv_def owner_inv_def)
qed

lemma insert_inv:
  assumes "sock_inv p w" and a: "acceptor p = A_Insert d" and "accept_act fd p = Some q"
  shows "sock_inv q w"
proof -
  note I = sock_invD [OF assms(1)]
  let ?i = "nextClientId (srv p)"
  let ?s = "(srv p)\<lparr>nextClientId := ?i + 1, clients := map_put ?i \<lparr>ctx_socket = d, ctx_valid = True\<rparr> (clients (srv p))\<rparr>"
  have q: "q = p\<lparr>acceptor := A_Spawn ?i, srv := ?s\<rparr>" using assms(3) a by (simp add: Let_def)
  have d: "0 \<le> d" using I(4) a by simp
  have small: "\<forall>e \<in> set (clients (srv p)). fst e < ?i" using I(3) by (simp add: tended_def)
  then have put: "map_put ?i \<lparr>ctx_socket = d, ctx_valid = True\<rparr> (clients (srv p)) =
      clients (srv p) @ [(?i, \<lparr>ctx_socket = d, ctx_valid = True\<rparr>)]" by (rule map_put_last)
  have "tended ?s (A_Spawn ?i) (conns p)" using I(3) a d small unfolding tended_def by (auto simp: put)
  moreover have "map_inv (clients ?s)" using sm.inv_put [OF I(2)] by simp
  moreover have "stop_state (dies p) ?s w" using I(6) stop_state_cong [of ?s "srv p"] by simp
  moreover have "client_fds ?s = client_fds (srv p) + {#d#}" by (simp add: client_fds_def put)
  moreover have "listening ?s w = listening (srv p) w" by (simp add: listening_def)
  ultimately show ?thesis using I a by (simp add: q sock_inv_def owner_inv_def)
qed

lemma tended_leave: "tended s a cs \<Longrightarrow> \<forall>i. a \<noteq> A_Spawn i \<Longrightarrow> tended s b cs"
  by (simp add: tended_def)

lemma spawn_inv:
  assumes "sock_inv p w" and a: "acceptor p = A_Spawn i"
  shows "sock_inv (p\<lparr>acceptor := A_Loop, conns := conns p @ [C_Loop i]\<rparr>) w"
  using sock_invD [OF assms(1)] a by (auto simp: sock_inv_def owner_inv_def tended_def)

lemma nobody_stopping: "all_gone cs \<Longrightarrow> stopping cs = {#}"
  by (induction cs) auto

lemma accept_inv:
  assumes inv: "sock_inv p w" and act: "accept_act fd p = Some q"
  shows "sock_inv q w"
proof (cases "acceptor p")
  case (A_Insert d)
  then show ?thesis using insert_inv inv act by blast
next
  case (A_Spawn i)
  then show ?thesis using spawn_inv [OF inv] act by simp
next
  case (A_Stop k pc)
  note I = sock_invD [OF inv]
  have k: "\<not> node_up p" "all_gone (conns p)" "pc = S_Test" using I(4) A_Stop by simp_all
  then have "w = None" using I(7) nobody_stopping by (cases w) auto
  then have "\<not> srv_running (srv p)" using I(5,6) k(1) by (simp add: down_state_def)
  then have "q = p\<lparr>acceptor := if k = 0 then A_Done else A_Stop (k - 1) S_Test\<rparr>" using act A_Stop k(3) by auto
  then show ?thesis using I A_Stop k tended_leave [OF I(3)] by (simp add: sock_inv_def owner_inv_def)
next
  case A_Accept
  note I = sock_invD [OF inv]
  show ?thesis using I act A_Accept tended_leave [OF I(3)]
    by (auto simp: sock_inv_def owner_inv_def split: if_splits)
next
  case A_Destroy
  note I = sock_invD [OF inv]
  show ?thesis using I act A_Destroy tended_leave [OF I(3)]
    by (auto simp: sock_inv_def owner_inv_def split: if_splits)
qed (use sock_invD [OF inv] act tended_leave [OF sock_invD(3) [OF inv]] in
    \<open>auto simp: sock_inv_def owner_inv_def split: if_splits\<close>)

lemma handler_inv:
  assumes inv: "sock_inv p w" and j: "j < length (conns p)" and step: "conn_step h (conns p ! j) p = Some (c, q)"
    and one: "dies q \<le> 1"
  shows "\<exists>w'. sock_inv (q\<lparr>conns := (conns q)[j := c]\<rparr>) w'"
proof (cases "conns p ! j")
  case (C_Die i)
  then show ?thesis using die_inv [OF inv j C_Die] step one by auto
next
  case (C_Stop pc i)
  then show ?thesis using stopping_inv [OF inv j C_Stop] step by (auto split: prod.splits)
next
  case (C_Close i)
  then show ?thesis using closing_inv [OF inv j C_Close] step by (auto split: prod.splits)
next
  case (C_Loop i)
  then show ?thesis using sock_inv_move [OF inv j, of c] step by (intro exI [of _ w]) auto
next
  case (C_Recv i)
  then show ?thesis using sock_inv_move [OF inv j, of c] step by (intro exI [of _ w]) (auto split: option.splits if_splits)
next
  case (C_Receiving i fd)
  then show ?thesis using sock_inv_move [OF inv j, of c] step by (intro exI [of _ w]) (auto split: heard.splits)
qed (use step in simp)

lemma sock_act_inv:
  assumes "sock_inv p w" and act: "sock_act a p = Some q" and "dies q \<le> 1"
  shows "\<exists>w'. sock_inv q w'"
proof (cases a)
  case (Acceptor fd)
  then show ?thesis using accept_inv [OF assms(1)] act by auto
next
  case (Handler j h)
  then obtain c r where "j < length (conns p)" "conn_step h (conns p ! j) p = Some (c, r)" "q = r\<lparr>conns := (conns r)[j := c]\<rparr>"
    using act by (auto split: if_splits)
  then show ?thesis using handler_inv [OF assms(1)] assms(3) by simp
next
  case (Env_Open fd)
  then show ?thesis using env_open_inv [OF assms(1)] act by (auto split: if_splits)
next
  case (Env_Close fd)
  then show ?thesis using env_close_inv [OF assms(1)] act by (auto split: if_splits)
qed

lemma dies_mono: "sock_act a p = Some q \<Longrightarrow> dies p \<le> dies q"
proof (cases a)
  case (Handler j h)
  assume "sock_act a p = Some q"
  then obtain c r where "conn_step h (conns p ! j) p = Some (c, r)" "q = r\<lparr>conns := (conns r)[j := c]\<rparr>"
    using Handler by (auto split: if_splits)
  then show ?thesis by (cases "conns p ! j") (auto split: prod.splits)
next
  case (Acceptor fd)
  assume "sock_act a p = Some q"
  then show ?thesis using Acceptor by (auto simp: Let_def split: accept_pc.splits if_splits prod.splits)
qed (auto split: if_splits)

lemma reachable_sock_inv:
  assumes "sock_step\<^sup>*\<^sup>* (process_start fd base) p" and "0 \<le> fd" and "dies p \<le> 1"
  shows "\<exists>w. sock_inv p w"
  using assms(1,3)
proof (induction rule: rtranclp_induct)
  case base
  then show ?case using sock_inv_start [OF assms(2)] by blast
next
  case (step p q)
  then obtain a where a: "sock_act a p = Some q" by (auto simp: sock_step_iff)
  then have "dies p \<le> 1" using dies_mono step.prems by (meson le_trans)
  then obtain w where "sock_inv p w" using step.IH by blast
  then show ?case using sock_act_inv a step.prems by blast
qed

text \<open>A start that fails leaves nothing open and nobody to serve.\<close>

fun destroying :: "accept_pc \<Rightarrow> bool" where
  "destroying A_Destroy = True"
| "destroying (A_Stop k pc) = (pc = S_Test)"
| "destroying A_Done = True"
| "destroying a = False"

definition failed_start :: "server_process \<Rightarrow> bool" where
  "failed_start p \<longleftrightarrow> destroying (acceptor p) \<and> \<not> srv_running (srv p) \<and> clients (srv p) = [] \<and> conns p = [] \<and>
     \<not> stray (fds p) \<and> mset (open_fds (fds p)) = mset (foreign p)"

lemma storage_begin_down:
  "\<not> (0 \<le> fd \<and> opt_ok \<and> bind_ok \<and> listen_ok) \<Longrightarrow> failed_start (storage_begin fd opt_ok bind_ok listen_ok base)"
  by (auto simp: failed_start_def storage_begin_def server_start_def os_open_def os_close_def new_tcp_server_def Let_def)

lemma failed_start_act:
  assumes "failed_start p" and act: "sock_act a p = Some q"
  shows "failed_start q"
proof (cases a)
  case (Acceptor fd)
  then show ?thesis using assms by (cases "acceptor p") (auto simp: failed_start_def Let_def split: if_splits)
next
  case (Env_Close fd)
  then have "fd \<in> set (open_fds (fds p))" using assms unfolding set_open_mset by (auto simp: failed_start_def split: if_splits)
  then show ?thesis using assms Env_Close by (auto simp: failed_start_def mset_remove1 split: if_splits)
qed (use assms in \<open>auto simp: failed_start_def split: if_splits\<close>)

lemma reachable_failed_start:
  assumes "sock_step\<^sup>*\<^sup>* p q" and "failed_start p" shows "failed_start q"
  using assms by (induction rule: rtranclp_induct) (auto simp: sock_step_iff dest: failed_start_act)

lemma running_life:
  assumes "sock_step\<^sup>*\<^sup>* (process_start fd base) p" and "0 \<le> fd" and "dies p \<le> 1"
  shows "\<not> stray (fds p) \<and> mset (foreign p) \<subseteq># mset (open_fds (fds p)) \<and>
    (acceptor p = A_Done \<longrightarrow> mset (open_fds (fds p)) = mset (foreign p) \<and> clients (srv p) = [])"
proof -
  obtain w where w: "sock_inv p w" using reachable_sock_inv [OF assms] by blast
  note I = sock_invD [OF w]
  have "mset (foreign p) \<subseteq># mset (open_fds (fds p))" unfolding I(8) by (simp add: add.assoc)
  moreover have "mset (open_fds (fds p)) = mset (foreign p) \<and> clients (srv p) = []" if d: "acceptor p = A_Done"
  proof -
    have k: "\<not> node_up p" "all_gone (conns p)" using I(4) d by simp_all
    then have wn: "w = None" using I(7) nobody_stopping by (cases w) auto
    then have "listening (srv p) w = {#}" using I(5,6) k(1) by (simp add: down_state_def listening_def)
    moreover have "conn_id ` set (conns p) \<subseteq> {None}" using k(2) by (auto simp: list_all_iff)
    then have "clients (srv p) = []" using I(3) d by (cases "clients (srv p)") (auto simp: tended_def)
    ultimately show ?thesis using I(8) d by (simp add: client_fds_def)
  qed
  ultimately show ?thesis using I(1) by blast
qed

section \<open>Properties\<close>

text \<open>
  C20: One \<open>DIE\<close> tears the server down cleanly. Whether or not \<open>server_.start\<close> succeeds and
  however the accepting thread, the handlers and
  the rest of the process interleave, as long as at most one \<open>DIE\<close> is carried out nothing is
  closed that is not open, no descriptor of the rest of the process is ever closed by the
  node, and when the node has been destroyed the process has exactly the descriptors the
  rest of it owns: the listening socket and every connection have been closed, also one
  accepted while the server was stopping.
\<close>
theorem one_stop_is_clean:
  assumes "sock_step\<^sup>*\<^sup>* (storage_begin fd opt_ok bind_ok listen_ok base) p" and "dies p \<le> 1"
  shows "\<not> stray (fds p) \<and> mset (foreign p) \<subseteq># mset (open_fds (fds p)) \<and>
    (acceptor p = A_Done \<longrightarrow> mset (open_fds (fds p)) = mset (foreign p) \<and> clients (srv p) = [])"
proof (cases "0 \<le> fd \<and> opt_ok \<and> bind_ok \<and> listen_ok")
  case True
  then show ?thesis using running_life [of fd base p] assms storage_begin_up by simp
next
  case False
  then have "failed_start p" using reachable_failed_start [OF assms(1)] storage_begin_down by blast
  then show ?thesis by (simp add: failed_start_def)
qed

text \<open>A whole life: one client connects, says \<open>DIE\<close> while another is being accepted, the node is destroyed.\<close>

definition clean_life :: "sock_action list" where
  "clean_life = [Acceptor 0, Acceptor 0, Acceptor 7, Acceptor 0, Acceptor 0, Acceptor 0, Acceptor 0,
     Handler 0 Nothing, Handler 0 Nothing, Handler 0 Die_Command, Handler 0 Nothing, Handler 0 Nothing, Handler 0 Nothing,
     Acceptor 8, Handler 0 Nothing, Handler 0 Nothing, Env_Open 5, Handler 0 Nothing, Handler 0 Nothing, Acceptor 0, Acceptor 0,
     Handler 0 Nothing, Acceptor 0, Handler 1 Nothing, Handler 1 Nothing, Acceptor 0, Acceptor 0, Acceptor 0, Acceptor 0]"

lemma clean_life_ends:
  "\<exists>p. sock_run clean_life (storage_begin 5 True True True [3]) = Some p \<and> acceptor p = A_Done \<and> dies p = 1 \<and> foreign p = [5, 3]"
  by (simp add: clean_life_def storage_begin_up process_start_def new_tcp_server_def os_open_def os_close_def map_find_def closeClient_def Let_def)

theorem one_stop_is_clean_witness:
  "\<exists>p. sock_run clean_life (storage_begin 5 True True True [3]) = Some p \<and> acceptor p = A_Done \<and> \<not> stray (fds p) \<and>
     mset (open_fds (fds p)) = {#3, 5#}"
proof -
  obtain p where p: "sock_run clean_life (storage_begin 5 True True True [3]) = Some p" "acceptor p = A_Done" "dies p = 1" "foreign p = [5, 3]"
    using clean_life_ends by blast
  then show ?thesis using one_stop_is_clean [OF sock_run_reachable [OF p(1)]] by (auto simp: add_mset_commute)
qed

text \<open>
  Two clients connect. In the first run one says \<open>DIE\<close> while the handler of the other is about
  to receive; in the second both say \<open>DIE\<close> and their handlers pass the test of \<open>running_\<close>
  together.
\<close>

definition two_clients :: "sock_action list" where
  "two_clients = [Acceptor 0, Acceptor 0, Acceptor 7, Acceptor 0, Acceptor 0, Acceptor 0, Acceptor 0, Acceptor 8, Acceptor 0, Acceptor 0,
     Handler 0 Nothing, Handler 0 Nothing, Handler 1 Nothing, Handler 1 Nothing]"

definition stale_read :: "sock_action list" where
  "stale_read = two_clients @ Handler 0 Die_Command # replicate 7 (Handler 0 Nothing) @ [Env_Open 8]"

definition double_stop :: "sock_action list" where
  "double_stop = two_clients @ [Handler 0 Die_Command, Handler 1 Die_Command, Handler 0 Nothing, Handler 1 Nothing,
     Handler 0 Nothing, Handler 1 Nothing, Handler 0 Nothing, Handler 1 Nothing, Handler 0 Nothing, Handler 1 Nothing,
     Handler 0 Nothing, Env_Open 5, Handler 1 Nothing]"

lemmas run_simps = storage_begin_up process_start_def new_tcp_server_def os_open_def os_close_def map_find_def Let_def

lemma stale_read_runs:
  "\<exists>p. sock_run stale_read (storage_begin 5 True True True []) = Some p \<and> dies p = 1 \<and> C_Receiving 2 8 \<in> set (conns p) \<and> foreign p = [8]"
  by (simp add: stale_read_def two_clients_def eval_nat_numeral run_simps)

lemma double_stop_runs:
  "\<exists>p. sock_run double_stop (storage_begin 5 True True True []) = Some p \<and> dies p = 2 \<and> foreign p = [5] \<and> 5 \<notin> set (open_fds (fds p))"
  by (simp add: double_stop_def two_clients_def run_simps)

text \<open>
  C21: What the server does not exclude. There is a run with a single \<open>DIE\<close> in which a handler
  is about to receive on a descriptor that by now belongs to another part of the process,
  because \<open>recvData\<close> releases the mutex between looking the descriptor up and reading from
  it; and there is a run with two \<open>DIE\<close> commands in which the node closes a descriptor of
  another part of the process, because \<open>stop\<close> tests and resets \<open>running_\<close> and \<open>serverSock_\<close>
  without the mutex.
\<close>
theorem stop_races:
  "(\<exists>p i fd. sock_step\<^sup>*\<^sup>* (storage_begin 5 True True True []) p \<and> dies p = 1 \<and> C_Receiving i fd \<in> set (conns p) \<and> fd \<in> set (foreign p)) \<and>
   (\<exists>p fd. sock_step\<^sup>*\<^sup>* (storage_begin 5 True True True []) p \<and> dies p = 2 \<and> fd \<in> set (foreign p) \<and> fd \<notin> set (open_fds (fds p)))"
proof
  obtain p where p: "sock_run stale_read (storage_begin 5 True True True []) = Some p" "dies p = 1" "C_Receiving 2 8 \<in> set (conns p)" "foreign p = [8]"
    using stale_read_runs by blast
  then show "\<exists>p i fd. sock_step\<^sup>*\<^sup>* (storage_begin 5 True True True []) p \<and> dies p = 1 \<and> C_Receiving i fd \<in> set (conns p) \<and> fd \<in> set (foreign p)"
    using sock_run_reachable [OF p(1)] by (intro exI [of _ p] exI [of _ 2] exI [of _ 8]) simp
  obtain q where q: "sock_run double_stop (storage_begin 5 True True True []) = Some q" "dies q = 2" "foreign q = [5]" "5 \<notin> set (open_fds (fds q))"
    using double_stop_runs by blast
  then show "\<exists>p fd. sock_step\<^sup>*\<^sup>* (storage_begin 5 True True True []) p \<and> dies p = 2 \<and> fd \<in> set (foreign p) \<and> fd \<notin> set (open_fds (fds p))"
    using sock_run_reachable [OF q(1)] by (intro exI [of _ q] exI [of _ 5]) simp
qed

end
