(* ===== verification/Storage_Node.thy ===== *)
theory Storage_Node
  imports Text_Stream Tcp_Framing Sha256
begin

text \<open>
  \<^verbatim>\<open>src/src/storage/storage_node.cpp\<close>: the chunk store behind one TCP port. A connection's
  handler is a thread that blocks in \<open>recvMessage\<close> or \<open>recvData\<close>; the model cuts it at
  these calls. \<open>control\<close> says where the handler waits, and \<open>storage_step\<close> runs it from
  one received payload to its next receive: it returns the new control point, the payloads
  it sent meanwhile, in order, and the node. An empty payload stands for a closed or broken
  connection, which the code cannot tell from an empty message. Every section that touches
  \<open>storage_\<close> holds \<open>storageMutex_\<close> and contains no receive, so a step is atomic with
  respect to the store.

  The locale \<open>chunk_store\<close> is what a client of the store relies on; \<open>storage_step\<close>
  interprets it.
\<close>

section \<open>The node\<close>

datatype control = AwaitCommand | AwaitData string | Closed | Stuck

record storage_node =
  storage :: "string \<rightharpoonup> bytes"
  storage_running :: bool

definition new_storage_node :: storage_node where
  "new_storage_node = \<lparr>storage = Map.empty, storage_running = True\<rparr>"

text \<open>The command loop's body from \<open>recvMessage\<close> to the next receive.\<close>

definition storage_command :: "string \<Rightarrow> storage_node \<Rightarrow> control \<times> bytes list \<times> storage_node" where
  "storage_command command n =
     (let (op, iss) = read_word [] (open_stream command) in
      if op = ''STORE'' then
        let (h, iss) = read_word [] iss in
        if failed iss then (AwaitCommand, [bytes_of_string ''ERROR''], n)
        else (AwaitData h, [bytes_of_string ''READY''], n)
      else if op = ''GET'' then
        let (h, iss) = read_word [] iss in
        if failed iss then (AwaitCommand, [bytes_of_string ''ERROR''], n)
        else
          let d = (case storage n h of None \<Rightarrow> [] | Some d \<Rightarrow> d) in
          if d \<noteq> [] then (AwaitCommand, [bytes_of_string ''FOUND'', d], n)
          else (AwaitCommand, [bytes_of_string ''NOT_FOUND''], n)
      else if op = ''DIE'' then (Closed, [], n\<lparr>storage_running := False\<rparr>)
      else (AwaitCommand, [bytes_of_string ''ERROR''], n))"

definition storage_step :: "control \<Rightarrow> bytes \<Rightarrow> storage_node \<Rightarrow> control \<times> bytes list \<times> storage_node" where
  "storage_step c payload n =
     (case c of
        AwaitCommand \<Rightarrow>
          if \<not> storage_running n \<or> payload = [] then (Closed, [], n)
          else storage_command (string_of_bytes payload) n
      | AwaitData h \<Rightarrow>
          if \<not> storage_running n \<or> payload = [] then (Closed, [], n)
          else (AwaitCommand, [bytes_of_string ''ACK''], n\<lparr>storage := (storage n)(h \<mapsto> payload)\<rparr>)
      | Closed \<Rightarrow> (Closed, [], n)
      | Stuck \<Rightarrow> (Stuck, [], n))"

section \<open>The contract\<close>

text \<open>
  The laws a client of a chunk store relies on: a \<open>STORE\<close> dialogue is acknowledged, makes
  the chunk readable and leaves the others alone; a \<open>GET\<close> answers from the store and
  changes nothing; no step loses a chunk.
\<close>

locale chunk_store =
  fixes step :: "control \<Rightarrow> bytes \<Rightarrow> 'n \<Rightarrow> control \<times> bytes list \<times> 'n"
    and chunks :: "'n \<Rightarrow> string \<rightharpoonup> bytes"
    and up :: "'n \<Rightarrow> bool"
  assumes store_cmd: "up n \<Longrightarrow> is_word h \<Longrightarrow>
      step AwaitCommand (bytes_of_string (''STORE '' @ h)) n = (AwaitData h, [bytes_of_string ''READY''], n)"
    and store_data: "up n \<Longrightarrow> d \<noteq> [] \<Longrightarrow>
      \<exists>n'. step (AwaitData h) d n = (AwaitCommand, [bytes_of_string ''ACK''], n')
           \<and> chunks n' = (chunks n)(h \<mapsto> d) \<and> up n'"
    and get_cmd: "up n \<Longrightarrow> is_word h \<Longrightarrow>
      step AwaitCommand (bytes_of_string (''GET '' @ h)) n =
        (AwaitCommand,
         (case chunks n h of
            Some d \<Rightarrow> if d = [] then [bytes_of_string ''NOT_FOUND''] else [bytes_of_string ''FOUND'', d]
          | None \<Rightarrow> [bytes_of_string ''NOT_FOUND'']), n)"
    and no_loss: "step c p n = (c', out, n') \<Longrightarrow> dom (chunks n) \<subseteq> dom (chunks n')"
begin

text \<open>A whole \<open>STORE\<close> dialogue, then a \<open>GET\<close>.\<close>

lemma store_then_get:
  assumes "up n" and "is_word h" and "d \<noteq> []"
    and "step AwaitCommand (bytes_of_string (''STORE '' @ h)) n = (c1, o1, n1)"
    and "step c1 d n1 = (c2, o2, n2)"
  shows "o1 = [bytes_of_string ''READY''] \<and> o2 = [bytes_of_string ''ACK''] \<and>
    step c2 (bytes_of_string (''GET '' @ h)) n2 = (AwaitCommand, [bytes_of_string ''FOUND'', d], n2)"
proof -
  have 1: "c1 = AwaitData h" "o1 = [bytes_of_string ''READY'']" "n1 = n"
    using store_cmd [OF assms(1,2)] assms(4) by simp_all
  obtain n' where "step (AwaitData h) d n = (AwaitCommand, [bytes_of_string ''ACK''], n')"
    and n': "chunks n' = (chunks n)(h \<mapsto> d)" "up n'"
    using store_data [OF assms(1,3)] by blast
  then have 2: "c2 = AwaitCommand" "o2 = [bytes_of_string ''ACK'']" "n2 = n'" using assms(5) 1 by simp_all
  then show ?thesis using get_cmd [OF n'(2) assms(2)] n'(1) assms(3) 1 by simp
qed

end

section \<open>The node meets the contract\<close>

lemma is_word_literals [simp]:
  "is_word ''STORE''" "is_word ''GET''" "is_word ''PUT''" "is_word ''DIE''" "is_word ''PING''"
  "is_word ''UPDATE_PREV''" "is_word ''UPDATE_NEXT''" "is_word ''SET_SKIP''" "is_word ''GET_STATUS''"
  by (simp_all add: is_word_def is_space_def)

lemma read_word_cmd [text_simps]:
  "is_word w \<Longrightarrow> read_word old (open_stream (w @ '' '' @ t)) = (w, \<lparr>rest = '' '' @ t, failed = False\<rparr>)"
  by (simp add: open_stream_def text_simps)

lemma read_word_bare [text_simps]:
  "is_word w \<Longrightarrow> read_word old (open_stream w) = (w, \<lparr>rest = [], failed = False\<rparr>)"
  by (simp add: open_stream_def text_simps)

lemma storage_command_store:
  "is_word h \<Longrightarrow> storage_command (''STORE '' @ h) n = (AwaitData h, [bytes_of_string ''READY''], n)"
  using read_word_cmd [of "''STORE''" "[]" h]
  by (simp add: storage_command_def text_simps)

lemma storage_command_get:
  "is_word h \<Longrightarrow> storage_command (''GET '' @ h) n =
   (AwaitCommand,
    (case storage n h of
       Some d \<Rightarrow> if d = [] then [bytes_of_string ''NOT_FOUND''] else [bytes_of_string ''FOUND'', d]
     | None \<Rightarrow> [bytes_of_string ''NOT_FOUND'']), n)"
  using read_word_cmd [of "''GET''" "[]" h]
  by (simp add: storage_command_def text_simps split: option.splits)

text \<open>The same with the literals in the simplifier's normal form.\<close>

lemmas storage_commands [node_simps] =
  storage_command_store [unfolded append.simps] storage_command_get [unfolded append.simps]

lemma storage_command_keeps: "storage_command s n = (c, out, n') \<Longrightarrow> storage n' = storage n"
  by (auto simp: storage_command_def Let_def split: prod.splits if_splits)

lemma storage_step_chunks:
  "storage_step c p n = (c', out, n') \<Longrightarrow>
   storage n' = storage n \<or> (\<exists>h. c = AwaitData h \<and> p \<noteq> [] \<and> storage n' = (storage n)(h \<mapsto> p))"
  by (auto simp: storage_step_def storage_command_keeps split: control.splits if_splits)

interpretation st: chunk_store storage_step storage storage_running
proof unfold_locales
  fix c p n c' out n'
  assume "storage_step c p n = (c', out, n')"
  then show "dom (storage n) \<subseteq> dom (storage n')" using storage_step_chunks by fastforce
qed (auto simp: storage_step_def node_simps)

section \<open>Many connections\<close>

text \<open>
  The threads of a node interleave at the granularity of \<open>storage_step\<close>. A system state
  is the node and the control point of every connection; a step is a new connection (while
  the node runs), or a payload arriving on one of them.
\<close>

record storage_sys =
  sys_node :: storage_node
  sys_conns :: "nat \<rightharpoonup> control"

inductive storage_sys_step :: "storage_sys \<Rightarrow> storage_sys \<Rightarrow> bool" where
  accept: "sys_conns s i = None \<Longrightarrow> storage_running (sys_node s) \<Longrightarrow>
     storage_sys_step s (s\<lparr>sys_conns := (sys_conns s)(i \<mapsto> AwaitCommand)\<rparr>)"
| receive: "sys_conns s i = Some c \<Longrightarrow> storage_step c p (sys_node s) = (c', out, n') \<Longrightarrow>
     storage_sys_step s (s\<lparr>sys_node := n', sys_conns := (sys_conns s)(i \<mapsto> c')\<rparr>)"

text \<open>
  The same steps when clients send a chunk only under its own digest, which is what
  \<open>Client::uploadChunkToNode\<close> does after \<open>hashAllChunks\<close>.
\<close>

inductive honest_step :: "storage_sys \<Rightarrow> storage_sys \<Rightarrow> bool" where
  accept: "sys_conns s i = None \<Longrightarrow> storage_running (sys_node s) \<Longrightarrow>
     honest_step s (s\<lparr>sys_conns := (sys_conns s)(i \<mapsto> AwaitCommand)\<rparr>)"
| receive: "sys_conns s i = Some c \<Longrightarrow> storage_step c p (sys_node s) = (c', out, n') \<Longrightarrow>
     (\<forall>h. c = AwaitData h \<and> p \<noteq> [] \<longrightarrow> sha256 p = h) \<Longrightarrow>
     honest_step s (s\<lparr>sys_node := n', sys_conns := (sys_conns s)(i \<mapsto> c')\<rparr>)"

definition start_sys :: storage_sys where
  "start_sys = \<lparr>sys_node = new_storage_node, sys_conns = Map.empty\<rparr>"

definition content_addressed :: "storage_node \<Rightarrow> bool" where
  "content_addressed n \<longleftrightarrow> (\<forall>h d. storage n h = Some d \<longrightarrow> d \<noteq> [] \<and> sha256 d = h)"

lemma honest_step_content:
  assumes "honest_step s t" and "content_addressed (sys_node s)"
  shows "content_addressed (sys_node t)"
  using assms
proof (induction rule: honest_step.induct)
  case (receive s i c p c' out n')
  from storage_step_chunks [OF receive(2)] show ?case
    using receive(3,4) unfolding content_addressed_def by (auto split: if_splits) blast+
qed simp

section \<open>Properties\<close>

text \<open>
  A chunk stored is the chunk read back. On a running node a \<open>STORE h\<close> command is
  answered \<open>READY\<close>, the payload that follows is answered \<open>ACK\<close>, and a later \<open>GET h\<close>
  answers \<open>FOUND\<close> with exactly that payload and leaves the node as it is.
\<close>
theorem store_get_dialogue:
  assumes "storage_running n" and "is_word h" and "d \<noteq> []"
    and "storage_step AwaitCommand (bytes_of_string (''STORE '' @ h)) n = (c1, o1, n1)"
    and "storage_step c1 d n1 = (c2, o2, n2)"
  shows "o1 = [bytes_of_string ''READY''] \<and> o2 = [bytes_of_string ''ACK''] \<and>
    storage_step c2 (bytes_of_string (''GET '' @ h)) n2 = (AwaitCommand, [bytes_of_string ''FOUND'', d], n2)"
  using assms by (rule st.store_then_get)

theorem store_get_dialogue_witness:
  "storage_step AwaitCommand (bytes_of_string (''GET '' @ ''ab12''))
     (new_storage_node\<lparr>storage := [''ab12'' \<mapsto> [1, 2]]\<rparr>) =
   (AwaitCommand, [bytes_of_string ''FOUND'', [1, 2]], new_storage_node\<lparr>storage := [''ab12'' \<mapsto> [1, 2]]\<rparr>)"
proof -
  have "storage_step AwaitCommand (bytes_of_string (''STORE '' @ ''ab12'')) new_storage_node =
      (AwaitData ''ab12'', [bytes_of_string ''READY''], new_storage_node)"
    by (rule st.store_cmd) (simp_all add: new_storage_node_def is_word_def is_space_def)
  from store_get_dialogue [OF _ _ _ this, of "[1, 2]" AwaitCommand "[bytes_of_string ''ACK'']"
      "new_storage_node\<lparr>storage := [''ab12'' \<mapsto> [1, 2]]\<rparr>"]
  show ?thesis by (simp add: storage_step_def new_storage_node_def is_word_def is_space_def)
qed



text \<open>
  No step of any connection removes a chunk, and only the data phase of a \<open>STORE\<close> adds
  or replaces one, under the name that \<open>STORE\<close> announced.
\<close>
theorem storage_changes_only_by_store:
  assumes "storage_sys_step s t"
  shows "storage (sys_node t) = storage (sys_node s)
    \<or> (\<exists>i h p. sys_conns s i = Some (AwaitData h) \<and> p \<noteq> [] \<and>
         storage (sys_node t) = (storage (sys_node s))(h \<mapsto> p))"
  using assms
proof (cases rule: storage_sys_step.cases)
  case (receive i c p c' out n')
  then show ?thesis using storage_step_chunks [OF receive(3)] by auto
qed simp

theorem storage_changes_only_by_store_witness:
  "storage (sys_node (start_sys\<lparr>sys_conns := [3 \<mapsto> AwaitCommand]\<rparr>)) = storage (sys_node start_sys)
   \<or> (\<exists>i h p. sys_conns start_sys i = Some (AwaitData h) \<and> p \<noteq> [] \<and>
        storage (sys_node (start_sys\<lparr>sys_conns := [3 \<mapsto> AwaitCommand]\<rparr>)) = (storage (sys_node start_sys))(h \<mapsto> p))"
proof (rule storage_changes_only_by_store)
  have "storage_sys_step start_sys (start_sys\<lparr>sys_conns := (sys_conns start_sys)(3 \<mapsto> AwaitCommand)\<rparr>)"
    by (rule storage_sys_step.accept) (simp_all add: start_sys_def new_storage_node_def)
  then show "storage_sys_step start_sys (start_sys\<lparr>sys_conns := [3 \<mapsto> AwaitCommand]\<rparr>)"
    by (simp add: start_sys_def)
qed

end
