(* ===== verification/Server_Lifecycle.thy ===== *)
theory Server_Lifecycle
  imports Dfs_Prelude "HOL-Library.Multiset"
begin

text \<open>
  The thread structure of \<open>StorageNode::start\<close> and \<open>MetadataNode::start\<close>
  (\<^verbatim>\<open>src/src/storage/storage_node.cpp\<close>, \<^verbatim>\<open>src/src/metadata/metadata_node.cpp\<close>), which
  are the same: the accept loop starts one detached thread per connection and counts it in
  \<open>activeHandlers_\<close>; when \<open>running_\<close> goes down the loop ends and the main thread waits
  on \<open>handlersCv_\<close> until the count is zero. A handler decrements the count and then
  notifies, without holding \<open>handlersMutex_\<close>.

  \<open>main_pc\<close> and \<open>handler_pc\<close> are the program points between the atomic operations, an
  action is one of these operations. \<^verbatim>\<open>wait(lock, pred)\<close> is its standard expansion
  \<^verbatim>\<open>while (!pred()) wait(lock);\<close>: the test and the blocking are separate points, and a
  notification wakes the thread only when it is blocked. Spurious wake-ups, which the
  standard permits and does not promise, are not an action.
\<close>

section \<open>The state machine\<close>

datatype main_pc = M_Loop | M_Accept | M_Lock | M_Test | M_Presleep | M_Sleep | M_Done

datatype handler_pc = H_Running | H_Left | H_Done

record lifecycle =
  lc_running :: bool
  activeHandlers :: int
  main :: main_pc
  handlers :: "handler_pc list"

definition lc_start :: lifecycle where
  "lc_start = \<lparr>lc_running = True, activeHandlers = 0, main = M_Loop, handlers = []\<rparr>"

datatype action = Test_Running | Accept bool | Lock | Test_Pred | Block | Die nat | Leave nat | Notify nat

text \<open>
  \<open>Accept b\<close>: \<open>acceptClient\<close> returns an identifier (\<open>b\<close>) or \<open>-1\<close>. \<open>Die i\<close>: handler
  \<open>i\<close> executes a \<open>DIE\<close> command. \<open>Leave i\<close>: it returns from \<open>handleClient\<close> and decrements
  the count.
\<close>

fun act :: "action \<Rightarrow> lifecycle \<Rightarrow> lifecycle option" where
  "act Test_Running s = (if main s = M_Loop then Some (s\<lparr>main := if lc_running s then M_Accept else M_Lock\<rparr>) else None)"
| "act (Accept b) s =
     (if main s \<noteq> M_Accept then None
      else if b then Some (s\<lparr>activeHandlers := activeHandlers s + 1, handlers := handlers s @ [H_Running], main := M_Loop\<rparr>)
      else Some (s\<lparr>main := M_Loop\<rparr>))"
| "act Lock s = (if main s = M_Lock then Some (s\<lparr>main := M_Test\<rparr>) else None)"
| "act Test_Pred s = (if main s = M_Test then Some (s\<lparr>main := if activeHandlers s = 0 then M_Done else M_Presleep\<rparr>) else None)"
| "act Block s = (if main s = M_Presleep then Some (s\<lparr>main := M_Sleep\<rparr>) else None)"
| "act (Die i) s = (if i < length (handlers s) \<and> handlers s ! i = H_Running then Some (s\<lparr>lc_running := False\<rparr>) else None)"
| "act (Leave i) s =
     (if i < length (handlers s) \<and> handlers s ! i = H_Running
      then Some (s\<lparr>handlers := (handlers s)[i := H_Left], activeHandlers := activeHandlers s - 1\<rparr>) else None)"
| "act (Notify i) s =
     (if i < length (handlers s) \<and> handlers s ! i = H_Left
      then Some (s\<lparr>handlers := (handlers s)[i := H_Done], main := if main s = M_Sleep then M_Test else main s\<rparr>) else None)"

inductive lc_step :: "lifecycle \<Rightarrow> lifecycle \<Rightarrow> bool" where
  "act a s = Some t \<Longrightarrow> lc_step s t"

inductive_simps lc_step_iff: "lc_step s t"

section \<open>The count\<close>

definition lc_inv :: "lifecycle \<Rightarrow> bool" where
  "lc_inv s \<longleftrightarrow> activeHandlers s = int (count_list (handlers s) H_Running) \<and>
     (main s = M_Done \<longrightarrow> activeHandlers s = 0) \<and>
     (main s \<notin> {M_Loop, M_Accept} \<longrightarrow> \<not> lc_running s)"

lemma count_list_mset: "count_list xs x = count (mset xs) x"
  by (induction xs) simp_all

lemma count_list_update:
  assumes "i < length xs"
  shows "int (count_list (xs[i := y]) x) =
    int (count_list xs x) - (if xs ! i = x then 1 else 0) + (if y = x then 1 else 0)"
proof -
  have "xs ! i \<in># mset xs" using assms by simp
  then have "0 < count (mset xs) (xs ! i)" by (simp add: count_greater_zero_iff)
  then show ?thesis using assms by (auto simp: count_list_mset mset_update)
qed

lemma act_inv:
  assumes "lc_inv s" and "act a s = Some t" shows "lc_inv t"
proof (cases a)
  case (Leave i)
  then have i: "i < length (handlers s)" "handlers s ! i = H_Running"
    and t: "t = s\<lparr>handlers := (handlers s)[i := H_Left], activeHandlers := activeHandlers s - 1\<rparr>"
    using assms(2) by (auto split: if_splits)
  have "H_Running \<in> set (handlers s)" using i by (metis nth_mem)
  then have "count_list (handlers s) H_Running \<noteq> 0" by (simp add: count_list_0_iff)
  then have "main s \<noteq> M_Done" using assms(1) by (auto simp: lc_inv_def)
  then show ?thesis using assms(1) i by (simp add: lc_inv_def t count_list_update)
qed (use assms in \<open>auto simp: lc_inv_def count_list_update split: if_splits\<close>)

lemma reachable_lc_inv:
  assumes "lc_step\<^sup>*\<^sup>* lc_start s" shows "lc_inv s"
  using assms
proof (induction rule: rtranclp_induct)
  case base
  show ?case by (simp add: lc_inv_def lc_start_def)
next
  case (step s t)
  then show ?case using act_inv by (auto simp: lc_step_iff)
qed

text \<open>Running a schedule.\<close>

fun run_actions :: "action list \<Rightarrow> lifecycle \<Rightarrow> lifecycle option" where
  "run_actions [] s = Some s"
| "run_actions (a # as) s = (case act a s of None \<Rightarrow> None | Some t \<Rightarrow> run_actions as t)"

lemma run_actions_reachable: "run_actions as s = Some t \<Longrightarrow> lc_step\<^sup>*\<^sup>* s t"
proof (induction as s rule: run_actions.induct)
  case (2 a as s)
  then obtain u where "act a s = Some u" "run_actions as u = Some t" by (auto split: option.splits)
  then show ?case using 2(1) by (meson converse_rtranclp_into_rtranclp lc_step.intros)
qed simp

section \<open>Properties\<close>

text \<open>
  C22: \<open>start\<close> returns only when no handler is serving a client. At every moment
  \<open>activeHandlers_\<close> is the number of handlers inside \<open>handleClient\<close>; when the main
  thread has returned from \<open>start\<close>, the node has been told to stop, every handler has left
  \<open>handleClient\<close>, and none will enter it again.
\<close>
theorem start_returns_after_handlers:
  assumes "lc_step\<^sup>*\<^sup>* lc_start s"
  shows "activeHandlers s = int (count_list (handlers s) H_Running) \<and>
    (main s = M_Done \<longrightarrow> \<not> lc_running s \<and>
      (\<forall>t. lc_step\<^sup>*\<^sup>* s t \<longrightarrow> main t = M_Done \<and> H_Running \<notin> set (handlers t)))"
proof -
  have "main t = M_Done \<and> lc_inv t" if "lc_step\<^sup>*\<^sup>* s t" "main s = M_Done" for t
    using that
  proof (induction rule: rtranclp_induct)
    case base
    then show ?case using reachable_lc_inv [OF assms] by simp
  next
    case (step u v)
    then obtain a where a: "act a u = Some v" and u: "main u = M_Done" "lc_inv u" by (auto simp: lc_step_iff)
    have "main v = M_Done" using a u(1) by (cases a) (auto split: if_splits)
    then show ?case using act_inv [OF u(2) a] by simp
  qed
  moreover have "H_Running \<notin> set (handlers t)" if "main t = M_Done \<and> lc_inv t" for t
    using that by (auto simp: lc_inv_def count_list_0_iff)
  ultimately have later: "main s = M_Done \<Longrightarrow> \<forall>t. lc_step\<^sup>*\<^sup>* s t \<longrightarrow> main t = M_Done \<and> H_Running \<notin> set (handlers t)"
    by blast
  have inv: "lc_inv s" using assms by (rule reachable_lc_inv)
  then have "main s = M_Done \<Longrightarrow> \<not> lc_running s" by (simp add: lc_inv_def)
  moreover have "activeHandlers s = int (count_list (handlers s) H_Running)" using inv unfolding lc_inv_def by (elim conjE)
  ultimately show ?thesis using later by blast
qed

abbreviation one_client :: "action list" where
  "one_client \<equiv> [Test_Running, Accept True, Test_Running, Die 0, Accept False, Test_Running, Lock]"

definition returned_early :: lifecycle where
  "returned_early = \<lparr>lc_running = False, activeHandlers = 0, main = M_Done, handlers = [H_Left]\<rparr>"

lemma returned_early_reachable: "lc_step\<^sup>*\<^sup>* lc_start returned_early"
  by (rule run_actions_reachable [of "one_client @ [Leave 0, Test_Pred]"]) (simp add: lc_start_def returned_early_def)

theorem start_returns_after_handlers_witness:
  "H_Running \<notin> set (handlers returned_early) \<and> activeHandlers returned_early = int (count_list (handlers returned_early) H_Running)"
  using start_returns_after_handlers [OF returned_early_reachable] by (simp add: returned_early_def)

text \<open>
  C23: The wake-up can be lost. There is a run in which the node has been stopped, the last
  handler has finished and notified, and the main thread sleeps in \<open>wait\<close> with the count
  at zero: no action is possible any more and \<open>start\<close> never returns. The handler
  decrements and notifies between the test of the predicate and the blocking, because it
  does not take \<open>handlersMutex_\<close>.
\<close>
theorem wakeup_can_be_lost:
  "\<exists>s. lc_step\<^sup>*\<^sup>* lc_start s \<and> main s = M_Sleep \<and> activeHandlers s = 0 \<and> set (handlers s) = {H_Done} \<and> (\<forall>t. \<not> lc_step s t)"
proof (intro exI conjI)
  let ?s = "\<lparr>lc_running = False, activeHandlers = 0, main = M_Sleep, handlers = [H_Done]\<rparr>"
  show "lc_step\<^sup>*\<^sup>* lc_start ?s"
    by (rule run_actions_reachable [of "one_client @ [Test_Pred, Leave 0, Notify 0, Block]"]) (simp add: lc_start_def)
  show "\<forall>t. \<not> lc_step ?s t"
  proof (intro allI notI)
    fix t assume "lc_step ?s t"
    then obtain a where "act a ?s = Some t" by (auto simp: lc_step_iff)
    then show False by (cases a) (auto split: if_splits)
  qed
qed simp_all

text \<open>
  A handler can outlive the node. There is a run in which \<open>start\<close> has returned, so
  that the caller destroys the node, while a handler has decremented the count and is about
  to call \<open>notify_one\<close> on the node's condition variable.
\<close>
theorem handler_can_outlive_node:
  "\<exists>s i t. lc_step\<^sup>*\<^sup>* lc_start s \<and> main s = M_Done \<and> i < length (handlers s) \<and> handlers s ! i = H_Left \<and> act (Notify i) s = Some t"
proof (intro exI conjI)
  show "lc_step\<^sup>*\<^sup>* lc_start returned_early" by (rule returned_early_reachable)
  show "act (Notify 0) returned_early = Some (returned_early\<lparr>handlers := [H_Done]\<rparr>)" by (simp add: returned_early_def)
qed (simp_all add: returned_early_def)

end
