(* ===== verification/Metadata_Node.thy ===== *)
theory Metadata_Node
  imports Text_Stream Storage_Node
begin

text \<open>
  \<^verbatim>\<open>src/src/metadata/metadata_node.cpp\<close> with \<^verbatim>\<open>src/src/common/file_metadata.hpp\<close>: one
  node of the replicated metadata chain. As for the storage node, a handler is cut at its
  receives. Unlike a storage node, a handler may call other nodes (\<open>forwardPut\<close> while it
  handles a \<open>PUT\<close>), so the handlers run in a world \<open>'w\<close> that holds this node and the
  rest of the cluster: \<open>commit\<close> writes this node's state into the world and \<open>forward\<close>
  is the call to the successor. The world of the cluster is supplied in \<open>Cluster\<close>.

  The locale \<open>node_world\<close> states what \<open>commit\<close> must satisfy; the lemmas about the
  handlers are proved in it, for any world.
\<close>

section \<open>Data\<close>

record file_metadata =
  meta_filename :: string
  meta_rootHash :: string
  meta_fileSize :: int
  meta_chunkSize :: int
  meta_totalChunks :: int
  meta_chunkHashes :: "string list"

definition no_metadata :: file_metadata where
  "no_metadata = \<lparr>meta_filename = [], meta_rootHash = [], meta_fileSize = 0, meta_chunkSize = 0,
     meta_totalChunks = 0, meta_chunkHashes = []\<rparr>"

datatype role = HEAD | MIDDLE | TAIL | SINGLE

record metadata_node =
  metadataStore :: "string \<rightharpoonup> file_metadata"
  meta_running :: bool
  nextNodeIp :: string
  nextNodePort :: int
  prevNodeIp :: string
  prevNodePort :: int
  skipToIp :: string
  skipToPort :: int
  role_of :: role
  myPort :: int

text \<open>The constructor and the fields \<open>start\<close> sets.\<close>

definition new_metadata_node :: "string \<Rightarrow> int \<Rightarrow> int \<Rightarrow> metadata_node" where
  "new_metadata_node ip nport port = \<lparr>metadataStore = Map.empty, meta_running = True,
     nextNodeIp = ip, nextNodePort = nport, prevNodeIp = [], prevNodePort = -1,
     skipToIp = [], skipToPort = -1, role_of = (if nport = -1 then TAIL else HEAD), myPort = port\<rparr>"

section \<open>Text of the commands\<close>

definition parse_hashes :: "string \<Rightarrow> string list" where
  "parse_hashes s = filter (\<lambda>h. h \<noteq> []) (get_lines CHR '','' s)"

text \<open>The extraction at the head of \<open>handlePut\<close>; \<open>None\<close> is the \<open>ERROR_ARGS\<close> return.\<close>

definition parse_put :: "string \<Rightarrow> file_metadata option" where
  "parse_put command =
     (let (op, iss) = read_word [] (open_stream command);
          (filename, iss) = read_word [] iss;
          (fileSize, iss) = read_i64 0 iss;
          (chunkSize, iss) = read_i32 0 iss;
          (totalChunks, iss) = read_i32 0 iss;
          (rootHash, iss) = read_word [] iss;
          (hashesStr, iss) = read_word [] iss
      in if failed iss then None
         else Some \<lparr>meta_filename = filename, meta_rootHash = rootHash, meta_fileSize = fileSize,
                    meta_chunkSize = chunkSize, meta_totalChunks = totalChunks,
                    meta_chunkHashes = parse_hashes hashesStr\<rparr>)"

definition found_message :: "file_metadata \<Rightarrow> string" where
  "found_message meta =
     ''FOUND '' @ to_string (meta_fileSize meta) @ '' '' @ to_string (meta_chunkSize meta) @ '' ''
     @ to_string (meta_totalChunks meta) @ '' '' @ meta_rootHash meta @ '' ''
     @ join_with CHR '','' (meta_chunkHashes meta)"

definition role_name :: "role \<Rightarrow> string" where
  "role_name r = (if r = HEAD then ''HEAD'' else if r = MIDDLE then ''MIDDLE'' else if r = TAIL then ''TAIL'' else ''SINGLE'')"

definition status_message :: "metadata_node \<Rightarrow> string" where
  "status_message n = ''ROLE='' @ role_name (role_of n) @ '' NEXT='' @ to_string (nextNodePort n)
     @ '' PREV='' @ to_string (prevNodePort n)"

section \<open>Handlers\<close>

definition handleGet :: "string \<Rightarrow> metadata_node \<Rightarrow> string" where
  "handleGet filename n =
     (if role_of n \<noteq> TAIL \<and> role_of n \<noteq> SINGLE then ''REDIRECT_TO_TAIL''
      else case metadataStore n filename of
             None \<Rightarrow> ''NOT_FOUND''
           | Some meta \<Rightarrow> found_message meta)"

text \<open>
  \<open>handlePut\<close>: store locally, then forward along the chain, then answer. A forward that
  never returns leaves the handler blocked.
\<close>

definition handlePut :: "(metadata_node \<Rightarrow> 'w \<Rightarrow> 'w) \<Rightarrow> (string \<Rightarrow> int \<Rightarrow> string \<Rightarrow> 'w \<Rightarrow> bool outcome \<times> 'w)
    \<Rightarrow> string \<Rightarrow> metadata_node \<Rightarrow> 'w \<Rightarrow> string outcome \<times> 'w" where
  "handlePut commit forward command n w =
     (case parse_put command of
        None \<Rightarrow> (Ret ''ERROR_ARGS'', w)
      | Some meta \<Rightarrow>
          let n' = n\<lparr>metadataStore := (metadataStore n)(meta_filename meta \<mapsto> meta)\<rparr>;
              w = commit n' w
          in if role_of n' \<noteq> TAIL \<and> role_of n' \<noteq> SINGLE \<and> nextNodePort n' \<noteq> -1
             then (case forward (nextNodeIp n') (nextNodePort n') command w of
                     (Ret True, w) \<Rightarrow> (Ret ''ACK'', w)
                   | (Ret False, w) \<Rightarrow> (Ret ''ERROR_FORWARD'', w)
                   | (Throw e, w) \<Rightarrow> (Throw e, w)
                   | (Hang, w) \<Rightarrow> (Hang, w))
             else (Ret ''ACK'', w))"

text \<open>\<^verbatim>\<open>iss >> ip >> port\<close> after the command word.\<close>

definition read_ip_port :: "istream \<Rightarrow> (string \<times> int) option" where
  "read_ip_port iss =
     (let (ip, iss) = read_word [] iss; (port, iss) = read_i32 0 iss
      in if failed iss then None else Some (ip, port))"

definition update_prev :: "string \<Rightarrow> int \<Rightarrow> metadata_node \<Rightarrow> metadata_node" where
  "update_prev ip port n =
     (let n = n\<lparr>prevNodeIp := ip, prevNodePort := port\<rparr>;
          n = (if role_of n = HEAD then n\<lparr>role_of := MIDDLE\<rparr> else n)
      in if role_of n = SINGLE then n\<lparr>role_of := TAIL\<rparr> else n)"

definition update_next :: "string \<Rightarrow> int \<Rightarrow> metadata_node \<Rightarrow> metadata_node" where
  "update_next ip port n =
     (let n = n\<lparr>nextNodeIp := ip, nextNodePort := port\<rparr>;
          n = (if role_of n = TAIL then n\<lparr>role_of := MIDDLE\<rparr> else n)
      in if role_of n = SINGLE then n\<lparr>role_of := HEAD\<rparr> else n)"

definition set_skip :: "string \<Rightarrow> int \<Rightarrow> metadata_node \<Rightarrow> metadata_node" where
  "set_skip ip port n = n\<lparr>skipToIp := ip, skipToPort := port\<rparr>"

text \<open>
  The command loop's body. A command with a missing argument (\<open>GET\<close>, \<open>UPDATE_PREV\<close>,
  \<open>UPDATE_NEXT\<close>, \<open>SET_SKIP\<close>) is answered with nothing at all.
\<close>

definition metadata_command :: "(metadata_node \<Rightarrow> 'w \<Rightarrow> 'w) \<Rightarrow> (string \<Rightarrow> int \<Rightarrow> string \<Rightarrow> 'w \<Rightarrow> bool outcome \<times> 'w)
    \<Rightarrow> string \<Rightarrow> metadata_node \<Rightarrow> 'w \<Rightarrow> control \<times> bytes list \<times> 'w" where
  "metadata_command commit forward command n w =
     (let (op, iss) = read_word [] (open_stream command);
          reconfigure = (\<lambda>update. case read_ip_port iss of
              None \<Rightarrow> (AwaitCommand, [], w)
            | Some (ip, port) \<Rightarrow> (AwaitCommand, [bytes_of_string ''ACK''], commit (update ip port n) w))
      in
      if op = ''PUT'' then
        (case handlePut commit forward command n w of
           (Ret reply, w) \<Rightarrow> (AwaitCommand, [bytes_of_string reply], w)
         | (Throw e, w) \<Rightarrow> (Stuck, [], w)
         | (Hang, w) \<Rightarrow> (Stuck, [], w))
      else if op = ''GET'' then
        let (filename, iss) = read_word [] iss in
        if failed iss then (AwaitCommand, [], w)
        else (AwaitCommand, [bytes_of_string (handleGet filename n)], w)
      else if op = ''PING'' then (AwaitCommand, [bytes_of_string ''PONG''], w)
      else if op = ''UPDATE_PREV'' then reconfigure update_prev
      else if op = ''UPDATE_NEXT'' then reconfigure update_next
      else if op = ''SET_SKIP'' then reconfigure set_skip
      else if op = ''GET_STATUS'' then (AwaitCommand, [bytes_of_string (status_message n)], w)
      else if op = ''DIE'' then (Closed, [], commit (n\<lparr>meta_running := False\<rparr>) w)
      else (AwaitCommand, [bytes_of_string ''ERROR''], w))"

definition metadata_step :: "(metadata_node \<Rightarrow> 'w \<Rightarrow> 'w) \<Rightarrow> (string \<Rightarrow> int \<Rightarrow> string \<Rightarrow> 'w \<Rightarrow> bool outcome \<times> 'w)
    \<Rightarrow> control \<Rightarrow> bytes \<Rightarrow> metadata_node \<Rightarrow> 'w \<Rightarrow> control \<times> bytes list \<times> 'w" where
  "metadata_step commit forward c payload n w =
     (case c of
        AwaitCommand \<Rightarrow>
          if \<not> meta_running n \<or> payload = [] then (Closed, [], w)
          else metadata_command commit forward (string_of_bytes payload) n w
      | AwaitData h \<Rightarrow> (c, [], w)
      | Closed \<Rightarrow> (Closed, [], w)
      | Stuck \<Rightarrow> (Stuck, [], w))"

section \<open>Failure of the successor\<close>

text \<open>
  The state change of \<open>handleNextNodeFailure\<close>; the flag says whether it then runs
  \<open>notifyNextOfPredecessor\<close>.
\<close>

definition handleNextNodeFailure :: "metadata_node \<Rightarrow> metadata_node \<times> bool" where
  "handleNextNodeFailure n =
     (if skipToPort n \<noteq> -1
      then (n\<lparr>nextNodeIp := skipToIp n, nextNodePort := skipToPort n, skipToIp := [], skipToPort := -1\<rparr>, True)
      else (n\<lparr>nextNodeIp := [], nextNodePort := -1,
              role_of := (if prevNodePort n = -1 then SINGLE else TAIL)\<rparr>, False))"

definition notify_message :: "metadata_node \<Rightarrow> string" where
  "notify_message n = ''UPDATE_PREV 127.0.0.1 '' @ to_string (myPort n)"

text \<open>One pass of \<open>healthCheckLoop\<close> after the sleep, given \<open>pingNext\<close> and the notification.\<close>

definition health_check :: "(metadata_node \<Rightarrow> 'w \<Rightarrow> 'w) \<Rightarrow> (metadata_node \<Rightarrow> 'w \<Rightarrow> bool outcome \<times> 'w)
    \<Rightarrow> (metadata_node \<Rightarrow> 'w \<Rightarrow> 'w) \<Rightarrow> metadata_node \<Rightarrow> 'w \<Rightarrow> unit outcome \<times> 'w" where
  "health_check commit ping notify n w =
     (if nextNodePort n \<noteq> -1
      then (case ping n w of
              (Ret True, w) \<Rightarrow> (Ret (), w)
            | (Ret False, w) \<Rightarrow>
                (let (n', tell) = handleNextNodeFailure n; w = commit n' w
                 in (Ret (), if tell then notify n' w else w))
            | (Throw e, w) \<Rightarrow> (Throw e, w)
            | (Hang, w) \<Rightarrow> (Hang, w))
      else (Ret (), w))"

section \<open>Reading a command back\<close>

text \<open>What the text protocol can carry: words without blanks, hashes without commas.\<close>

definition wf_metadata :: "file_metadata \<Rightarrow> bool" where
  "wf_metadata m \<longleftrightarrow> is_word (meta_filename m) \<and> is_word (meta_rootHash m) \<and>
     INT64_MIN \<le> meta_fileSize m \<and> meta_fileSize m \<le> INT64_MAX \<and>
     INT_MIN \<le> meta_chunkSize m \<and> meta_chunkSize m \<le> INT_MAX \<and>
     INT_MIN \<le> meta_totalChunks m \<and> meta_totalChunks m \<le> INT_MAX \<and>
     meta_chunkHashes m \<noteq> [] \<and> (\<forall>h \<in> set (meta_chunkHashes m). is_word h \<and> CHR '','' \<notin> set h)"

text \<open>The command \<open>Client::putMetadataToNode\<close> sends.\<close>

definition put_message :: "file_metadata \<Rightarrow> string" where
  "put_message m =
     ''PUT '' @ meta_filename m @ '' '' @ to_string (meta_fileSize m) @ '' '' @ to_string (meta_chunkSize m)
     @ '' '' @ to_string (meta_totalChunks m) @ '' '' @ meta_rootHash m @ '' ''
     @ join_with CHR '','' (meta_chunkHashes m)"

lemma parse_hashes_join [text_simps]:
  assumes "\<forall>h \<in> set hs. is_word h \<and> CHR '','' \<notin> set h"
  shows "parse_hashes (join_with CHR '','' hs) = hs"
proof -
  have "get_lines CHR '','' (join_with CHR '','' hs) = hs"
    using assms by (intro get_lines_join) (auto simp: is_word_def)
  moreover have "filter (\<lambda>h. h \<noteq> []) hs = hs" using assms by (intro filter_True) (auto simp: is_word_def)
  ultimately show ?thesis by (simp add: parse_hashes_def)
qed

lemma is_word_hashes:
  "hs \<noteq> [] \<Longrightarrow> \<forall>h \<in> set hs. is_word h \<and> CHR '','' \<notin> set h \<Longrightarrow> is_word (join_with CHR '','' hs)"
  by (rule is_word_join) (auto simp: is_space_def)

lemma read_word_PUT: "read_word old (open_stream (''PUT '' @ t)) = (''PUT'', \<lparr>rest = CHR '' '' # t, failed = False\<rparr>)"
  using read_word_cmd [of "''PUT''" old t] by simp

lemma parse_put_message:
  assumes "wf_metadata m"
  shows "parse_put (put_message m) = Some m"
proof -
  have w: "is_word (meta_filename m)" "is_word (meta_rootHash m)" "is_word (join_with CHR '','' (meta_chunkHashes m))"
    using assms is_word_hashes by (auto simp: wf_metadata_def)
  have "parse_put (put_message m) =
    Some \<lparr>meta_filename = meta_filename m, meta_rootHash = meta_rootHash m, meta_fileSize = meta_fileSize m,
      meta_chunkSize = meta_chunkSize m, meta_totalChunks = meta_totalChunks m,
      meta_chunkHashes = parse_hashes (join_with CHR '','' (meta_chunkHashes m))\<rparr>"
    using assms w read_word_PUT [of "[]"]
    by (simp add: parse_put_def put_message_def text_simps wf_metadata_def)
  also have "\<dots> = Some m" using assms by (simp add: wf_metadata_def text_simps)
  finally show ?thesis .
qed

lemma found_message_length:
  "is_word (meta_filename m) \<Longrightarrow> length (found_message m) \<le> length (put_message m)"
  by (cases "meta_filename m") (auto simp: found_message_def put_message_def is_word_def)

section \<open>Handlers in any world\<close>

definition stored :: "file_metadata \<Rightarrow> metadata_node \<Rightarrow> metadata_node" where
  "stored m n = n\<lparr>metadataStore := (metadataStore n)(meta_filename m \<mapsto> m)\<rparr>"

definition forwards :: "metadata_node \<Rightarrow> bool" where
  "forwards n \<longleftrightarrow> role_of n \<noteq> TAIL \<and> role_of n \<noteq> SINGLE \<and> nextNodePort n \<noteq> -1"

lemma stored_simps [simp]:
  "meta_running (stored m n) = meta_running n" "role_of (stored m n) = role_of n"
  "nextNodeIp (stored m n) = nextNodeIp n" "nextNodePort (stored m n) = nextNodePort n"
  "forwards (stored m n) = forwards n"
  "metadataStore (stored m n) = (metadataStore n)(meta_filename m \<mapsto> m)"
  by (simp_all add: stored_def forwards_def)

locale node_world =
  fixes here :: "'w \<Rightarrow> metadata_node option"
    and commit :: "metadata_node \<Rightarrow> 'w \<Rightarrow> 'w"
  assumes here_commit: "here w = Some n \<Longrightarrow> here (commit n' w) = Some n'"
begin

lemma handlePut_last:
  assumes "parse_put cmd = Some m" and "\<not> forwards n"
  shows "handlePut commit fwd cmd n w = (Ret ''ACK'', commit (stored m n) w)"
  using assms by (auto simp: handlePut_def stored_def forwards_def Let_def)

lemma handlePut_forward:
  assumes "parse_put cmd = Some m" and "forwards n"
    and "fwd (nextNodeIp n) (nextNodePort n) cmd (commit (stored m n) w) = (Ret b, w')"
  shows "handlePut commit fwd cmd n w = (Ret (if b then ''ACK'' else ''ERROR_FORWARD''), w')"
  using assms by (cases b) (auto simp: handlePut_def stored_def forwards_def Let_def)

text \<open>A read at the node that acknowledged as the end of the chain sees the write.\<close>

lemma read_own_write:
  assumes "here w = Some n" and "parse_put cmd = Some m" and "role_of n = TAIL \<or> role_of n = SINGLE"
  shows "\<exists>n'. here (snd (handlePut commit fwd cmd n w)) = Some n' \<and> handleGet (meta_filename m) n' = found_message m"
proof -
  have "handlePut commit fwd cmd n w = (Ret ''ACK'', commit (stored m n) w)"
    using assms by (intro handlePut_last) (auto simp: forwards_def)
  moreover have "handleGet (meta_filename m) (stored m n) = found_message m"
    using assms(3) by (auto simp: handleGet_def stored_def)
  ultimately show ?thesis using here_commit [OF assms(1)] by auto
qed

lemma rejected_put_changes_nothing:
  "parse_put cmd = None \<Longrightarrow> handlePut commit fwd cmd n w = (Ret ''ERROR_ARGS'', w)"
  by (simp add: handlePut_def)

end

lemma metadata_command_PUT:
  assumes "fst (read_word [] (open_stream cmd)) = ''PUT''"
  shows "metadata_command commit fwd cmd n w =
    (case handlePut commit fwd cmd n w of
       (Ret reply, w) \<Rightarrow> (AwaitCommand, [bytes_of_string reply], w)
     | (Throw e, w) \<Rightarrow> (Stuck, [], w)
     | (Hang, w) \<Rightarrow> (Stuck, [], w))"
proof -
  obtain iss where "read_word [] (open_stream cmd) = (''PUT'', iss)" using assms by (metis prod.collapse)
  then show ?thesis by (simp add: metadata_command_def)
qed

lemma metadata_command_GET:
  "is_word f \<Longrightarrow> metadata_command commit fwd (''GET '' @ f) n w =
   (AwaitCommand, [bytes_of_string (handleGet f n)], w)"
  using read_word_cmd [of "''GET''" "[]" f] by (simp add: metadata_command_def text_simps)

end
