(* ===== verification/Node_Invariant.thy ===== *)
theory Node_Invariant
  imports Metadata_Node
begin

text \<open>
  One metadata node (\<^verbatim>\<open>src/src/metadata/metadata_node.cpp\<close>) over its whole life: whatever
  commands arrive on its connections, however the handlers interleave, whatever the calls to
  the successor return, and whenever the health check finds the successor dead. A handler
  changes the node in one critical section (the store of \<open>handlePut\<close> under \<open>storeMutex_\<close>,
  the reconfigurations under \<open>chainMutex_\<close>), so a life is a sequence of whole commands
  and failures; the answer of \<open>forwardPut\<close> is arbitrary.

  The world of the handlers is here the node alone, which interprets \<open>node_world\<close> a second
  time.
\<close>

section \<open>The life of a node\<close>

abbreviation alone :: "metadata_node \<Rightarrow> metadata_node \<Rightarrow> metadata_node" where
  "alone n' n \<equiv> n'"

interpretation own: node_world Some alone
  by unfold_locales simp

inductive node_step :: "metadata_node \<Rightarrow> metadata_node \<Rightarrow> bool" where
  command: "metadata_step alone (\<lambda>ip port cmd w. (answer, w)) c payload n n = (c', out, n') \<Longrightarrow> node_step n n'"
| failure: "meta_running n \<Longrightarrow> nextNodePort n \<noteq> -1 \<Longrightarrow> handleNextNodeFailure n = (n', tell) \<Longrightarrow> node_step n n'"

inductive_cases node_stepE: "node_step n n'"

section \<open>What extraction can yield\<close>

lemma read_word_word:
  assumes "read_word old i = (w, j)" and "\<not> failed j"
  shows "is_word w \<and> \<not> failed i"
proof -
  let ?r = "dropWhile is_space (rest i)"
  from assms have r: "?r \<noteq> []" "\<not> failed i" "w = takeWhile (\<lambda>c. \<not> is_space c) ?r"
    by (auto simp: read_word_def Let_def split: if_splits)
  then have "\<not> is_space (hd ?r)" using hd_dropWhile by blast
  then have "w \<noteq> []" using r by (cases ?r) auto
  moreover have "list_all (\<lambda>c. \<not> is_space c) w" using r(3) by (auto simp: list_all_iff dest: set_takeWhileD)
  ultimately show ?thesis using r(2) by (simp add: is_word_def)
qed

lemma read_int_value:
  assumes "read_int lo hi old i = (v, j)" and "lo \<le> hi" and "\<not> failed j"
  shows "lo \<le> v \<and> v \<le> hi \<and> \<not> failed i"
  using read_int_range [OF assms(2), of old i] assms read_int_failed [of i lo hi old] by auto

lemma get_line_set: "get_line d s = Some (l, r) \<Longrightarrow> d \<notin> set l \<and> set l \<subseteq> set s \<and> set r \<subseteq> set s"
  by (auto simp: get_line_def split: if_splits dest: set_takeWhileD in_set_dropD set_dropWhileD)

lemma get_lines_set: "x \<in> set (get_lines d s) \<Longrightarrow> d \<notin> set x \<and> set x \<subseteq> set s"
proof (induction d s rule: get_lines.induct)
  case (1 d s)
  show ?case
  proof (cases "get_line d s")
    case None
    then show ?thesis using 1(2) by (subst (asm) get_lines.simps) simp
  next
    case (Some p)
    then obtain l r where p: "get_line d s = Some (l, r)" by (cases p) auto
    with 1(2) have "x = l \<or> x \<in> set (get_lines d r)" by (subst (asm) get_lines.simps) simp
    then show ?thesis using 1(1) [OF p refl] get_line_set [OF p] by blast
  qed
qed

lemma parse_hashes_words: "is_word s \<Longrightarrow> h \<in> set (parse_hashes s) \<Longrightarrow> is_word h \<and> CHR '','' \<notin> set h"
  using get_lines_set [of h "CHR '',''" s] by (auto simp: parse_hashes_def is_word_def list_all_iff)

section \<open>The invariant\<close>

text \<open>A record that came out of a command line.\<close>

definition record_ok :: "file_metadata \<Rightarrow> bool" where
  "record_ok m \<longleftrightarrow> is_word (meta_filename m) \<and> is_word (meta_rootHash m) \<and>
     INT64_MIN \<le> meta_fileSize m \<and> meta_fileSize m \<le> INT64_MAX \<and>
     INT_MIN \<le> meta_chunkSize m \<and> meta_chunkSize m \<le> INT_MAX \<and>
     INT_MIN \<le> meta_totalChunks m \<and> meta_totalChunks m \<le> INT_MAX \<and>
     (\<forall>h \<in> set (meta_chunkHashes m). is_word h \<and> CHR '','' \<notin> set h)"

definition node_inv :: "metadata_node \<Rightarrow> bool" where
  "node_inv n \<longleftrightarrow> (role_of n = TAIL \<or> role_of n = SINGLE \<longrightarrow> nextNodePort n = -1) \<and>
     (\<forall>f m. metadataStore n f = Some m \<longrightarrow> meta_filename m = f \<and> record_ok m)"

lemma parse_put_ok:
  assumes "parse_put cmd = Some m" shows "record_ok m"
proof -
  obtain op i1 where 1: "read_word [] (open_stream cmd) = (op, i1)" by fastforce
  obtain f i2 where 2: "read_word [] i1 = (f, i2)" by fastforce
  obtain sz i3 where 3: "read_i64 0 i2 = (sz, i3)" by fastforce
  obtain cs i4 where 4: "read_i32 0 i3 = (cs, i4)" by fastforce
  obtain tc i5 where 5: "read_i32 0 i4 = (tc, i5)" by fastforce
  obtain rh i6 where 6: "read_word [] i5 = (rh, i6)" by fastforce
  obtain hs i7 where 7: "read_word [] i6 = (hs, i7)" by fastforce
  note parsed = 1 2 3 4 5 6 7
  have ok: "\<not> failed i7" and m: "m = \<lparr>meta_filename = f, meta_rootHash = rh, meta_fileSize = sz,
      meta_chunkSize = cs, meta_totalChunks = tc, meta_chunkHashes = parse_hashes hs\<rparr>"
    using assms parsed by (auto simp: parse_put_def split: if_splits)
  have w7: "is_word hs" "\<not> failed i6" using read_word_word [OF 7 ok] by simp_all
  then have w6: "is_word rh" "\<not> failed i5" using read_word_word [OF 6] by simp_all
  then have w5: "INT_MIN \<le> tc \<and> tc \<le> INT_MAX" "\<not> failed i4" using read_int_value [OF 5] by simp_all
  then have w4: "INT_MIN \<le> cs \<and> cs \<le> INT_MAX" "\<not> failed i3" using read_int_value [OF 4] by simp_all
  then have w3: "INT64_MIN \<le> sz \<and> sz \<le> INT64_MAX" "\<not> failed i2" using read_int_value [OF 3] by simp_all
  then have "is_word f" using read_word_word [OF 2] by simp
  then show ?thesis using w7 w6 w5 w4 w3 parse_hashes_words by (simp add: m record_ok_def)
qed

lemma node_inv_stored: "node_inv n \<Longrightarrow> record_ok m \<Longrightarrow> node_inv (stored m n)"
  by (simp add: node_inv_def)

lemma handlePut_inv:
  assumes "node_inv n"
  shows "node_inv (snd (handlePut alone (\<lambda>ip port cmd w. (answer, w)) cmd n n))"
proof (cases "parse_put cmd")
  case None
  then show ?thesis using assms own.rejected_put_changes_nothing by simp
next
  case (Some m)
  then have "node_inv (stored m n)" using assms parse_put_ok node_inv_stored by blast
  then show ?thesis using Some
    by (auto simp: handlePut_def stored_def Let_def split: outcome.splits bool.splits)
qed

lemma node_inv_reconfigure:
  assumes "node_inv n"
  shows "node_inv (update_prev ip port n)" and "node_inv (update_next ip port n)" and "node_inv (set_skip ip port n)"
  using assms by (auto simp: node_inv_def update_prev_def update_next_def set_skip_def Let_def)

lemma node_inv_die: "node_inv n \<Longrightarrow> node_inv (n\<lparr>meta_running := False\<rparr>)"
  by (simp add: node_inv_def)

lemma metadata_command_inv:
  assumes "node_inv n" and "metadata_command alone (\<lambda>ip port cmd w. (answer, w)) cmd n n = (c, out, n')"
  shows "node_inv n'"
  using assms(2) handlePut_inv [OF assms(1), of answer cmd] assms(1)
  by (auto simp: metadata_command_def Let_def node_inv_reconfigure node_inv_die
      split: prod.splits outcome.splits if_splits option.splits)

lemma node_step_inv:
  assumes "node_step n n'" and "node_inv n"
  shows "node_inv n'"
  using assms
proof (cases rule: node_step.cases)
  case (command answer c payload c' out)
  then show ?thesis using metadata_command_inv [OF assms(2)] assms(2)
    by (auto simp: metadata_step_def split: control.splits if_splits)
next
  case (failure tell)
  then show ?thesis using assms(2) by (auto simp: handleNextNodeFailure_def node_inv_def split: if_splits)
qed

lemma node_inv_new: "node_inv (new_metadata_node ip nport port)"
  by (simp add: node_inv_def new_metadata_node_def)

section \<open>Properties\<close>

text \<open>
  C12: What every metadata node satisfies at every moment. A node whose role is tail or
  single has no successor, so the three conditions under which \<open>handlePut\<close> forwards amount
  to having a successor port; and every stored record is filed under its own name, with a
  name, a root and hashes free of blanks (and commas) and its numbers in range.
\<close>
theorem reachable_node_inv:
  assumes "node_step\<^sup>*\<^sup>* (new_metadata_node ip nport port) n"
  shows "(role_of n = TAIL \<or> role_of n = SINGLE \<longrightarrow> nextNodePort n = -1)
    \<and> (forwards n \<longleftrightarrow> nextNodePort n \<noteq> -1)
    \<and> (\<forall>f m. metadataStore n f = Some m \<longrightarrow> meta_filename m = f \<and> record_ok m)"
proof -
  from assms have "node_inv n"
    by (induction rule: rtranclp_induct) (auto intro: node_inv_new node_step_inv)
  then show ?thesis by (auto simp: node_inv_def forwards_def)
qed

theorem reachable_node_inv_witness:
  "forwards (update_next ''10.0.0.7'' 9004 (new_metadata_node [] (-1) 9003)) \<longleftrightarrow> (9004::int) \<noteq> -1"
proof -
  let ?n = "new_metadata_node [] (-1) 9003" and ?n' = "update_next ''10.0.0.7'' 9004 (new_metadata_node [] (-1) 9003)"
  have "metadata_step alone (\<lambda>ip port cmd w. (Hang, w)) AwaitCommand (bytes_of_string ''UPDATE_NEXT 10.0.0.7 9004'') ?n ?n =
      (AwaitCommand, [bytes_of_string ''ACK''], ?n')"
    by (simp add: metadata_step_def new_metadata_node_def metadata_command_def open_stream_def read_word_def
        is_space_def read_ip_port_def read_int_def split_sign_def is_digit_def digits_val_def digit_val_def Let_def)
  then have "node_step\<^sup>*\<^sup>* ?n ?n'" by (intro r_into_rtranclp command)
  from reachable_node_inv [OF this] show ?thesis by (simp add: update_next_def new_metadata_node_def Let_def)
qed

text \<open>
  The end of the chain reads its own writes. A node of role tail or single answers \<open>ACK\<close> to
  every well-formed \<open>PUT\<close>, and a \<open>GET\<close> of that name right after it returns the record
  just written, whatever was stored before and whatever the network does.
\<close>
theorem tail_reads_own_write:
  assumes "role_of n = TAIL \<or> role_of n = SINGLE" and "wf_metadata m"
  shows "\<exists>n'. handlePut alone forward (put_message m) n n = (Ret ''ACK'', n') \<and> handleGet (meta_filename m) n' = found_message m"
proof -
  have "\<not> forwards n" using assms(1) by (auto simp: forwards_def)
  then have "handlePut alone forward (put_message m) n n = (Ret ''ACK'', stored m n)"
    using own.handlePut_last [OF parse_put_message [OF assms(2)]] by blast
  then show ?thesis using own.read_own_write [OF refl parse_put_message [OF assms(2)] assms(1), of forward] by auto
qed

theorem tail_reads_own_write_witness:
  "\<exists>n'. handlePut alone (\<lambda>ip port cmd w. (Hang, w))
      (put_message \<lparr>meta_filename = ''f'', meta_rootHash = ''r'', meta_fileSize = 1, meta_chunkSize = 1,
         meta_totalChunks = 1, meta_chunkHashes = [''h'']\<rparr>)
      (new_metadata_node [] (-1) 9003) (new_metadata_node [] (-1) 9003) = (Ret ''ACK'', n')"
  using tail_reads_own_write [of "new_metadata_node [] (-1) 9003"
      "\<lparr>meta_filename = ''f'', meta_rootHash = ''r'', meta_fileSize = 1, meta_chunkSize = 1,
         meta_totalChunks = 1, meta_chunkHashes = [''h'']\<rparr>" "\<lambda>ip port cmd w. (Hang, w)"]
  by (auto simp: new_metadata_node_def wf_metadata_def is_word_def is_space_def)

end
