(* ===== verification/Cluster.thy ===== *)
theory Cluster
  imports Metadata_Node
begin

text \<open>
  The cluster a client talks to: which server listens at which address, connections as
  byte streams in both directions, and the server loops run over them. Every message
  passes through the framing of \<open>Tcp_Framing\<close>.

  Name resolution (\<open>inet_pton\<close>) is a parameter of the network. A port is cut to 16 bits
  (\<^verbatim>\<open>htons(static_cast<uint16_t>(port))\<close>). A server whose \<open>running_\<close> flag is down
  refuses connections. A read on a stream that holds no whole frame blocks for ever while
  the peer lives and returns the empty vector once it has closed.

  \<open>forwardPut\<close> (\<^verbatim>\<open>src/src/metadata/metadata_node.cpp\<close>) lets a handler call the handler
  of the next node. The depth of such calls is bounded by a fuel argument; running out of
  it stands for a chain that forwards for ever. \<open>chain_put\<close> shows that the number of
  nodes behind the head is enough.
\<close>

section \<open>Servers and connections\<close>

datatype server = StorageServer storage_node | MetadataServer metadata_node

type_synonym endpoint = "32 word \<times> 16 word"

record network =
  resolve :: "string \<Rightarrow> 32 word option"
  hosts :: "endpoint \<rightharpoonup> server"

fun server_up :: "server \<Rightarrow> bool" where
  "server_up (StorageServer n) = storage_running n"
| "server_up (MetadataServer n) = meta_running n"

definition set_host :: "endpoint \<Rightarrow> server \<Rightarrow> network \<Rightarrow> network" where
  "set_host e s net = net\<lparr>hosts := (hosts net)(e \<mapsto> s)\<rparr>"

record connection =
  peer :: endpoint
  ctl :: control
  to_server :: bytes
  to_client :: bytes

definition fresh :: "endpoint \<Rightarrow> connection" where
  "fresh e = \<lparr>peer = e, ctl = AwaitCommand, to_server = [], to_client = []\<rparr>"

definition endpoint_of :: "network \<Rightarrow> string \<Rightarrow> int \<Rightarrow> endpoint option" where
  "endpoint_of net ip port = map_option (\<lambda>a. (a, word_of_int port)) (resolve net ip)"

text \<open>\<open>TCPClient::connect\<close>: an address that does not parse, or nobody accepting, is a failure.\<close>

definition connect :: "network \<Rightarrow> string \<Rightarrow> int \<Rightarrow> connection option" where
  "connect net ip port =
     (case endpoint_of net ip port of
        None \<Rightarrow> None
      | Some e \<Rightarrow>
          (case hosts net e of
             None \<Rightarrow> None
           | Some s \<Rightarrow> if server_up s then Some (fresh e) else None))"

fun receiving :: "control \<Rightarrow> bool" where
  "receiving AwaitCommand = True"
| "receiving (AwaitData h) = True"
| "receiving Closed = False"
| "receiving Stuck = False"

section \<open>Running a connection\<close>

type_synonym serve = "endpoint \<Rightarrow> control \<Rightarrow> bytes \<Rightarrow> network \<Rightarrow> control \<times> bytes list \<times> network"

text \<open>The server's loop on one connection, until it blocks in a receive, closes or hangs.\<close>

function run_server :: "serve \<Rightarrow> connection \<Rightarrow> network \<Rightarrow> connection \<times> network" where
  "run_server serve c net =
     (if \<not> receiving (ctl c) then (c, net)
      else case take_frame (to_server c) of
             None \<Rightarrow> (c, net)
           | Some (payload, later) \<Rightarrow>
               let (ctl', out, net') = serve (peer c) (ctl c) payload net
               in run_server serve
                    (c\<lparr>ctl := ctl', to_server := later, to_client := to_client c @ concat (map frame out)\<rparr>) net')"
  by pat_completeness auto
termination
  by (relation "measure (\<lambda>(s, c, net). length (to_server c))") (auto dest: take_frame_shorter)

declare run_server.simps [simp del]

definition sendData :: "serve \<Rightarrow> bytes \<Rightarrow> connection \<Rightarrow> network \<Rightarrow> connection \<times> network" where
  "sendData serve d c net = run_server serve (c\<lparr>to_server := to_server c @ frame d\<rparr>) net"

definition sendMessage :: "serve \<Rightarrow> string \<Rightarrow> connection \<Rightarrow> network \<Rightarrow> connection \<times> network" where
  "sendMessage serve msg c net = sendData serve (bytes_of_string msg) c net"

definition recvData :: "connection \<Rightarrow> bytes outcome \<times> connection" where
  "recvData c =
     (case take_frame (to_client c) of
        Some (d, later) \<Rightarrow> (Ret d, c\<lparr>to_client := later\<rparr>)
      | None \<Rightarrow> if ctl c = Closed then (Ret [], c\<lparr>to_client := []\<rparr>) else (Hang, c))"

definition recvMessage :: "connection \<Rightarrow> string outcome \<times> connection" where
  "recvMessage c =
     (case recvData c of
        (Ret d, c) \<Rightarrow> (Ret (if d = [] then [] else string_of_bytes d), c)
      | (Throw e, c) \<Rightarrow> (Throw e, c)
      | (Hang, c) \<Rightarrow> (Hang, c))"

section \<open>The servers' handlers in the network\<close>

definition serve_with :: "(string \<Rightarrow> int \<Rightarrow> string \<Rightarrow> network \<Rightarrow> bool outcome \<times> network) \<Rightarrow> serve" where
  "serve_with forward e c payload net =
     (case hosts net e of
        None \<Rightarrow> (Closed, [], net)
      | Some (StorageServer n) \<Rightarrow>
          (let (c', out, n') = storage_step c payload n in (c', out, set_host e (StorageServer n') net))
      | Some (MetadataServer n) \<Rightarrow>
          metadata_step (\<lambda>n' w. set_host e (MetadataServer n') w) forward c payload n net)"

fun forwardPut :: "nat \<Rightarrow> string \<Rightarrow> int \<Rightarrow> string \<Rightarrow> network \<Rightarrow> bool outcome \<times> network" where
  "forwardPut 0 ip port command net = (Hang, net)"
| "forwardPut (Suc fuel) ip port command net =
     (case connect net ip port of
        None \<Rightarrow> (Ret False, net)
      | Some client \<Rightarrow>
          let (client, net) = sendMessage (serve_with (forwardPut fuel)) command client net in
          (case recvMessage client of
             (Ret response, _) \<Rightarrow> (Ret (response = ''ACK''), net)
           | (Throw e, _) \<Rightarrow> (Throw e, net)
           | (Hang, _) \<Rightarrow> (Hang, net)))"

definition serve :: "nat \<Rightarrow> serve" where
  "serve fuel = serve_with (forwardPut fuel)"

definition pingNext :: "nat \<Rightarrow> metadata_node \<Rightarrow> network \<Rightarrow> bool outcome \<times> network" where
  "pingNext fuel n net =
     (case connect net (nextNodeIp n) (nextNodePort n) of
        None \<Rightarrow> (Ret False, net)
      | Some client \<Rightarrow>
          let (client, net) = sendMessage (serve fuel) ''PING'' client net in
          (case recvMessage client of
             (Ret resp, _) \<Rightarrow> (Ret (resp = ''PONG''), net)
           | (Throw e, _) \<Rightarrow> (Throw e, net)
           | (Hang, _) \<Rightarrow> (Hang, net)))"

definition notifyNextOfPredecessor :: "nat \<Rightarrow> metadata_node \<Rightarrow> network \<Rightarrow> network" where
  "notifyNextOfPredecessor fuel n net =
     (case connect net (nextNodeIp n) (nextNodePort n) of
        None \<Rightarrow> net
      | Some client \<Rightarrow> snd (sendMessage (serve fuel) (notify_message n) client net))"

text \<open>One pass of the health-check thread of the metadata node at \<open>e\<close>.\<close>

definition healthCheck :: "nat \<Rightarrow> endpoint \<Rightarrow> network \<Rightarrow> unit outcome \<times> network" where
  "healthCheck fuel e net =
     (case hosts net e of
        Some (MetadataServer n) \<Rightarrow>
          if meta_running n
          then health_check (\<lambda>n' w. set_host e (MetadataServer n') w) (pingNext fuel)
                 (notifyNextOfPredecessor fuel) n net
          else (Ret (), net)
      | _ \<Rightarrow> (Ret (), net))"

section \<open>The world of a node\<close>

definition up_at :: "network \<Rightarrow> endpoint \<Rightarrow> bool" where
  "up_at net e = (case hosts net e of None \<Rightarrow> False | Some s \<Rightarrow> server_up s)"

definition metadata_at :: "endpoint \<Rightarrow> network \<Rightarrow> metadata_node option" where
  "metadata_at e net = (case hosts net e of Some (MetadataServer n) \<Rightarrow> Some n | _ \<Rightarrow> None)"

lemma hosts_set_host [simp]: "hosts (set_host e s net) = (hosts net)(e \<mapsto> s)"
  by (simp add: set_host_def)

lemma resolve_set_host [simp]: "resolve (set_host e s net) = resolve net"
  by (simp add: set_host_def)

interpretation nw: node_world "metadata_at e" "\<lambda>n' w. set_host e (MetadataServer n') w" for e
  by unfold_locales (simp add: metadata_at_def)

section \<open>One message, one answer\<close>

lemma receiving_AwaitCommand [simp]: "receiving AwaitCommand" "receiving (AwaitData h)"
  "\<not> receiving Closed" "\<not> receiving Stuck"
  by simp_all

lemma run_server_idle [wire_simps]: "to_server c = [] \<Longrightarrow> run_server s c net = (c, net)"
  by (subst run_server.simps) (simp add: wire_simps)

lemma sendData_once:
  assumes "to_server c = []" and "receiving (ctl c)" and "length d < 2 ^ 32"
    and "s (peer c) (ctl c) d net = (ctl', out, net')"
  shows "sendData s d c net = (c\<lparr>ctl := ctl', to_client := to_client c @ concat (map frame out)\<rparr>, net')"
proof -
  let ?c = "c\<lparr>ctl := ctl', to_server := [], to_client := to_client c @ concat (map frame out)\<rparr>"
  have "sendData s d c net = run_server s ?c net'"
    using assms by (simp add: sendData_def run_server.simps [of s "c\<lparr>to_server := frame d\<rparr>"] take_frame_single)
  also have "\<dots> = (?c, net')" by (simp add: run_server_idle)
  also have "?c = c\<lparr>ctl := ctl', to_client := to_client c @ concat (map frame out)\<rparr>"
    using assms(1) by (cases c) simp
  finally show ?thesis .
qed

lemma recvData_frame [wire_simps]:
  "length d < 2 ^ 32 \<Longrightarrow> to_client c = frame d @ t \<Longrightarrow> recvData c = (Ret d, c\<lparr>to_client := t\<rparr>)"
  by (simp add: recvData_def take_frame_frame)

lemma recvMessage_frame [wire_simps]:
  "length m < 2 ^ 32 \<Longrightarrow> to_client c = frame (bytes_of_string m) @ t \<Longrightarrow>
   recvMessage c = (Ret m, c\<lparr>to_client := t\<rparr>)"
  using recvData_frame [of "bytes_of_string m" c t] by (simp add: recvMessage_def)

section \<open>Writing through the chain\<close>

text \<open>
  \<open>linked net es\<close>: the endpoints are running metadata nodes, and each but the last
  forwards to the one after it.
\<close>

fun linked :: "network \<Rightarrow> endpoint list \<Rightarrow> bool" where
  "linked net [] = False"
| "linked net [e] = (case metadata_at e net of None \<Rightarrow> False | Some n \<Rightarrow> meta_running n)"
| "linked net (e # f # es) =
     (case metadata_at e net of
        None \<Rightarrow> False
      | Some n \<Rightarrow> meta_running n \<and> forwards n \<and> endpoint_of net (nextNodeIp n) (nextNodePort n) = Some f
                  \<and> linked net (f # es))"

definition write_to :: "file_metadata \<Rightarrow> endpoint \<Rightarrow> network \<Rightarrow> network" where
  "write_to m e net = (case metadata_at e net of
     None \<Rightarrow> net | Some n \<Rightarrow> set_host e (MetadataServer (stored m n)) net)"

text \<open>The specification of a replicated write: every listed node stores the record.\<close>

fun write_all :: "file_metadata \<Rightarrow> endpoint list \<Rightarrow> network \<Rightarrow> network" where
  "write_all m [] net = net"
| "write_all m (e # es) net = write_all m es (write_to m e net)"

lemma metadata_at_write_to:
  "metadata_at f (write_to m e net) = (if f = e then map_option (stored m) (metadata_at e net) else metadata_at f net)"
  by (auto simp: write_to_def metadata_at_def split: option.splits server.splits)

lemma endpoint_of_write_to [simp]: "endpoint_of (write_to m e net) = endpoint_of net"
  by (auto simp: endpoint_of_def write_to_def fun_eq_iff split: option.splits)

lemma metadata_at_host: "metadata_at e net = Some n \<longleftrightarrow> hosts net e = Some (MetadataServer n)"
  by (auto simp: metadata_at_def split: option.splits server.splits)

lemma connect_write_to [simp]: "connect (write_to m e net) ip port = connect net ip port"
  by (auto simp: connect_def write_to_def metadata_at_host endpoint_of_def split: option.splits)

lemma linked_hd: "linked net (e # es) \<Longrightarrow> \<exists>n. metadata_at e net = Some n \<and> meta_running n"
  by (cases es) (auto split: option.splits)

lemma linked_write_to: "e \<notin> set es \<Longrightarrow> linked net es \<Longrightarrow> linked (write_to m e net) es"
  by (induction net es rule: linked.induct) (auto simp: metadata_at_write_to split: option.splits)

lemma connect_linked:
  "linked net (f # es) \<Longrightarrow> endpoint_of net ip port = Some f \<Longrightarrow> connect net ip port = Some (fresh f)"
  using linked_hd [of net f es] by (auto simp: connect_def metadata_at_host)

lemma metadata_at_write_all:
  "metadata_at f (write_all m es net) = (if f \<in> set es then map_option (stored m) (metadata_at f net) else metadata_at f net)"
  if "distinct es"
  using that by (induction m es net rule: write_all.induct) (auto simp: metadata_at_write_to)

lemma endpoint_of_write_all [simp]: "endpoint_of (write_all m es net) = endpoint_of net"
  by (induction m es net rule: write_all.induct) simp_all

text \<open>One node's part of a \<open>PUT\<close>.\<close>

lemma serve_put:
  assumes "metadata_at e net = Some n" and "meta_running n"
    and "fst (read_word [] (open_stream cmd)) = ''PUT''"
    and "handlePut (\<lambda>n' w. set_host e (MetadataServer n') w) fwd cmd n net = (Ret reply, net')"
  shows "serve_with fwd e AwaitCommand (bytes_of_string cmd) net = (AwaitCommand, [bytes_of_string reply], net')"
proof -
  have "cmd \<noteq> []" using assms(3) by (auto simp: read_word_def open_stream_def)
  then show ?thesis
    using assms by (simp add: serve_with_def metadata_at_host metadata_step_def metadata_command_PUT)
qed

lemma forwardPut_reply:
  assumes "connect net ip port = Some (fresh f)" and "length cmd < 2 ^ 32" and "length reply < 2 ^ 32"
    and "serve fuel f AwaitCommand (bytes_of_string cmd) net = (c, [bytes_of_string reply], net')"
  shows "forwardPut (Suc fuel) ip port cmd net = (Ret (reply = ''ACK''), net')"
proof -
  have "sendMessage (serve_with (forwardPut fuel)) cmd (fresh f) net =
      ((fresh f)\<lparr>ctl := c, to_client := to_client (fresh f) @ concat (map frame [bytes_of_string reply])\<rparr>, net')"
    using assms(2,4) unfolding sendMessage_def
    by (intro sendData_once) (simp_all add: fresh_def serve_def)
  then show ?thesis
    using assms(1,3) recvMessage_frame [of reply _ "[]"] by (simp add: fresh_def)
qed

text \<open>
  The answer of the last node travels back along the chain unchanged, and every node has
  stored the record.
\<close>

lemma chain_reply:
  assumes "linked net (e # es)" and "distinct (e # es)"
    and cmd: "parse_put cmd = Some m" "fst (read_word [] (open_stream cmd)) = ''PUT''" "length cmd < 2 ^ 32"
    and "length es + k \<le> fuel"
    and last: "\<And>n net' fl. metadata_at (last (e # es)) net = Some n \<Longrightarrow> meta_running n \<Longrightarrow> k \<le> fl \<Longrightarrow>
        metadata_at (last (e # es)) net' = Some n \<Longrightarrow> endpoint_of net' = endpoint_of net \<Longrightarrow>
        (\<And>ip port. connect net' ip port = connect net ip port) \<Longrightarrow>
        serve fl (last (e # es)) AwaitCommand (bytes_of_string cmd) net' =
          (AwaitCommand, [bytes_of_string (if ok then ''ACK'' else ''ERROR_FORWARD'')], write_to m (last (e # es)) net')"
  shows "serve fuel e AwaitCommand (bytes_of_string cmd) net =
    (AwaitCommand, [bytes_of_string (if ok then ''ACK'' else ''ERROR_FORWARD'')], write_all m (e # es) net)"
  using assms(1,2,6,7)
proof (induction es arbitrary: e net fuel)
  case Nil
  then show ?case using linked_hd [of net e "[]"] by auto
next
  case (Cons f es)
  obtain n where n: "metadata_at e net = Some n" "meta_running n" "forwards n"
    "endpoint_of net (nextNodeIp n) (nextNodePort n) = Some f" "linked net (f # es)"
    using Cons.prems(1) by (auto split: option.splits)
  obtain fl where fl: "fuel = Suc fl" using Cons.prems(3) by (cases fuel) auto
  let ?w = "write_to m e net"
  have w: "?w = set_host e (MetadataServer (stored m n)) net" using n(1) by (simp add: write_to_def)
  have lw: "linked ?w (f # es)" using Cons.prems(2) n(5) by (intro linked_write_to) auto
  have lst: "last (f # es) \<noteq> e" using Cons.prems(2) last_in_set [of "f # es"] by auto
  have "serve fl f AwaitCommand (bytes_of_string cmd) ?w =
     (AwaitCommand, [bytes_of_string (if ok then ''ACK'' else ''ERROR_FORWARD'')], write_all m (f # es) ?w)"
  proof (rule Cons.IH [OF lw])
    show "distinct (f # es)" "length es + k \<le> fl" using Cons.prems(2,3) fl by auto
  next
    fix n' net' fl'
    assume "metadata_at (last (f # es)) ?w = Some n'" "meta_running n'" "k \<le> fl'"
      "metadata_at (last (f # es)) net' = Some n'" "endpoint_of net' = endpoint_of ?w"
      "\<And>ip port. connect net' ip port = connect ?w ip port"
    then show "serve fl' (last (f # es)) AwaitCommand (bytes_of_string cmd) net' =
      (AwaitCommand, [bytes_of_string (if ok then ''ACK'' else ''ERROR_FORWARD'')], write_to m (last (f # es)) net')"
      using Cons.prems(4) [of n' fl' net'] lst by (simp add: metadata_at_write_to)
  qed
  moreover have "connect ?w (nextNodeIp n) (nextNodePort n) = Some (fresh f)"
    using lw n(4) by (intro connect_linked) simp_all
  ultimately have "forwardPut fuel (nextNodeIp n) (nextNodePort n) cmd ?w = (Ret ok, write_all m (f # es) ?w)"
    using forwardPut_reply [of ?w "nextNodeIp n" "nextNodePort n" f cmd "if ok then ''ACK'' else ''ERROR_FORWARD''" fl]
      cmd(3) by (simp add: fl)
  then have "handlePut (\<lambda>n' w. set_host e (MetadataServer n') w) (forwardPut fuel) cmd n net =
      (Ret (if ok then ''ACK'' else ''ERROR_FORWARD''), write_all m (f # es) ?w)"
    using cmd(1) n(3) w by (intro nw.handlePut_forward) auto
  then show ?case using n(1,2) cmd(2) unfolding serve_def by (subst serve_put) simp_all
qed

lemma last_acks:
  assumes "metadata_at e net = Some n" and "meta_running n" and "\<not> forwards n"
    and "parse_put cmd = Some m" and "fst (read_word [] (open_stream cmd)) = ''PUT''"
  shows "serve fl e AwaitCommand (bytes_of_string cmd) net = (AwaitCommand, [bytes_of_string ''ACK''], write_to m e net)"
proof -
  have "handlePut (\<lambda>n' w. set_host e (MetadataServer n') w) (forwardPut fl) cmd n net = (Ret ''ACK'', write_to m e net)"
    using nw.handlePut_last [OF assms(4,3)] assms(1) by (simp add: write_to_def)
  then show ?thesis using assms unfolding serve_def by (intro serve_put) simp_all
qed

lemma last_fails:
  assumes "metadata_at e net = Some n" and "meta_running n" and "forwards n"
    and "connect net (nextNodeIp n) (nextNodePort n) = None" and "1 \<le> fl"
    and "parse_put cmd = Some m" and "fst (read_word [] (open_stream cmd)) = ''PUT''"
  shows "serve fl e AwaitCommand (bytes_of_string cmd) net = (AwaitCommand, [bytes_of_string ''ERROR_FORWARD''], write_to m e net)"
proof -
  have "forwardPut fl (nextNodeIp n) (nextNodePort n) cmd (write_to m e net) = (Ret False, write_to m e net)"
    using assms(4,5) by (cases fl) simp_all
  then have "handlePut (\<lambda>n' w. set_host e (MetadataServer n') w) (forwardPut fl) cmd n net =
      (Ret ''ERROR_FORWARD'', write_to m e net)"
    using nw.handlePut_forward [OF assms(6,3), of "forwardPut fl" _ _ False] assms(1) by (simp add: write_to_def)
  then show ?thesis using assms unfolding serve_def by (intro serve_put) simp_all
qed

lemma chain_put:
  assumes "linked net (e # es)" and "distinct (e # es)"
    and "metadata_at (last (e # es)) net = Some t" and "\<not> forwards t"
    and "parse_put cmd = Some m" and "fst (read_word [] (open_stream cmd)) = ''PUT''" and "length cmd < 2 ^ 32"
    and "length es \<le> fuel"
  shows "serve fuel e AwaitCommand (bytes_of_string cmd) net =
    (AwaitCommand, [bytes_of_string ''ACK''], write_all m (e # es) net)"
proof (rule chain_reply [OF assms(1,2,5-7), where k = 0 and ok = True, unfolded if_True])
  show "length es + 0 \<le> fuel" using assms(8) by simp
next
  fix n net' and fl :: nat
  assume n: "metadata_at (last (e # es)) net = Some n" "meta_running n" "metadata_at (last (e # es)) net' = Some n"
  then have "n = t" using assms(3) by (metis option.inject)
  then show "serve fl (last (e # es)) AwaitCommand (bytes_of_string cmd) net' =
      (AwaitCommand, [bytes_of_string ''ACK''], write_to m (last (e # es)) net')"
    using last_acks [OF n(3,2) _ assms(5,6)] assms(4) by blast
qed

lemma broken_chain_put:
  assumes "linked net (e # es)" and "distinct (e # es)"
    and "metadata_at (last (e # es)) net = Some t" and "forwards t"
    and "connect net (nextNodeIp t) (nextNodePort t) = None"
    and "parse_put cmd = Some m" and "fst (read_word [] (open_stream cmd)) = ''PUT''" and "length cmd < 2 ^ 32"
    and "Suc (length es) \<le> fuel"
  shows "serve fuel e AwaitCommand (bytes_of_string cmd) net =
    (AwaitCommand, [bytes_of_string ''ERROR_FORWARD''], write_all m (e # es) net)"
proof (rule chain_reply [OF assms(1,2,6-8), where k = 1 and ok = False, unfolded if_False])
  show "length es + 1 \<le> fuel" using assms(9) by simp
next
  fix n net' and fl :: nat
  assume n: "metadata_at (last (e # es)) net = Some n" "meta_running n" "1 \<le> fl"
    "metadata_at (last (e # es)) net' = Some n" "\<And>ip port. connect net' ip port = connect net ip port"
  then have "n = t" using assms(3) by (metis option.inject)
  then show "serve fl (last (e # es)) AwaitCommand (bytes_of_string cmd) net' =
      (AwaitCommand, [bytes_of_string ''ERROR_FORWARD''], write_to m (last (e # es)) net')"
    using last_fails [OF n(4,2) _ _ n(3) assms(6,7)] assms(4,5) n(5) by simp
qed

section \<open>Reading, and the whole write\<close>

lemma hosts_write_to: "f \<noteq> e \<Longrightarrow> hosts (write_to m e net) f = hosts net f"
  by (auto simp: write_to_def split: option.splits)

lemma hosts_write_all: "f \<notin> set es \<Longrightarrow> hosts (write_all m es net) f = hosts net f"
  by (induction m es net rule: write_all.induct) (simp_all add: hosts_write_to)

lemma linked_member: "linked net es \<Longrightarrow> f \<in> set es \<Longrightarrow> \<exists>n. metadata_at f net = Some n \<and> meta_running n"
  by (induction net es rule: linked.induct) (auto split: option.splits)

lemma put_message_word: "fst (read_word [] (open_stream (put_message m))) = ''PUT''"
  using read_word_PUT [of "[]"] by (simp add: put_message_def)

lemma serve_get:
  assumes "metadata_at e net = Some n" and "meta_running n" and "is_word f"
  shows "serve fuel e AwaitCommand (bytes_of_string (''GET '' @ f)) net =
    (AwaitCommand, [bytes_of_string (handleGet f n)], net)"
  using assms metadata_command_GET [OF assms(3)]
  by (simp add: serve_def serve_with_def metadata_at_host metadata_step_def)

section \<open>Health checks\<close>

text \<open>One request and its reply, for a handler that answers with exactly one message.\<close>

lemma request_reply:
  assumes "length cmd < 2 ^ 32" and "length reply < 2 ^ 32"
    and "s e AwaitCommand (bytes_of_string cmd) net = (AwaitCommand, [bytes_of_string reply], net')"
  shows "\<exists>c c'. sendMessage s cmd (fresh e) net = (c, net') \<and> recvMessage c = (Ret reply, c')"
proof -
  have "sendMessage s cmd (fresh e) net =
      ((fresh e)\<lparr>ctl := AwaitCommand, to_client := to_client (fresh e) @ concat (map frame [bytes_of_string reply])\<rparr>, net')"
    using assms(1,3) unfolding sendMessage_def by (intro sendData_once) (simp_all add: fresh_def)
  then show ?thesis using assms(2) recvMessage_frame [of reply _ "[]"] by (auto simp: fresh_def)
qed

lemma connect_metadata:
  "endpoint_of net ip port = Some f \<Longrightarrow> metadata_at f net = Some n \<Longrightarrow> meta_running n \<Longrightarrow>
   connect net ip port = Some (fresh f)"
  by (simp add: connect_def metadata_at_host)

lemma metadata_command_PING:
  "metadata_command commit fwd ''PING'' n w = (AwaitCommand, [bytes_of_string ''PONG''], w)"
  using read_word_bare [of "''PING''" "[]"] by (simp add: metadata_command_def)

lemma pingNext_up:
  assumes "endpoint_of net (nextNodeIp n) (nextNodePort n) = Some f" and "metadata_at f net = Some m" and "meta_running m"
  shows "pingNext fuel n net = (Ret True, net)"
proof -
  have "serve fuel f AwaitCommand (bytes_of_string ''PING'') net = (AwaitCommand, [bytes_of_string ''PONG''], net)"
    using assms(2,3) metadata_command_PING
    by (simp add: serve_def serve_with_def metadata_at_host metadata_step_def)
  then obtain c c' where "sendMessage (serve fuel) ''PING'' (fresh f) net = (c, net)" "recvMessage c = (Ret ''PONG'', c')"
    using request_reply [of "''PING''" "''PONG''" "serve fuel" f net net] by auto
  then show ?thesis using connect_metadata [OF assms] by (simp add: pingNext_def)
qed

lemma healthCheck_down:
  assumes "metadata_at e net = Some n" and "meta_running n" and "nextNodePort n \<noteq> -1"
    and "connect net (nextNodeIp n) (nextNodePort n) = None" and "handleNextNodeFailure n = (n', tell)"
  shows "healthCheck fuel e net =
    (Ret (), if tell then notifyNextOfPredecessor fuel n' (set_host e (MetadataServer n') net)
             else set_host e (MetadataServer n') net)"
  using assms by (simp add: healthCheck_def health_check_def metadata_at_host pingNext_def Let_def)

lemma update_prev_simps [simp]:
  "meta_running (update_prev ip port n) = meta_running n" "nextNodeIp (update_prev ip port n) = nextNodeIp n"
  "nextNodePort (update_prev ip port n) = nextNodePort n" "forwards (update_prev ip port n) = forwards n"
  "metadataStore (update_prev ip port n) = metadataStore n"
  by (auto simp: update_prev_def forwards_def Let_def)

lemma metadata_command_UPDATE_PREV:
  assumes "is_word ip" and "INT_MIN \<le> port" and "port \<le> INT_MAX"
  shows "metadata_command commit fwd (''UPDATE_PREV '' @ ip @ '' '' @ to_string port) n w =
    (AwaitCommand, [bytes_of_string ''ACK''], commit (update_prev ip port n) w)"
proof -
  have "read_ip_port \<lparr>rest = '' '' @ ip @ '' '' @ to_string port, failed = False\<rparr> = Some (ip, port)"
    using assms by (simp add: read_ip_port_def text_simps)
  then show ?thesis
    using read_word_cmd [of "''UPDATE_PREV''" "[]" "ip @ '' '' @ to_string port"]
    by (simp add: metadata_command_def)
qed

lemma notify_running:
  assumes "endpoint_of net (nextNodeIp n) (nextNodePort n) = Some f" and "metadata_at f net = Some m" and "meta_running m"
    and "INT_MIN \<le> myPort n" and "myPort n \<le> INT_MAX"
  shows "notifyNextOfPredecessor fuel n net = set_host f (MetadataServer (update_prev ''127.0.0.1'' (myPort n) m)) net"
proof -
  let ?cmd = "notify_message n"
  have "length (to_string (myPort n)) \<le> 20" using assms(4,5) by (intro to_string_length) simp
  then have "length ?cmd < 2 ^ 32" by (simp add: notify_message_def)
  moreover have "metadata_command (\<lambda>n' w. set_host f (MetadataServer n') w) (forwardPut fuel) ?cmd m net =
      (AwaitCommand, [bytes_of_string ''ACK''], set_host f (MetadataServer (update_prev ''127.0.0.1'' (myPort n) m)) net)"
    using metadata_command_UPDATE_PREV [of "''127.0.0.1''" "myPort n"] assms(4,5)
    by (simp add: notify_message_def is_word_def is_space_def)
  then have "serve fuel f AwaitCommand (bytes_of_string ?cmd) net =
      (AwaitCommand, [bytes_of_string ''ACK''], set_host f (MetadataServer (update_prev ''127.0.0.1'' (myPort n) m)) net)"
    using assms(2,3) by (simp add: serve_def serve_with_def metadata_at_host metadata_step_def notify_message_def)
  ultimately obtain c where "sendMessage (serve fuel) ?cmd (fresh f) net =
      (c, set_host f (MetadataServer (update_prev ''127.0.0.1'' (myPort n) m)) net)"
    using request_reply [of ?cmd "''ACK''" "serve fuel" f net] by auto
  then show ?thesis using connect_metadata [OF assms(1-3)] by (simp add: notifyNextOfPredecessor_def)
qed

lemma metadata_at_set_host:
  "metadata_at f (set_host e (MetadataServer n) net) = (if f = e then Some n else metadata_at f net)"
  by (simp add: metadata_at_def)

lemma endpoint_of_set_host [simp]: "endpoint_of (set_host e s net) = endpoint_of net"
  by (simp add: endpoint_of_def fun_eq_iff)

lemma linked_update_prev:
  "linked net es \<Longrightarrow> metadata_at s net = Some m \<Longrightarrow>
   linked (set_host s (MetadataServer (update_prev ip port m)) net) es"
  by (induction net es rule: linked.induct) (auto simp: metadata_at_set_host split: option.splits)

lemma linked_set_host:
  "linked net es \<Longrightarrow> e \<notin> set es \<Longrightarrow> linked (set_host e (MetadataServer n) net) es"
  by (induction net es rule: linked.induct) (auto simp: metadata_at_set_host split: option.splits)

section \<open>The local cluster\<close>

text \<open>
  \<open>startCluster\<close> of the evaluation programs: two storage nodes on ports 8001 and 8002 and
  the chain 9001, 9002, 9003, all on the loopback address.
\<close>

definition local_resolve :: "string \<Rightarrow> 32 word option" where
  "local_resolve s = (if s = ''127.0.0.1'' then Some 0x7F000001 else None)"

abbreviation local_ep :: "16 word \<Rightarrow> endpoint" where
  "local_ep p \<equiv> (0x7F000001, p)"

definition startCluster :: network where
  "startCluster = \<lparr>resolve = local_resolve, hosts =
     [local_ep 8001 \<mapsto> StorageServer new_storage_node,
      local_ep 8002 \<mapsto> StorageServer new_storage_node,
      local_ep 9003 \<mapsto> MetadataServer (new_metadata_node [] (-1) 9003),
      local_ep 9002 \<mapsto> MetadataServer (new_metadata_node ''127.0.0.1'' 9003 9002),
      local_ep 9001 \<mapsto> MetadataServer (new_metadata_node ''127.0.0.1'' 9002 9001)]\<rparr>"

definition local_chain :: "endpoint list" where
  "local_chain = [local_ep 9001, local_ep 9002, local_ep 9003]"

lemmas local_defs = startCluster_def local_chain_def local_resolve_def metadata_at_def endpoint_of_def
  new_metadata_node_def new_storage_node_def forwards_def connect_def

lemma local_linked: "linked startCluster local_chain"
  by (simp add: local_defs)

lemma local_distinct: "distinct local_chain"
  by (simp add: local_chain_def)

definition wit_meta :: file_metadata where
  "wit_meta = \<lparr>meta_filename = ''a.txt'', meta_rootHash = ''r0'', meta_fileSize = 3, meta_chunkSize = 1048576,
     meta_totalChunks = 1, meta_chunkHashes = [''h0'']\<rparr>"

lemma wit_meta_wf: "wf_metadata wit_meta"
  by (simp add: wf_metadata_def wit_meta_def is_word_def is_space_def)

lemma wit_meta_length: "length (put_message wit_meta) < 2 ^ 32"
  using to_string_length [of 3] to_string_length [of 1048576] to_string_length [of 1]
  by (simp add: put_message_def wit_meta_def)

section \<open>Properties\<close>

text \<open>
  C4: Chain replication of a write. When the nodes from the head to the last one are up and
  linked, a \<open>PUT\<close> sent to the head is answered \<open>ACK\<close> once every node of the chain has
  stored the record, no other server is touched, and a \<open>GET\<close> at the last node (role tail
  or single) then answers with the record just written. The call returns for every chain
  without repetition: fuel equal to the number of nodes behind the head is enough.
\<close>
theorem chain_put_replicates:
  assumes "linked net (e # es)" and "distinct (e # es)" and "metadata_at (last (e # es)) net = Some t"
    and "role_of t = TAIL \<or> role_of t = SINGLE" and "wf_metadata m" and "length (put_message m) < 2 ^ 32"
    and "length es \<le> fuel"
  shows "\<exists>net'. serve fuel e AwaitCommand (bytes_of_string (put_message m)) net =
      (AwaitCommand, [bytes_of_string ''ACK''], net')
    \<and> (\<forall>f \<in> set (e # es). \<exists>n. metadata_at f net = Some n \<and> metadata_at f net' = Some (stored m n))
    \<and> (\<forall>f. f \<notin> set (e # es) \<longrightarrow> hosts net' f = hosts net f)
    \<and> serve fuel (last (e # es)) AwaitCommand (bytes_of_string (''GET '' @ meta_filename m)) net' =
        (AwaitCommand, [bytes_of_string (found_message m)], net')"
proof -
  let ?net = "write_all m (e # es) net"
  have "serve fuel e AwaitCommand (bytes_of_string (put_message m)) net =
      (AwaitCommand, [bytes_of_string ''ACK''], ?net)"
    using assms parse_put_message put_message_word by (intro chain_put) (auto simp: forwards_def)
  moreover have all: "\<forall>f \<in> set (e # es). \<exists>n. metadata_at f net = Some n \<and> meta_running n \<and>
      metadata_at f ?net = Some (stored m n)"
    using linked_member [OF assms(1)] metadata_at_write_all [OF assms(2), of _ m net] by fastforce
  moreover have "\<forall>f. f \<notin> set (e # es) \<longrightarrow> hosts ?net f = hosts net f"
    using hosts_write_all by blast
  moreover have "last (e # es) \<in> set (e # es)" by (rule last_in_set) simp
  then have t: "metadata_at (last (e # es)) ?net = Some (stored m t)" "meta_running t"
    using all assms(3) by (metis option.inject)+
  then have "serve fuel (last (e # es)) AwaitCommand (bytes_of_string (''GET '' @ meta_filename m)) ?net =
      (AwaitCommand, [bytes_of_string (handleGet (meta_filename m) (stored m t))], ?net)"
    using assms(5) by (intro serve_get) (simp_all add: wf_metadata_def)
  moreover have "handleGet (meta_filename m) (stored m t) = found_message m"
    using assms(4) by (auto simp: handleGet_def)
  ultimately show ?thesis by (metis (no_types, lifting))
qed

theorem chain_put_replicates_witness:
  "\<exists>net'. serve 2 (local_ep 9001) AwaitCommand (bytes_of_string (put_message wit_meta)) startCluster =
      (AwaitCommand, [bytes_of_string ''ACK''], net')
    \<and> (\<forall>f \<in> set local_chain. \<exists>n. metadata_at f startCluster = Some n \<and> metadata_at f net' = Some (stored wit_meta n))"
  using chain_put_replicates [of startCluster "local_ep 9001" "[local_ep 9002, local_ep 9003]"
      "new_metadata_node [] (-1) 9003" wit_meta 2] local_linked local_distinct wit_meta_wf wit_meta_length
  by (fastforce simp: local_chain_def startCluster_def metadata_at_def new_metadata_node_def)

text \<open>
  C24: A write that cannot reach the end of the chain is never acknowledged. When a node of
  the chain finds its successor down, the head answers \<open>ERROR_FORWARD\<close>; the nodes before
  the gap have stored the record all the same, and no other server has changed.
\<close>
theorem broken_chain_not_acked:
  assumes "linked net (e # es)" and "distinct (e # es)" and "metadata_at (last (e # es)) net = Some t"
    and "forwards t" and "connect net (nextNodeIp t) (nextNodePort t) = None"
    and "wf_metadata m" and "length (put_message m) < 2 ^ 32" and "Suc (length es) \<le> fuel"
  shows "\<exists>net'. serve fuel e AwaitCommand (bytes_of_string (put_message m)) net =
      (AwaitCommand, [bytes_of_string ''ERROR_FORWARD''], net')
    \<and> (\<forall>f \<in> set (e # es). \<exists>n. metadata_at f net = Some n \<and> metadata_at f net' = Some (stored m n))
    \<and> (\<forall>f. f \<notin> set (e # es) \<longrightarrow> hosts net' f = hosts net f)"
proof -
  let ?net = "write_all m (e # es) net"
  have "serve fuel e AwaitCommand (bytes_of_string (put_message m)) net =
      (AwaitCommand, [bytes_of_string ''ERROR_FORWARD''], ?net)"
    using assms parse_put_message put_message_word by (intro broken_chain_put) auto
  moreover have "\<forall>f \<in> set (e # es). \<exists>n. metadata_at f net = Some n \<and> metadata_at f ?net = Some (stored m n)"
    using linked_member [OF assms(1)] metadata_at_write_all [OF assms(2), of _ m net] by fastforce
  ultimately show ?thesis using hosts_write_all by blast
qed

definition tail_down :: network where
  "tail_down = startCluster\<lparr>hosts := (hosts startCluster)(local_ep 9003 := None)\<rparr>"

theorem broken_chain_not_acked_witness:
  "\<exists>net'. serve 2 (local_ep 9001) AwaitCommand (bytes_of_string (put_message wit_meta)) tail_down =
      (AwaitCommand, [bytes_of_string ''ERROR_FORWARD''], net')"
proof -
  have "linked tail_down [local_ep 9001, local_ep 9002]" by (simp add: tail_down_def local_defs)
  moreover have "metadata_at (local_ep 9002) tail_down = Some (new_metadata_node ''127.0.0.1'' 9003 9002)"
    by (simp add: tail_down_def local_defs)
  moreover have "connect tail_down ''127.0.0.1'' 9003 = None" by (simp add: tail_down_def local_defs)
  ultimately show ?thesis
    using broken_chain_not_acked [of tail_down "local_ep 9001" "[local_ep 9002]"
        "new_metadata_node ''127.0.0.1'' 9003 9002" wit_meta 2] wit_meta_wf wit_meta_length
    by (fastforce simp: new_metadata_node_def forwards_def)
qed

text \<open>
  C29: Repair with a skip node. When the successor of \<open>e\<close> is down and a skip node is
  configured and running, one health check splices the dead node out: \<open>e\<close> forwards to the
  skip node, the skip node records \<open>e\<close> as its predecessor, the nodes from \<open>e\<close> on form a
  linked chain again, and no stored record is lost anywhere.
\<close>
theorem chain_repair:
  assumes "metadata_at e net = Some n" and "meta_running n" and "forwards n"
    and "connect net (nextNodeIp n) (nextNodePort n) = None"
    and "skipToPort n \<noteq> -1" and "endpoint_of net (skipToIp n) (skipToPort n) = Some s"
    and "linked net (s # es)" and "e \<notin> set (s # es)" and "INT_MIN \<le> myPort n" and "myPort n \<le> INT_MAX"
  shows "\<exists>net'. healthCheck fuel e net = (Ret (), net') \<and> linked net' (e # s # es)
    \<and> (\<exists>m'. metadata_at s net' = Some m' \<and> prevNodeIp m' = ''127.0.0.1'' \<and> prevNodePort m' = myPort n)
    \<and> (\<forall>f. map_option metadataStore (metadata_at f net') = map_option metadataStore (metadata_at f net))"
proof -
  let ?n = "n\<lparr>nextNodeIp := skipToIp n, nextNodePort := skipToPort n, skipToIp := [], skipToPort := -1\<rparr>"
  let ?net = "set_host e (MetadataServer ?n) net"
  obtain m where m: "metadata_at s net = Some m" "meta_running m" using linked_hd [OF assms(7)] by blast
  let ?m = "update_prev ''127.0.0.1'' (myPort n) m"
  let ?net' = "set_host s (MetadataServer ?m) ?net"
  have s: "metadata_at s ?net = Some m" using m(1) assms(8) by (auto simp: metadata_at_set_host)
  have notify: "notifyNextOfPredecessor fuel ?n ?net = ?net'"
    using notify_running [of ?net ?n s m fuel] s m(2) assms(6,9,10) by simp
  have "healthCheck fuel e net = (Ret (), ?net')"
    using healthCheck_down [OF assms(1,2) _ assms(4), of ?n True fuel] assms(3,5) notify
    by (simp add: handleNextNodeFailure_def forwards_def)
  moreover have "linked ?net' (s # es)"
    using assms(7,8) s by (intro linked_update_prev linked_set_host) simp_all
  then have "linked ?net' (e # s # es)"
    using assms(2,3,5,6,8) by (auto simp: metadata_at_set_host forwards_def)
  moreover have "metadata_at s ?net' = Some ?m" by (simp add: metadata_at_set_host)
  moreover have "prevNodeIp ?m = ''127.0.0.1''" "prevNodePort ?m = myPort n" by (simp_all add: update_prev_def Let_def)
  moreover have "\<forall>f. map_option metadataStore (metadata_at f ?net') = map_option metadataStore (metadata_at f net)"
    using m(1) assms(1) by (simp add: metadata_at_set_host)
  ultimately show ?thesis by blast
qed

definition skip_cluster :: network where
  "skip_cluster = startCluster\<lparr>hosts := (hosts startCluster)
     (local_ep 9002 := None,
      local_ep 9001 \<mapsto> MetadataServer (set_skip ''127.0.0.1'' 9003 (new_metadata_node ''127.0.0.1'' 9002 9001)))\<rparr>"

theorem chain_repair_witness:
  "\<exists>net'. healthCheck 2 (local_ep 9001) skip_cluster = (Ret (), net') \<and> linked net' [local_ep 9001, local_ep 9003]"
proof -
  let ?n = "set_skip ''127.0.0.1'' 9003 (new_metadata_node ''127.0.0.1'' 9002 9001)"
  have "metadata_at (local_ep 9001) skip_cluster = Some ?n" by (simp add: skip_cluster_def metadata_at_def)
  moreover have "meta_running ?n" "forwards ?n" "skipToPort ?n \<noteq> -1" "INT_MIN \<le> myPort ?n" "myPort ?n \<le> INT_MAX"
    by (simp_all add: set_skip_def new_metadata_node_def forwards_def)
  moreover have "connect skip_cluster (nextNodeIp ?n) (nextNodePort ?n) = None"
    "endpoint_of skip_cluster (skipToIp ?n) (skipToPort ?n) = Some (local_ep 9003)" "linked skip_cluster [local_ep 9003]"
    by (simp_all add: skip_cluster_def set_skip_def local_defs)
  ultimately show ?thesis using chain_repair [of "local_ep 9001" skip_cluster ?n "local_ep 9003" "[]" 2] by auto
qed

text \<open>
  C30: Without a skip node a failure splits the chain. When the head finds its successor
  down and no skip node is set (no code of the program ever sends \<open>SET_SKIP\<close>), one health
  check turns it into a node of its own: from then on it acknowledges writes and answers
  reads alone, while the old tail, if it is still up, keeps answering reads with what it had
  before. A read at the old tail after an acknowledged write returns the stale answer.
\<close>
theorem head_splits_off:
  assumes "metadata_at e net = Some n" and "meta_running n" and "nextNodePort n \<noteq> -1" and "prevNodePort n = -1"
    and "skipToPort n = -1" and "connect net (nextNodeIp n) (nextNodePort n) = None"
    and "metadata_at t net = Some tn" and "meta_running tn" and "t \<noteq> e" and "wf_metadata m"
  shows "\<exists>net1 net2. healthCheck fuel e net = (Ret (), net1) \<and>
      serve fuel e AwaitCommand (bytes_of_string (put_message m)) net1 = (AwaitCommand, [bytes_of_string ''ACK''], net2) \<and>
      serve fuel e AwaitCommand (bytes_of_string (''GET '' @ meta_filename m)) net2 =
        (AwaitCommand, [bytes_of_string (found_message m)], net2) \<and>
      serve fuel t AwaitCommand (bytes_of_string (''GET '' @ meta_filename m)) net2 =
        (AwaitCommand, [bytes_of_string (handleGet (meta_filename m) tn)], net2)"
proof -
  let ?n = "n\<lparr>nextNodeIp := [], nextNodePort := -1, role_of := SINGLE\<rparr>"
  let ?net1 = "set_host e (MetadataServer ?n) net" and ?net2 = "write_to m e (set_host e (MetadataServer ?n) net)"
  have f: "is_word (meta_filename m)" using assms(10) by (simp add: wf_metadata_def)
  have "healthCheck fuel e net = (Ret (), ?net1)"
    using healthCheck_down [OF assms(1-3,6), of ?n False fuel] assms(4,5) by (simp add: handleNextNodeFailure_def)
  moreover have 1: "metadata_at e ?net1 = Some ?n" by (simp add: metadata_at_set_host)
  have "serve fuel e AwaitCommand (bytes_of_string (put_message m)) ?net1 = (AwaitCommand, [bytes_of_string ''ACK''], ?net2)"
    using last_acks [OF 1 _ _ parse_put_message [OF assms(10)] put_message_word] assms(2) by (simp add: forwards_def)
  moreover have "metadata_at e ?net2 = Some (stored m ?n)" using 1 by (simp add: metadata_at_write_to)
  from serve_get [OF this _ f, of fuel]
  have "serve fuel e AwaitCommand (bytes_of_string (''GET '' @ meta_filename m)) ?net2 =
      (AwaitCommand, [bytes_of_string (found_message m)], ?net2)"
    using assms(2) by (simp add: handleGet_def)
  moreover have "metadata_at t ?net2 = Some tn" using assms(7,9) by (simp add: metadata_at_write_to metadata_at_set_host)
  from serve_get [OF this assms(8) f, of fuel]
  have "serve fuel t AwaitCommand (bytes_of_string (''GET '' @ meta_filename m)) ?net2 =
      (AwaitCommand, [bytes_of_string (handleGet (meta_filename m) tn)], ?net2)" .
  ultimately show ?thesis by blast
qed

definition middle_down :: network where
  "middle_down = startCluster\<lparr>hosts := (hosts startCluster)(local_ep 9002 := None)\<rparr>"

theorem head_splits_off_witness:
  "\<exists>net1 net2. healthCheck 2 (local_ep 9001) middle_down = (Ret (), net1) \<and>
      serve 2 (local_ep 9001) AwaitCommand (bytes_of_string (put_message wit_meta)) net1 =
        (AwaitCommand, [bytes_of_string ''ACK''], net2) \<and>
      serve 2 (local_ep 9003) AwaitCommand (bytes_of_string (''GET '' @ meta_filename wit_meta)) net2 =
        (AwaitCommand, [bytes_of_string ''NOT_FOUND''], net2)"
proof -
  let ?n = "new_metadata_node ''127.0.0.1'' 9002 9001" and ?t = "new_metadata_node [] (-1) 9003"
  have "metadata_at (local_ep 9001) middle_down = Some ?n" "metadata_at (local_ep 9003) middle_down = Some ?t"
    by (simp_all add: middle_down_def metadata_at_def startCluster_def)
  moreover have "meta_running ?n" "nextNodePort ?n \<noteq> -1" "prevNodePort ?n = -1" "skipToPort ?n = -1" "meta_running ?t"
    by (simp_all add: new_metadata_node_def)
  moreover have "connect middle_down (nextNodeIp ?n) (nextNodePort ?n) = None"
    by (simp add: middle_down_def local_defs)
  moreover have "handleGet (meta_filename wit_meta) ?t = ''NOT_FOUND''" by (simp add: handleGet_def new_metadata_node_def)
  moreover have "local_ep 9003 \<noteq> local_ep 9001" by simp
  ultimately show ?thesis
    using head_splits_off [of "local_ep 9001" middle_down ?n "local_ep 9003" ?t wit_meta 2] wit_meta_wf by metis
qed

text \<open>
  A health check never touches a chain whose successor is alive: the successor answers
  \<open>PONG\<close> and every server is left as it was.
\<close>
theorem healthy_successor_kept:
  assumes "linked net (e # f # es)"
  shows "healthCheck fuel e net = (Ret (), net)"
proof -
  obtain n where n: "metadata_at e net = Some n" "meta_running n"
    "endpoint_of net (nextNodeIp n) (nextNodePort n) = Some f" "linked net (f # es)"
    using assms by (auto split: option.splits)
  obtain m where "metadata_at f net = Some m" "meta_running m" using linked_hd [OF n(4)] by blast
  then have "pingNext fuel n net = (Ret True, net)" by (rule pingNext_up [OF n(3)])
  then show ?thesis using n(1,2) by (simp add: healthCheck_def health_check_def metadata_at_host)
qed

theorem healthy_successor_kept_witness: "healthCheck 0 (local_ep 9001) startCluster = (Ret (), startCluster)"
  using healthy_successor_kept [of startCluster "local_ep 9001" "local_ep 9002" "[local_ep 9003]" 0] local_linked
  by (simp add: local_chain_def)

text \<open>
  A command without its arguments gets no answer. A metadata node that receives a bare
  \<open>GET\<close>, \<open>UPDATE_PREV\<close>, \<open>UPDATE_NEXT\<close> or \<open>SET_SKIP\<close> goes back to its receive without
  sending anything, so the sender's \<open>recvMessage\<close> never returns.
\<close>
theorem bare_command_hangs:
  assumes "metadata_at e net = Some n" and "meta_running n"
    and "cmd = ''GET'' \<or> cmd = ''UPDATE_PREV'' \<or> cmd = ''UPDATE_NEXT'' \<or> cmd = ''SET_SKIP''"
  shows "\<exists>c. sendMessage (serve fuel) cmd (fresh e) net = (c, net) \<and> fst (recvMessage c) = Hang"
proof -
  have w: "is_word cmd" using assms(3) by (elim disjE) simp_all
  have e: "read_word [] \<lparr>rest = [], failed = False\<rparr> = ([], \<lparr>rest = [], failed = True\<rparr>)" by (simp add: read_word_def)
  then have "read_ip_port \<lparr>rest = [], failed = False\<rparr> = None" by (simp add: read_ip_port_def read_int_def)
  then have "metadata_command (\<lambda>n' w. set_host e (MetadataServer n') w) (forwardPut fuel) cmd n net = (AwaitCommand, [], net)"
    using assms(3) read_word_bare [OF w, of "[]"] e by (elim disjE) (simp_all add: metadata_command_def)
  then have "serve fuel e AwaitCommand (bytes_of_string cmd) net = (AwaitCommand, [], net)"
    using assms w by (auto simp: serve_def serve_with_def metadata_at_host metadata_step_def is_word_def)
  then have "sendMessage (serve fuel) cmd (fresh e) net =
      ((fresh e)\<lparr>ctl := AwaitCommand, to_client := to_client (fresh e) @ concat (map frame [])\<rparr>, net)"
    using assms(3) unfolding sendMessage_def by (intro sendData_once) (auto simp: fresh_def)
  then show ?thesis by (simp add: fresh_def recvMessage_def recvData_def wire_simps)
qed

theorem bare_command_hangs_witness:
  "\<exists>c. sendMessage (serve 0) ''GET'' (fresh (local_ep 9003)) startCluster = (c, startCluster) \<and> fst (recvMessage c) = Hang"
  using bare_command_hangs [of "local_ep 9003" startCluster "new_metadata_node [] (-1) 9003" "''GET''" 0]
  by (simp add: startCluster_def metadata_at_def new_metadata_node_def)

end
