(* ===== verification/Chain_Register.thy ===== *)
theory Chain_Register
  imports Cluster Node_Invariant
begin

text \<open>
  The metadata chain as a service: an abstract map from names to records
  (\<open>spec_run\<close>), the contract \<open>record_service\<close> that says a concrete service implements it,
  and the proof that the chain of \<open>Cluster\<close> does when requests come one after the other,
  writes at the head and reads at the tail. A single node implements the same contract.
  The last section shows what the chain is not: a cycle of successors never answers a write.
\<close>

section \<open>The abstract map\<close>

datatype record_op = Put_Op file_metadata | Get_Op string

definition get_reply :: "(string \<rightharpoonup> file_metadata) \<Rightarrow> string \<Rightarrow> string" where
  "get_reply S f = (case S f of None \<Rightarrow> ''NOT_FOUND'' | Some m \<Rightarrow> found_message m)"

fun spec_run :: "record_op list \<Rightarrow> (string \<rightharpoonup> file_metadata) \<Rightarrow> string outcome list \<times> (string \<rightharpoonup> file_metadata)" where
  "spec_run [] S = ([], S)"
| "spec_run (Put_Op m # ops) S =
     (let (rs, S') = spec_run ops (S(meta_filename m \<mapsto> m)) in (Ret ''ACK'' # rs, S'))"
| "spec_run (Get_Op f # ops) S = (let (rs, S') = spec_run ops S in (Ret (get_reply S f) # rs, S'))"

text \<open>What fits the protocol: one word as a name, a command below 4 GiB.\<close>

fun op_ok :: "record_op \<Rightarrow> bool" where
  "op_ok (Put_Op m) \<longleftrightarrow> wf_metadata m \<and> length (put_message m) < 2 ^ 32"
| "op_ok (Get_Op f) \<longleftrightarrow> is_word f \<and> length f < 2 ^ 31"

fun run_ops :: "(record_op \<Rightarrow> 's \<Rightarrow> string outcome \<times> 's) \<Rightarrow> record_op list \<Rightarrow> 's \<Rightarrow> string outcome list \<times> 's" where
  "run_ops request [] s = ([], s)"
| "run_ops request (p # ps) s =
     (let (r, s') = request p s; (rs, s'') = run_ops request ps s' in (r # rs, s''))"

locale record_service =
  fixes request :: "record_op \<Rightarrow> 's \<Rightarrow> string outcome \<times> 's"
    and abs :: "'s \<Rightarrow> string \<rightharpoonup> file_metadata"
    and ok :: "'s \<Rightarrow> bool"
  assumes put: "ok s \<Longrightarrow> op_ok (Put_Op m) \<Longrightarrow>
      \<exists>s'. request (Put_Op m) s = (Ret ''ACK'', s') \<and> ok s' \<and> abs s' = (abs s)(meta_filename m \<mapsto> m)"
    and get: "ok s \<Longrightarrow> op_ok (Get_Op f) \<Longrightarrow> request (Get_Op f) s = (Ret (get_reply (abs s) f), s)"
begin

lemma refines:
  "ok s \<Longrightarrow> list_all op_ok ops \<Longrightarrow>
   \<exists>s'. run_ops request ops s = (fst (spec_run ops (abs s)), s') \<and> ok s' \<and> abs s' = snd (spec_run ops (abs s))"
proof (induction ops arbitrary: s)
  case (Cons p ops)
  show ?case
  proof (cases p)
    case (Put_Op m)
    then obtain s' where s': "request p s = (Ret ''ACK'', s')" "ok s'" "abs s' = (abs s)(meta_filename m \<mapsto> m)"
      using put Cons.prems by auto
    have "list_all op_ok ops" using Cons.prems(2) by simp
    then obtain s2 where "run_ops request ops s' = (fst (spec_run ops ((abs s)(meta_filename m \<mapsto> m))), s2)" "ok s2"
        "abs s2 = snd (spec_run ops ((abs s)(meta_filename m \<mapsto> m)))"
      using Cons.IH [OF s'(2)] unfolding s'(3) by blast
    then show ?thesis using s'(1) Put_Op by (simp add: split_beta)
  next
    case (Get_Op f)
    then have "request p s = (Ret (get_reply (abs s) f), s)" using get Cons.prems by simp
    then show ?thesis using Cons.IH [OF Cons.prems(1)] Cons.prems(2) Get_Op by (auto simp: split_beta)
  qed
qed simp

end

section \<open>A single node\<close>

definition node_request :: "record_op \<Rightarrow> metadata_node \<Rightarrow> string outcome \<times> metadata_node" where
  "node_request p n = (case p of
      Put_Op m \<Rightarrow> handlePut alone (\<lambda>ip port cmd w. (Hang, w)) (put_message m) n n
    | Get_Op f \<Rightarrow> (Ret (handleGet f n), n))"

interpretation single: record_service node_request "metadataStore :: metadata_node \<Rightarrow> _"
  "\<lambda>n :: metadata_node. role_of n = TAIL \<or> role_of n = SINGLE"
proof unfold_locales
  fix n :: metadata_node and m assume n: "role_of n = TAIL \<or> role_of n = SINGLE" and m: "op_ok (Put_Op m)"
  then have "handlePut alone (\<lambda>ip port cmd w. (Hang, w)) (put_message m) n n = (Ret ''ACK'', stored m n)"
    using own.handlePut_last [OF parse_put_message] by (auto simp: forwards_def)
  then show "\<exists>n'. node_request (Put_Op m) n = (Ret ''ACK'', n') \<and> (role_of n' = TAIL \<or> role_of n' = SINGLE) \<and>
      metadataStore n' = (metadataStore n)(meta_filename m \<mapsto> m)"
    using n by (simp add: node_request_def)
qed (auto simp: node_request_def handleGet_def get_reply_def)

section \<open>The chain\<close>

text \<open>One request of a client over a connection of its own.\<close>

definition request :: "nat \<Rightarrow> endpoint \<Rightarrow> string \<Rightarrow> network \<Rightarrow> string outcome \<times> network" where
  "request fuel e cmd net =
     (let (c, net') = sendMessage (serve fuel) cmd (fresh e) net in (fst (recvMessage c), net'))"

definition chain_request :: "nat \<Rightarrow> endpoint list \<Rightarrow> record_op \<Rightarrow> network \<Rightarrow> string outcome \<times> network" where
  "chain_request fuel es p net = (case p of
      Put_Op m \<Rightarrow> request fuel (hd es) (put_message m) net
    | Get_Op f \<Rightarrow> request fuel (last es) (''GET '' @ f) net)"

definition chain_store :: "endpoint list \<Rightarrow> network \<Rightarrow> string \<rightharpoonup> file_metadata" where
  "chain_store es net = (case metadata_at (last es) net of None \<Rightarrow> Map.empty | Some n \<Rightarrow> metadataStore n)"

definition chain_ok :: "nat \<Rightarrow> endpoint list \<Rightarrow> network \<Rightarrow> bool" where
  "chain_ok fuel es net \<longleftrightarrow> es \<noteq> [] \<and> linked net es \<and> distinct es \<and> length es \<le> Suc fuel \<and>
     (\<exists>t. metadata_at (last es) net = Some t \<and> meta_running t \<and> (role_of t = TAIL \<or> role_of t = SINGLE) \<and>
        (\<forall>f m. metadataStore t f = Some m \<longrightarrow> length (found_message m) < 2 ^ 32))"

lemma request_eq:
  assumes "length cmd < 2 ^ 32" and "length reply < 2 ^ 32"
    and "serve fuel e AwaitCommand (bytes_of_string cmd) net = (AwaitCommand, [bytes_of_string reply], net')"
  shows "request fuel e cmd net = (Ret reply, net')"
  using request_reply [where s = "serve fuel" and e = e and net = net and net' = net', OF assms]
  by (auto simp: request_def)

lemma linked_write_all_self:
  "linked net es \<Longrightarrow> distinct fs \<Longrightarrow> linked (write_all m fs net) es"
  by (induction net es rule: linked.induct)
    (auto simp: metadata_at_write_all split: option.splits)

lemma chain_put_request:
  assumes "chain_ok fuel es net" and "op_ok (Put_Op m)"
  shows "chain_request fuel es (Put_Op m) net = (Ret ''ACK'', write_all m es net) \<and> chain_ok fuel es (write_all m es net) \<and>
    chain_store es (write_all m es net) = (chain_store es net)(meta_filename m \<mapsto> m)"
proof -
  obtain e fs where es: "es = e # fs" using assms(1) by (cases es) (auto simp: chain_ok_def)
  obtain t where t: "metadata_at (last es) net = Some t" "meta_running t" "role_of t = TAIL \<or> role_of t = SINGLE"
      "\<forall>f m. metadataStore t f = Some m \<longrightarrow> length (found_message m) < 2 ^ 32"
    and l: "linked net es" "distinct es" "length fs \<le> fuel"
    using assms(1) es by (auto simp: chain_ok_def)
  have m: "wf_metadata m" "length (put_message m) < 2 ^ 32" using assms(2) by simp_all
  have "serve fuel e AwaitCommand (bytes_of_string (put_message m)) net = (AwaitCommand, [bytes_of_string ''ACK''], write_all m es net)"
    using chain_put [of net e fs t "put_message m" m fuel] l t(1,3) m parse_put_message put_message_word
    by (auto simp: es forwards_def)
  then have "request fuel e (put_message m) net = (Ret ''ACK'', write_all m es net)"
    using m(2) by (intro request_eq) simp_all
  moreover have at: "metadata_at (last es) (write_all m es net) = Some (stored m t)"
    using t(1) metadata_at_write_all [OF l(2)] last_in_set [of es] es by simp
  moreover have "linked (write_all m es net) es" using l(1,2) by (rule linked_write_all_self)
  moreover have "length (found_message m) < 2 ^ 32"
    using m found_message_length [of m] by (simp add: wf_metadata_def)
  ultimately show ?thesis using t l es by (auto simp: chain_request_def chain_ok_def chain_store_def)
qed

lemma chain_get_request:
  assumes "chain_ok fuel es net" and "op_ok (Get_Op f)"
  shows "chain_request fuel es (Get_Op f) net = (Ret (get_reply (chain_store es net) f), net)"
proof -
  obtain t where t: "metadata_at (last es) net = Some t" "meta_running t" "role_of t = TAIL \<or> role_of t = SINGLE"
      "\<forall>f m. metadataStore t f = Some m \<longrightarrow> length (found_message m) < 2 ^ 32"
    using assms(1) by (auto simp: chain_ok_def)
  have h: "handleGet f t = get_reply (chain_store es net) f" using t(1,3) by (auto simp: handleGet_def get_reply_def chain_store_def)
  have f: "is_word f" "length (''GET '' @ f) < 2 ^ 32" using assms(2) by simp_all
  have "length (get_reply (chain_store es net) f) < 2 ^ 32"
    using t(1,4) by (auto simp: get_reply_def chain_store_def split: option.splits)
  then have "request fuel (last es) (''GET '' @ f) net = (Ret (get_reply (chain_store es net) f), net)"
    using f(2) serve_get [OF t(1,2) f(1), of fuel] by (intro request_eq) (simp_all only: h)
  then show ?thesis by (simp add: chain_request_def)
qed

interpretation chain: record_service "chain_request fuel es" "chain_store es" "chain_ok fuel es" for fuel es
proof unfold_locales
  fix fuel es net m assume "chain_ok fuel es net" and "op_ok (Put_Op m)"
  then show "\<exists>net'. chain_request fuel es (Put_Op m) net = (Ret ''ACK'', net') \<and> chain_ok fuel es net' \<and>
      chain_store es net' = (chain_store es net)(meta_filename m \<mapsto> m)"
    using chain_put_request by blast
qed (rule chain_get_request)

section \<open>A cycle of successors\<close>

text \<open>Every node of \<open>S\<close> is up and forwards to a node of \<open>S\<close>.\<close>

definition forward_closed :: "network \<Rightarrow> endpoint set \<Rightarrow> bool" where
  "forward_closed net S \<longleftrightarrow> (\<forall>e \<in> S. \<exists>n. metadata_at e net = Some n \<and> meta_running n \<and> forwards n \<and>
     (\<exists>f \<in> S. endpoint_of net (nextNodeIp n) (nextNodePort n) = Some f))"

lemma forward_closed_write_to: "forward_closed net S \<Longrightarrow> forward_closed (write_to m e net) S"
  unfolding forward_closed_def by (fastforce simp: metadata_at_write_to)

lemma serve_stuck:
  assumes "metadata_at e net = Some n" and "meta_running n" and "forwards n" and "parse_put cmd = Some m"
    and "fst (read_word [] (open_stream cmd)) = ''PUT''"
    and "fwd (nextNodeIp n) (nextNodePort n) cmd (write_to m e net) = (Hang, net')"
  shows "serve_with fwd e AwaitCommand (bytes_of_string cmd) net = (Stuck, [], net')"
proof -
  have "cmd \<noteq> []" using assms(5) by (auto simp: read_word_def open_stream_def)
  moreover have w: "write_to m e net = set_host e (MetadataServer (stored m n)) net" using assms(1) by (simp add: write_to_def)
  then have "handlePut (\<lambda>n' w. set_host e (MetadataServer n') w) fwd cmd n net = (Hang, net')"
    using assms(3,4,6) by (simp add: handlePut_def stored_def forwards_def Let_def)
  ultimately show ?thesis
    using assms(1,2,5) by (simp add: serve_with_def metadata_at_host metadata_step_def metadata_command_PUT)
qed

lemma stuck_hangs:
  assumes "length cmd < 2 ^ 32" and "s e AwaitCommand (bytes_of_string cmd) net = (Stuck, [], net')"
  shows "\<exists>c c'. sendMessage s cmd (fresh e) net = (c, net') \<and> recvMessage c = (Hang, c')"
proof -
  have "sendMessage s cmd (fresh e) net = ((fresh e)\<lparr>ctl := Stuck, to_client := to_client (fresh e) @ concat (map frame [])\<rparr>, net')"
    using assms unfolding sendMessage_def by (intro sendData_once) (simp_all add: fresh_def)
  then show ?thesis by (simp add: recvMessage_def recvData_def fresh_def take_frame_Nil)
qed

lemma forwardPut_hangs:
  assumes cmd: "parse_put cmd = Some m" "fst (read_word [] (open_stream cmd)) = ''PUT''" "length cmd < 2 ^ 32"
    and "forward_closed net S" and "e \<in> S" and "endpoint_of net ip port = Some e"
  shows "\<exists>net'. forwardPut fuel ip port cmd net = (Hang, net')"
  using assms(4-6)
proof (induction fuel arbitrary: net ip port e)
  case (Suc fuel)
  obtain n f where n: "metadata_at e net = Some n" "meta_running n" "forwards n" "f \<in> S"
    "endpoint_of net (nextNodeIp n) (nextNodePort n) = Some f"
    using Suc.prems(1,2) by (auto simp: forward_closed_def)
  have "\<exists>net'. forwardPut fuel (nextNodeIp n) (nextNodePort n) cmd (write_to m e net) = (Hang, net')"
    using Suc.prems(1) n(4,5) by (intro Suc.IH [of _ f] forward_closed_write_to) simp_all
  then obtain net' where "forwardPut fuel (nextNodeIp n) (nextNodePort n) cmd (write_to m e net) = (Hang, net')" ..
  then have "serve_with (forwardPut fuel) e AwaitCommand (bytes_of_string cmd) net = (Stuck, [], net')"
    using n(1-3) cmd(1,2) by (intro serve_stuck)
  then obtain c c' where "sendMessage (serve_with (forwardPut fuel)) cmd (fresh e) net = (c, net')" "recvMessage c = (Hang, c')"
    using stuck_hangs [OF cmd(3)] by blast
  then show ?case using connect_metadata [OF Suc.prems(3) n(1,2)] by simp
qed simp

section \<open>Properties\<close>

text \<open>
  C5: The chain refines a map. For any sequence of writes and reads that come one after the
  other, writes sent to the head and reads to the last node of an up and linked chain, the
  replies are those of a single map from names to records that starts with what the last
  node holds; every request returns, the chain stays up and linked, and afterwards the last
  node holds that map's final value.
\<close>
theorem chain_refines_map:
  assumes "chain_ok fuel es net" and "list_all op_ok ops"
  shows "\<exists>net'. run_ops (chain_request fuel es) ops net = (fst (spec_run ops (chain_store es net)), net') \<and>
    chain_ok fuel es net' \<and> chain_store es net' = snd (spec_run ops (chain_store es net))"
  using assms by (rule chain.refines)

theorem chain_refines_map_witness:
  "fst (run_ops (chain_request 2 local_chain) [Get_Op ''a.txt'', Put_Op wit_meta, Get_Op ''a.txt''] startCluster) =
   [Ret ''NOT_FOUND'', Ret ''ACK'', Ret (found_message wit_meta)]"
proof -
  have at: "metadata_at (last local_chain) startCluster = Some (new_metadata_node [] (-1) 9003)"
    by (simp add: local_defs)
  then have "chain_ok 2 local_chain startCluster"
    using local_linked local_distinct by (simp add: chain_ok_def local_chain_def new_metadata_node_def)
  moreover have "list_all op_ok [Get_Op ''a.txt'', Put_Op wit_meta, Get_Op ''a.txt'']"
    using wit_meta_wf wit_meta_length by (simp add: is_word_def is_space_def)
  moreover have "chain_store local_chain startCluster = Map.empty" "meta_filename wit_meta = ''a.txt''"
    using at by (simp_all add: chain_store_def new_metadata_node_def wit_meta_def)
  ultimately show ?thesis
    using chain_refines_map [of 2 local_chain startCluster "[Get_Op ''a.txt'', Put_Op wit_meta, Get_Op ''a.txt'']"]
    by (auto simp: get_reply_def)
qed

text \<open>
  C32: A write into a cycle of successors never returns. When every node of some set is up
  and forwards within the set (as after an \<open>UPDATE_NEXT\<close> that points the last node back),
  a \<open>PUT\<close> to any of them leaves its handler blocked and its sender waiting for ever,
  whatever the depth of forwarding allowed.
\<close>
theorem put_in_cycle_never_returns:
  assumes "forward_closed net S" and "e \<in> S" and "wf_metadata m" and "length (put_message m) < 2 ^ 32"
  shows "\<exists>net'. request fuel e (put_message m) net = (Hang, net')"
proof -
  note cmd = parse_put_message [OF assms(3)] put_message_word [of m] assms(4)
  obtain n f where n: "metadata_at e net = Some n" "meta_running n" "forwards n" "f \<in> S"
    "endpoint_of net (nextNodeIp n) (nextNodePort n) = Some f"
    using assms(1,2) by (auto simp: forward_closed_def)
  obtain net' where "forwardPut fuel (nextNodeIp n) (nextNodePort n) (put_message m) (write_to m e net) = (Hang, net')"
    using forwardPut_hangs [OF cmd forward_closed_write_to [OF assms(1)] n(4)] n(5) by fastforce
  then have "serve fuel e AwaitCommand (bytes_of_string (put_message m)) net = (Stuck, [], net')"
    unfolding serve_def using n(1-3) cmd(1,2) by (intro serve_stuck)
  from stuck_hangs [where s = "serve fuel", OF cmd(3) this] show ?thesis by (auto simp: request_def)
qed

definition looped :: network where
  "looped = \<lparr>resolve = local_resolve, hosts =
     [local_ep 9001 \<mapsto> MetadataServer (new_metadata_node ''127.0.0.1'' 9002 9001),
      local_ep 9002 \<mapsto> MetadataServer (update_next ''127.0.0.1'' 9001 (new_metadata_node [] (-1) 9002))]\<rparr>"

theorem put_in_cycle_never_returns_witness:
  "\<exists>net'. request 100 (local_ep 9001) (put_message wit_meta) looped = (Hang, net')"
proof -
  have "forward_closed looped {local_ep 9001, local_ep 9002}"
    by (simp add: forward_closed_def looped_def metadata_at_def endpoint_of_def local_resolve_def new_metadata_node_def
        update_next_def forwards_def)
  then show ?thesis
    using put_in_cycle_never_returns [of looped "{local_ep 9001, local_ep 9002}" "local_ep 9001" wit_meta 100]
      wit_meta_wf wit_meta_length by simp
qed

end
