(* ===== verification/Chain_Growth.thy ===== *)
theory Chain_Growth
  imports Chain_Register
begin

text \<open>
  Growing a metadata chain with the command \<open>UPDATE_NEXT\<close>
  (\<^verbatim>\<open>src/src/metadata/metadata_node.cpp\<close>): the last node is told of a new successor. The
  longer chain is linked and serves as one map (\<open>Chain_Register\<close>) again, but the map starts
  empty: the command moves the reading point and no record.
\<close>

section \<open>The command\<close>

definition update_next_message :: "string \<Rightarrow> int \<Rightarrow> string" where
  "update_next_message ip port = ''UPDATE_NEXT '' @ ip @ '' '' @ to_string port"

lemma metadata_command_UPDATE_NEXT:
  assumes "is_word ip" and "INT_MIN \<le> port" and "port \<le> INT_MAX"
  shows "metadata_command commit fwd (update_next_message ip port) n w =
    (AwaitCommand, [bytes_of_string ''ACK''], commit (update_next ip port n) w)"
proof -
  have "read_ip_port \<lparr>rest = '' '' @ ip @ '' '' @ to_string port, failed = False\<rparr> = Some (ip, port)"
    using assms by (simp add: read_ip_port_def text_simps)
  then show ?thesis
    using read_word_cmd [of "''UPDATE_NEXT''" "[]" "ip @ '' '' @ to_string port"]
    by (simp add: metadata_command_def update_next_message_def)
qed

lemma update_next_simps [simp]:
  "meta_running (update_next ip port n) = meta_running n" "nextNodeIp (update_next ip port n) = ip"
  "nextNodePort (update_next ip port n) = port" "metadataStore (update_next ip port n) = metadataStore n"
  by (simp_all add: update_next_def Let_def)

lemma update_next_forwards: "port \<noteq> -1 \<Longrightarrow> forwards (update_next ip port n)"
  by (cases "role_of n") (simp_all add: update_next_def forwards_def Let_def)

lemma update_next_request:
  assumes "metadata_at e net = Some t" and "meta_running t" and "is_word ip" and "length ip < 2 ^ 31"
    and "INT_MIN \<le> port" and "port \<le> INT_MAX"
  shows "request fuel e (update_next_message ip port) net =
    (Ret ''ACK'', set_host e (MetadataServer (update_next ip port t)) net)"
proof -
  have "length (to_string port) \<le> 20" using assms(5,6) by (intro to_string_length) simp
  then have "length (update_next_message ip port) < 2 ^ 32" using assms(4) by (simp add: update_next_message_def)
  moreover have "serve fuel e AwaitCommand (bytes_of_string (update_next_message ip port)) net =
      (AwaitCommand, [bytes_of_string ''ACK''], set_host e (MetadataServer (update_next ip port t)) net)"
    using assms metadata_command_UPDATE_NEXT [OF assms(3,5,6)]
    by (simp add: serve_def serve_with_def metadata_at_host metadata_step_def) (simp add: update_next_message_def)
  ultimately show ?thesis by (intro request_eq) simp_all
qed

section \<open>The longer chain\<close>

lemma linked_grow:
  assumes "linked net es" and "distinct es" and "metadata_at x net = Some n" and "meta_running n" and "x \<notin> set es"
    and "meta_running t" and "forwards t" and "endpoint_of net (nextNodeIp t) (nextNodePort t) = Some x"
  shows "linked (set_host (last es) (MetadataServer t) net) (es @ [x])"
  using assms
proof (induction net es rule: linked.induct)
  case (3 net e f es)
  then have "e \<noteq> last (f # es)" by auto
  then show ?case using 3 by (auto simp: metadata_at_set_host split: option.splits)
qed (auto simp: metadata_at_set_host)

lemma reader_reply:
  assumes "metadata_at e net = Some n" and "meta_running n" and "op_ok (Get_Op f)" and "length (handleGet f n) < 2 ^ 32"
  shows "request fuel e (''GET '' @ f) net = (Ret (handleGet f n), net)"
  using assms(3,4) serve_get [OF assms(1,2), of f fuel] by (intro request_eq) simp_all

section \<open>Properties\<close>

text \<open>
  C31: A chain that grows forgets. When the last node of an up and linked chain is told by
  \<open>UPDATE_NEXT\<close> of a fresh node as its successor, it acknowledges, every node keeps its
  records, and the longer chain is up and linked and serves further requests as one map; but
  that map is empty. A read of any name, also of one whose write was acknowledged before, is
  answered \<open>NOT_FOUND\<close> by the new last node, and the old one sends its readers there.
\<close>
theorem growing_chain_forgets:
  assumes "chain_ok fuel es net" and "metadata_at x net = Some n" and "meta_running n" and "role_of n = TAIL \<or> role_of n = SINGLE"
    and "metadataStore n = Map.empty" and "x \<notin> set es" and "endpoint_of net ip port = Some x"
    and "is_word ip" and "length ip < 2 ^ 31" and "0 \<le> port" and "port \<le> INT_MAX"
  shows "\<exists>net'. request fuel (last es) (update_next_message ip port) net = (Ret ''ACK'', net') \<and>
    (\<forall>e \<in> set es. map_option metadataStore (metadata_at e net') = map_option metadataStore (metadata_at e net)) \<and>
    chain_ok (Suc fuel) (es @ [x]) net' \<and> chain_store (es @ [x]) net' = Map.empty \<and>
    (\<forall>f. op_ok (Get_Op f) \<longrightarrow> request fuel x (''GET '' @ f) net' = (Ret ''NOT_FOUND'', net') \<and>
       request fuel (last es) (''GET '' @ f) net' = (Ret ''REDIRECT_TO_TAIL'', net'))"
proof -
  obtain t where t: "metadata_at (last es) net = Some t" "meta_running t" and l: "es \<noteq> []" "linked net es" "distinct es" "length es \<le> Suc fuel"
    using assms(1) by (auto simp: chain_ok_def)
  let ?t = "update_next ip port t"
  let ?net = "set_host (last es) (MetadataServer ?t) net"
  have x: "x \<noteq> last es" using assms(6) l(1) by auto
  have fw: "forwards ?t" using assms(10) by (intro update_next_forwards) simp
  have at: "metadata_at x ?net = Some n" "metadata_at (last es) ?net = Some ?t"
    using assms(2) x by (simp_all add: metadata_at_set_host)
  have "linked ?net (es @ [x])" using linked_grow [OF l(2,3) assms(2,3,6)] t(2) fw assms(7) by simp
  then have ok: "chain_ok (Suc fuel) (es @ [x]) ?net" "chain_store (es @ [x]) ?net = Map.empty"
    using l(3,4) at(1) assms(3-6) by (simp_all add: chain_ok_def chain_store_def)
  have get: "request fuel x (''GET '' @ f) ?net = (Ret ''NOT_FOUND'', ?net) \<and>
      request fuel (last es) (''GET '' @ f) ?net = (Ret ''REDIRECT_TO_TAIL'', ?net)" if f: "op_ok (Get_Op f)" for f
  proof -
    have "handleGet f n = ''NOT_FOUND''" using assms(4,5) by (auto simp: handleGet_def)
    moreover have "handleGet f ?t = ''REDIRECT_TO_TAIL''" using fw by (simp add: forwards_def handleGet_def)
    ultimately show ?thesis
      using reader_reply [OF at(1) assms(3) f, of fuel] reader_reply [OF at(2) _ f, of fuel] t(2) by simp
  qed
  have "request fuel (last es) (update_next_message ip port) net = (Ret ''ACK'', ?net)"
    using t assms(8-11) by (intro update_next_request) simp_all
  moreover have "\<forall>e \<in> set es. map_option metadataStore (metadata_at e ?net) = map_option metadataStore (metadata_at e net)"
    using t(1) by (simp add: metadata_at_set_host)
  ultimately show ?thesis using ok get by blast
qed

text \<open>The local chain with a record written, and a fresh node on port 9004.\<close>

definition grown_start :: network where
  "grown_start = set_host (local_ep 9004) (MetadataServer (new_metadata_node [] (-1) 9004)) (write_all wit_meta local_chain startCluster)"

theorem growing_chain_forgets_witness:
  "get_reply (chain_store local_chain grown_start) ''a.txt'' = found_message wit_meta \<and>
   (\<exists>net'. request 2 (local_ep 9003) (update_next_message ''127.0.0.1'' 9004) grown_start = (Ret ''ACK'', net') \<and>
      request 2 (local_ep 9004) (''GET '' @ ''a.txt'') net' = (Ret ''NOT_FOUND'', net'))"
proof -
  let ?w = "write_all wit_meta local_chain startCluster"
  have at: "metadata_at (last local_chain) startCluster = Some (new_metadata_node [] (-1) 9003)"
    by (simp add: local_defs)
  have last: "last local_chain = local_ep 9003" "local_ep 9003 \<in> set local_chain" "local_ep 9004 \<notin> set local_chain"
    by (simp_all add: local_chain_def)
  have "chain_ok 2 local_chain startCluster"
    using local_linked local_distinct at by (simp add: chain_ok_def local_chain_def new_metadata_node_def)
  moreover have "op_ok (Put_Op wit_meta)" using wit_meta_wf wit_meta_length by simp
  ultimately have w: "chain_ok 2 local_chain ?w" "chain_store local_chain ?w = [''a.txt'' \<mapsto> wit_meta]"
    using chain_put_request [of 2 local_chain startCluster wit_meta] at
    by (simp_all add: chain_store_def new_metadata_node_def wit_meta_def)
  have same: "metadata_at e grown_start = metadata_at e ?w" if "e \<in> set local_chain" for e
    using that last(3) by (auto simp: grown_start_def metadata_at_set_host)
  have "linked grown_start local_chain" using w(1) last(3) by (simp add: grown_start_def chain_ok_def linked_set_host)
  then have ok: "chain_ok 2 local_chain grown_start" using w(1) same [OF last(2)] last(1) by (simp add: chain_ok_def)
  have new: "metadata_at (local_ep 9004) grown_start = Some (new_metadata_node [] (-1) 9004)"
    by (simp add: grown_start_def metadata_at_set_host)
  have ep: "endpoint_of grown_start ''127.0.0.1'' 9004 = Some (local_ep 9004)"
    by (simp add: grown_start_def) (simp add: endpoint_of_def startCluster_def local_resolve_def)
  have "op_ok (Get_Op ''a.txt'')" "is_word ''127.0.0.1''" by (simp_all add: is_word_def is_space_def)
  then have "\<exists>net'. request 2 (local_ep 9003) (update_next_message ''127.0.0.1'' 9004) grown_start = (Ret ''ACK'', net') \<and>
      request 2 (local_ep 9004) (''GET '' @ ''a.txt'') net' = (Ret ''NOT_FOUND'', net')"
    using growing_chain_forgets [OF ok new _ _ _ last(3) ep] last(1) by (auto simp: new_metadata_node_def)
  moreover have "chain_store local_chain grown_start = [''a.txt'' \<mapsto> wit_meta]"
    using w(2) same [OF last(2)] last(1) by (simp add: chain_store_def)
  ultimately show ?thesis by (simp add: get_reply_def)
qed

end
