(* ===== verification/Chain_Interleaving.thy ===== *)
theory Chain_Interleaving
  imports Metadata_Node
begin

text \<open>
  Several \<open>PUT\<close>s under way in the metadata chain at once
  (\<^verbatim>\<open>src/src/metadata/metadata_node.cpp\<close>, \<open>handlePut\<close>). Every connection has its own
  handler thread. \<open>handlePut\<close> holds \<open>storeMutex_\<close> only while it stores the record and
  forwards the command after releasing it, so between the store at one node and the store at
  the next any other handler may run. A \<open>PUT\<close> under way is therefore a record and the
  number of nodes that have stored it; a step starts a \<open>PUT\<close> at the head or takes one
  \<open>PUT\<close> one node further. A \<open>PUT\<close> that has passed the last node is acknowledged. The
  nodes here are the up and linked chain of \<open>Cluster.linked\<close>, head first.
\<close>

section \<open>The interleaved chain\<close>

record put_run =
  put_meta :: file_metadata
  put_pos :: nat

record chain_state =
  chain_nodes :: "metadata_node list"
  puts :: "put_run list"

definition arrived :: "file_metadata \<Rightarrow> chain_state \<Rightarrow> chain_state" where
  "arrived m s = s\<lparr>puts := puts s @ [\<lparr>put_meta = m, put_pos = 0\<rparr>]\<rparr>"

text \<open>The critical section of \<open>handlePut\<close> of the \<open>i\<close>-th \<open>PUT\<close> at the node it has reached.\<close>

definition advanced :: "nat \<Rightarrow> chain_state \<Rightarrow> chain_state" where
  "advanced i s =
     (let p = puts s ! i; k = put_pos p in
      s\<lparr>chain_nodes := (chain_nodes s)[k := stored (put_meta p) (chain_nodes s ! k)],
        puts := (puts s)[i := p\<lparr>put_pos := Suc k\<rparr>]\<rparr>)"

inductive put_step :: "chain_state \<Rightarrow> chain_state \<Rightarrow> bool" where
  arrive: "put_step s (arrived m s)"
| advance: "i < length (puts s) \<Longrightarrow> put_pos (puts s ! i) < length (chain_nodes s) \<Longrightarrow> put_step s (advanced i s)"

inductive_cases put_stepE: "put_step s t"

definition idle_chain :: "metadata_node list \<Rightarrow> chain_state" where
  "idle_chain ns = \<lparr>chain_nodes = ns, puts = []\<rparr>"

definition acked :: "chain_state \<Rightarrow> put_run \<Rightarrow> bool" where
  "acked s p \<longleftrightarrow> p \<in> set (puts s) \<and> put_pos p = length (chain_nodes s)"

definition name_of :: "put_run \<Rightarrow> string" where
  "name_of p = meta_filename (put_meta p)"

section \<open>What every interleaving keeps\<close>

text \<open>
  Node \<open>j\<close> holds, for each name, the record of some \<open>PUT\<close> of that name that has passed it,
  and what it held at the start when none has.
\<close>

definition chain_inv :: "metadata_node list \<Rightarrow> chain_state \<Rightarrow> bool" where
  "chain_inv ns s \<longleftrightarrow> length (chain_nodes s) = length ns \<and>
     (\<forall>p \<in> set (puts s). put_pos p \<le> length ns) \<and>
     (\<forall>j < length ns. \<forall>f.
        (\<exists>p \<in> set (puts s). name_of p = f \<and> j < put_pos p \<and> metadataStore (chain_nodes s ! j) f = Some (put_meta p)) \<or>
        ((\<forall>p \<in> set (puts s). name_of p = f \<longrightarrow> put_pos p \<le> j) \<and>
          metadataStore (chain_nodes s ! j) f = metadataStore (ns ! j) f))"

lemma chain_inv_idle: "chain_inv ns (idle_chain ns)"
  by (simp add: chain_inv_def idle_chain_def)

lemma chain_inv_arrived:
  assumes "chain_inv ns s" shows "chain_inv ns (arrived m s)"
proof -
  have "set (puts (arrived m s)) = insert \<lparr>put_meta = m, put_pos = 0\<rparr> (set (puts s))"
    "chain_nodes (arrived m s) = chain_nodes s" by (simp_all add: arrived_def)
  then show ?thesis using assms unfolding chain_inv_def by (simp only: ball_simps bex_simps) simp
qed

lemma chain_nodes_advanced:
  "chain_nodes (advanced i s) = (chain_nodes s)[put_pos (puts s ! i) :=
     stored (put_meta (puts s ! i)) (chain_nodes s ! put_pos (puts s ! i))]"
  by (simp add: advanced_def Let_def)

lemma puts_advanced: "puts (advanced i s) = (puts s)[i := (puts s ! i)\<lparr>put_pos := Suc (put_pos (puts s ! i))\<rparr>]"
  by (simp add: advanced_def Let_def)

lemma name_of_pos [simp]: "name_of (p\<lparr>put_pos := k\<rparr>) = name_of p"
  by (simp add: name_of_def)

text \<open>A \<open>PUT\<close> present before the step is present after it, at least as far.\<close>

lemma put_still_there:
  assumes "p \<in> set (puts s)" and "i < length (puts s)"
  shows "\<exists>q \<in> set (puts (advanced i s)). put_meta q = put_meta p \<and> put_pos p \<le> put_pos q"
proof -
  obtain j where j: "j < length (puts s)" "p = puts s ! j" using assms(1) by (auto simp: in_set_conv_nth)
  have "puts (advanced i s) ! j \<in> set (puts (advanced i s))" using j(1) by (simp add: puts_advanced)
  moreover have "put_meta (puts (advanced i s) ! j) = put_meta p \<and> put_pos p \<le> put_pos (puts (advanced i s) ! j)"
    using j assms(2) by (cases "i = j") (simp_all add: puts_advanced)
  ultimately show ?thesis by blast
qed

lemma chain_inv_advanced:
  assumes "chain_inv ns s" and i: "i < length (puts s)" and k: "put_pos (puts s ! i) < length (chain_nodes s)"
  shows "chain_inv ns (advanced i s)"
proof -
  let ?p = "puts s ! i" and ?t = "advanced i s"
  let ?q = "?p\<lparr>put_pos := Suc (put_pos ?p)\<rparr>"
  have len: "length (chain_nodes s) = length ns" and pos: "\<forall>p \<in> set (puts s). put_pos p \<le> length ns"
    using assms(1) by (simp_all add: chain_inv_def)
  have q: "?q \<in> set (puts ?t)" using i by (simp add: puts_advanced set_update_memI)
  have sub: "set (puts ?t) \<subseteq> insert ?q (set (puts s))" by (simp add: puts_advanced set_update_subset_insert)
  have node: "metadataStore (chain_nodes ?t ! j) f =
      (if j = put_pos ?p \<and> f = name_of ?p then Some (put_meta ?p) else metadataStore (chain_nodes s ! j) f)"
    if "j < length ns" for j f
    using that len by (cases "j = put_pos ?p") (simp_all add: chain_nodes_advanced name_of_def)
  have "(\<exists>p \<in> set (puts ?t). name_of p = f \<and> j < put_pos p \<and> metadataStore (chain_nodes ?t ! j) f = Some (put_meta p)) \<or>
      ((\<forall>p \<in> set (puts ?t). name_of p = f \<longrightarrow> put_pos p \<le> j) \<and>
        metadataStore (chain_nodes ?t ! j) f = metadataStore (ns ! j) f)" if j: "j < length ns" for j f
  proof (cases "j = put_pos ?p \<and> f = name_of ?p")
    case True
    then have "name_of ?q = f \<and> j < put_pos ?q \<and> metadataStore (chain_nodes ?t ! j) f = Some (put_meta ?q)"
      using node [OF j] by simp
    then show ?thesis using q by blast
  next
    case False
    then have same: "metadataStore (chain_nodes ?t ! j) f = metadataStore (chain_nodes s ! j) f" by (simp only: node [OF j] False if_False)
    from assms(1) j consider
        p where "p \<in> set (puts s)" "name_of p = f" "j < put_pos p" "metadataStore (chain_nodes s ! j) f = Some (put_meta p)"
      | "\<forall>p \<in> set (puts s). name_of p = f \<longrightarrow> put_pos p \<le> j" "metadataStore (chain_nodes s ! j) f = metadataStore (ns ! j) f"
      unfolding chain_inv_def by blast
    then show ?thesis
    proof cases
      case (1 p)
      obtain r where "r \<in> set (puts ?t)" "put_meta r = put_meta p" "put_pos p \<le> put_pos r"
        using put_still_there [OF 1(1) i] by blast
      then show ?thesis using 1 same by (intro disjI1 bexI [of _ r]) (auto simp: name_of_def)
    next
      case 2
      have "put_pos ?q \<le> j" if "name_of ?q = f"
        using 2(1) False that nth_mem [OF i] by (fastforce simp: Suc_le_eq order_less_le)
      then have "\<forall>p \<in> set (puts ?t). name_of p = f \<longrightarrow> put_pos p \<le> j" using sub 2(1) by blast
      then show ?thesis using 2(2) same by simp
    qed
  qed
  moreover have "\<forall>p \<in> set (puts ?t). put_pos p \<le> length ns" using sub pos k len by auto
  moreover have "length (chain_nodes ?t) = length ns" using len by (simp add: chain_nodes_advanced)
  ultimately show ?thesis unfolding chain_inv_def by blast
qed

lemma reachable_chain_inv:
  assumes "put_step\<^sup>*\<^sup>* (idle_chain ns) s" shows "chain_inv ns s"
  using assms
proof (induction rule: rtranclp_induct)
  case base
  show ?case by (rule chain_inv_idle)
next
  case (step s t)
  from step.hyps(2) show ?case
    by (cases rule: put_step.cases) (auto intro: chain_inv_arrived chain_inv_advanced step.IH)
qed

section \<open>Properties\<close>

text \<open>
  C16: However the \<open>PUT\<close>s of a chain interleave, nothing is invented or lost: once every
  \<open>PUT\<close> under way has been acknowledged, each node holds for each name the record of one of
  the \<open>PUT\<close>s of that name, or what it held at the start when there was none. So \<open>PUT\<close>s
  of different names leave all nodes with the same new records.
\<close>
theorem interleaved_puts_settle:
  assumes "put_step\<^sup>*\<^sup>* (idle_chain ns) s" and "\<forall>p \<in> set (puts s). acked s p" and "j < length ns"
  shows "(\<forall>f. (\<exists>p \<in> set (puts s). name_of p = f \<and> metadataStore (chain_nodes s ! j) f = Some (put_meta p)) \<or>
        ((\<forall>p \<in> set (puts s). name_of p \<noteq> f) \<and> metadataStore (chain_nodes s ! j) f = metadataStore (ns ! j) f))
    \<and> (inj_on name_of (set (puts s)) \<longrightarrow> (\<forall>p \<in> set (puts s). metadataStore (chain_nodes s ! j) (name_of p) = Some (put_meta p)))"
proof -
  have inv: "chain_inv ns s" using assms(1) by (rule reachable_chain_inv)
  then have pos: "\<forall>p \<in> set (puts s). put_pos p = length ns" using assms(2) by (simp add: acked_def chain_inv_def)
  have settled: "(\<exists>p \<in> set (puts s). name_of p = f \<and> metadataStore (chain_nodes s ! j) f = Some (put_meta p)) \<or>
        ((\<forall>p \<in> set (puts s). name_of p \<noteq> f) \<and> metadataStore (chain_nodes s ! j) f = metadataStore (ns ! j) f)" for f
    using inv assms(3) pos unfolding chain_inv_def by (metis not_le)
  moreover have "metadataStore (chain_nodes s ! j) (name_of p) = Some (put_meta p)"
    if "inj_on name_of (set (puts s))" "p \<in> set (puts s)" for p
    using settled [of "name_of p"] that by (metis inj_onD)
  ultimately show ?thesis by blast
qed

definition rec_of :: "string \<Rightarrow> file_metadata" where
  "rec_of h = no_metadata\<lparr>meta_filename := ''f'', meta_rootHash := h, meta_chunkHashes := [h]\<rparr>"

definition two_chain :: "metadata_node list" where
  "two_chain = [new_metadata_node ''127.0.0.1'' 9002 9001, new_metadata_node [] (-1) 9002]"

text \<open>The schedule: both \<open>PUT\<close>s arrive and store at the head, the second overtakes.\<close>

definition overtaken :: "nat list \<Rightarrow> chain_state" where
  "overtaken is = foldl (\<lambda>s i. advanced i s) (arrived (rec_of ''b'') (arrived (rec_of ''a'') (idle_chain two_chain))) is"

lemmas schedule_defs = overtaken_def advanced_def arrived_def idle_chain_def two_chain_def rec_of_def

lemma overtaken_steps:
  "put_step\<^sup>*\<^sup>* (idle_chain two_chain) (overtaken [])" "put_step (overtaken []) (overtaken [0])"
  "put_step (overtaken [0]) (overtaken [0, 1])" "put_step (overtaken [0, 1]) (overtaken [0, 1, 1])"
  "put_step (overtaken [0, 1, 1]) (overtaken [0, 1, 1, 0])"
proof -
  have "put_step\<^sup>*\<^sup>* (idle_chain two_chain) (arrived (rec_of ''a'') (idle_chain two_chain))"
    by (intro r_into_rtranclp put_step.arrive)
  then show "put_step\<^sup>*\<^sup>* (idle_chain two_chain) (overtaken [])"
    unfolding overtaken_def by (auto intro: rtranclp.rtrancl_into_rtrancl put_step.arrive)
  have step: "put_step (overtaken is) (overtaken (is @ [i]))"
    if "i < length (puts (overtaken is))" "put_pos (puts (overtaken is) ! i) < length (chain_nodes (overtaken is))" for "is" i
    using put_step.advance [OF that] by (simp add: overtaken_def)
  show "put_step (overtaken []) (overtaken [0])" using step [of 0 "[]"] by (simp add: schedule_defs)
  show "put_step (overtaken [0]) (overtaken [0, 1])" using step [of 1 "[0]"] by (simp add: schedule_defs)
  show "put_step (overtaken [0, 1]) (overtaken [0, 1, 1])" using step [of 1 "[0, 1]"] by (simp add: schedule_defs)
  show "put_step (overtaken [0, 1, 1]) (overtaken [0, 1, 1, 0])" using step [of 0 "[0, 1, 1]"] by (simp add: schedule_defs)
qed

definition overtaking :: chain_state where
  "overtaking = overtaken [0, 1, 1, 0]"

lemma overtaking_reachable: "put_step\<^sup>*\<^sup>* (idle_chain two_chain) overtaking"
  unfolding overtaking_def
  by (rule rtranclp.rtrancl_into_rtrancl [OF rtranclp.rtrancl_into_rtrancl [OF rtranclp.rtrancl_into_rtrancl
      [OF rtranclp.rtrancl_into_rtrancl [OF overtaken_steps(1,2)] overtaken_steps(3)] overtaken_steps(4)] overtaken_steps(5)])

lemma overtaking_end:
  "puts overtaking = [\<lparr>put_meta = rec_of ''a'', put_pos = 2\<rparr>, \<lparr>put_meta = rec_of ''b'', put_pos = 2\<rparr>]"
  "length (chain_nodes overtaking) = 2"
  "metadataStore (chain_nodes overtaking ! 0) ''f'' = Some (rec_of ''b'')"
  "metadataStore (chain_nodes overtaking ! 1) ''f'' = Some (rec_of ''a'')"
  by (simp_all add: overtaking_def schedule_defs no_metadata_def)

theorem interleaved_puts_settle_witness:
  "\<exists>p \<in> set (puts overtaking). metadataStore (chain_nodes overtaking ! 0) ''f'' = Some (put_meta p)"
proof -
  have "\<forall>p \<in> set (puts overtaking). acked overtaking p"
    by (simp add: acked_def overtaking_end)
  moreover have "0 < length two_chain" by (simp add: two_chain_def)
  ultimately have "(\<exists>p \<in> set (puts overtaking). name_of p = ''f'' \<and>
        metadataStore (chain_nodes overtaking ! 0) ''f'' = Some (put_meta p)) \<or>
      (\<forall>p \<in> set (puts overtaking). name_of p \<noteq> ''f'')"
    using interleaved_puts_settle [OF overtaking_reachable, of 0] by blast
  then show ?thesis by (auto simp: overtaking_end name_of_def rec_of_def)
qed

text \<open>One \<open>PUT\<close> taken \<open>d\<close> nodes further while the others wait.\<close>

lemma run_to:
  assumes "i < length (puts s)" and "put_pos (puts s ! i) + d \<le> length (chain_nodes s)"
  shows "\<exists>t. put_step\<^sup>*\<^sup>* s t \<and> puts t = (puts s)[i := (puts s ! i)\<lparr>put_pos := put_pos (puts s ! i) + d\<rparr>] \<and>
    length (chain_nodes t) = length (chain_nodes s) \<and>
    (\<forall>j < length (chain_nodes s). chain_nodes t ! j =
      (if put_pos (puts s ! i) \<le> j \<and> j < put_pos (puts s ! i) + d then stored (put_meta (puts s ! i)) (chain_nodes s ! j)
       else chain_nodes s ! j))"
  using assms(2)
proof (induction d)
  case 0
  have "(puts s)[i := (puts s ! i)\<lparr>put_pos := put_pos (puts s ! i) + 0\<rparr>] = puts s" by simp
  then show ?case by (intro exI [of _ s]) auto
next
  case (Suc d)
  then obtain t where t: "put_step\<^sup>*\<^sup>* s t" "puts t = (puts s)[i := (puts s ! i)\<lparr>put_pos := put_pos (puts s ! i) + d\<rparr>]"
      "length (chain_nodes t) = length (chain_nodes s)"
      "\<forall>j < length (chain_nodes s). chain_nodes t ! j =
        (if put_pos (puts s ! i) \<le> j \<and> j < put_pos (puts s ! i) + d then stored (put_meta (puts s ! i)) (chain_nodes s ! j)
         else chain_nodes s ! j)" by auto
  then have "put_step t (advanced i t)" using assms(1) Suc.prems by (intro put_step.advance) simp_all
  then have "put_step\<^sup>*\<^sup>* s (advanced i t)" using t(1) by simp
  moreover have "puts (advanced i t) = (puts s)[i := (puts s ! i)\<lparr>put_pos := put_pos (puts s ! i) + Suc d\<rparr>]"
    using t(2) assms(1) by (simp add: puts_advanced)
  moreover have "\<forall>j < length (chain_nodes s). chain_nodes (advanced i t) ! j =
        (if put_pos (puts s ! i) \<le> j \<and> j < put_pos (puts s ! i) + Suc d then stored (put_meta (puts s ! i)) (chain_nodes s ! j)
         else chain_nodes s ! j)"
    using t assms(1) Suc.prems by (auto simp: chain_nodes_advanced nth_list_update)
  ultimately show ?case using t(3) by (auto simp: chain_nodes_advanced intro!: exI [of _ "advanced i t"])
qed

text \<open>
  C18: Two \<open>PUT\<close>s of the same name can leave the chain divided for good. In every chain of
  at least two nodes, and for any two records of one name, there is a run in which both
  \<open>PUT\<close>s are acknowledged, nothing is under way any more, and the head holds the second
  record while every other node holds the first: the forwarding is not ordered by the store
  mutex, so the second \<open>PUT\<close> can overtake the first between the head and its successor.
\<close>
theorem concurrent_puts_diverge:
  assumes "2 \<le> length ns" and "meta_filename a = meta_filename b"
  shows "\<exists>s. put_step\<^sup>*\<^sup>* (idle_chain ns) s \<and> map put_meta (puts s) = [a, b] \<and> (\<forall>p \<in> set (puts s). acked s p) \<and>
     metadataStore (chain_nodes s ! 0) (meta_filename a) = Some b \<and>
     (\<forall>j. 0 < j \<and> j < length ns \<longrightarrow> metadataStore (chain_nodes s ! j) (meta_filename a) = Some a)"
proof -
  let ?n = "length ns" and ?P = "\<lambda>m k. \<lparr>put_meta = m, put_pos = k\<rparr>" and ?s = "arrived b (arrived a (idle_chain ns))"
  have n: "Suc (?n - Suc 0) = ?n" using assms(1) by simp
  have 0: "put_step\<^sup>*\<^sup>* (idle_chain ns) ?s"
    by (rule rtranclp.rtrancl_into_rtrancl [OF r_into_rtranclp]) (rule put_step.arrive)+
  have s: "puts ?s = [?P a 0, ?P b 0]" "chain_nodes ?s = ns" by (simp_all add: arrived_def idle_chain_def)
  obtain t where t: "put_step\<^sup>*\<^sup>* ?s t" "puts t = [?P a 1, ?P b 0]" "length (chain_nodes t) = ?n"
    using run_to [of 0 ?s 1] s assms(1) by (auto simp: numeral_2_eq_2)
  obtain u where u: "put_step\<^sup>*\<^sup>* t u" "puts u = [?P a 1, ?P b ?n]" "length (chain_nodes u) = ?n"
      "\<forall>j < ?n. chain_nodes u ! j = stored b (chain_nodes t ! j)"
    using run_to [of 1 t ?n] t by auto
  obtain v where v: "put_step\<^sup>*\<^sup>* u v" "puts v = [?P a ?n, ?P b ?n]" "length (chain_nodes v) = ?n"
      "\<forall>j < ?n. chain_nodes v ! j = (if 1 \<le> j then stored a (chain_nodes u ! j) else chain_nodes u ! j)"
    using run_to [of 0 u "?n - 1"] u assms(1) n by (auto simp: n)
  have "put_step\<^sup>*\<^sup>* (idle_chain ns) v" using 0 t(1) u(1) v(1) by (meson rtranclp_trans)
  moreover have "chain_nodes v ! 0 = stored b (chain_nodes t ! 0)" using u(4) v(4) n by (metis not_one_le_zero zero_less_Suc)
  ultimately show ?thesis using v assms by (intro exI [of _ v]) (auto simp: acked_def)
qed

theorem concurrent_puts_diverge_witness:
  "rec_of ''a'' \<noteq> rec_of ''b'' \<and> (\<exists>s. put_step\<^sup>*\<^sup>* (idle_chain two_chain) s \<and> (\<forall>p \<in> set (puts s). acked s p) \<and>
     metadataStore (chain_nodes s ! 0) ''f'' = Some (rec_of ''b'') \<and> metadataStore (chain_nodes s ! 1) ''f'' = Some (rec_of ''a''))"
proof (intro conjI)
  have "2 \<le> length two_chain" "meta_filename (rec_of ''a'') = meta_filename (rec_of ''b'')" "1 < length two_chain"
    "meta_filename (rec_of ''a'') = ''f''" by (simp_all add: two_chain_def rec_of_def)
  then show "\<exists>s. put_step\<^sup>*\<^sup>* (idle_chain two_chain) s \<and> (\<forall>p \<in> set (puts s). acked s p) \<and>
     metadataStore (chain_nodes s ! 0) ''f'' = Some (rec_of ''b'') \<and> metadataStore (chain_nodes s ! 1) ''f'' = Some (rec_of ''a'')"
    using concurrent_puts_diverge [of two_chain "rec_of ''a''" "rec_of ''b''"] by (metis zero_less_one)
qed (simp add: rec_of_def no_metadata_def)

end
