(* ===== verification/Tasks.thy ===== *)
theory Tasks
  imports Dfs_Prelude
begin

text \<open>
  Threads that run side by side on shared state. A task is the rest of a thread's work, cut
  at the points where another thread may run: it has finished with an outcome, or its next
  action reads and changes the shared state in one step and says what is left to do.
  \<open>run_task\<close> runs one task alone, \<open>par_step\<close> lets any one of several take its next action.

  \<open>yields\<close> is a rely-guarantee triple for total correctness: under any interference allowed
  by the rely, the task returns a value, never throws or blocks, and every action of its own
  keeps the guarantee. The locale \<open>interference\<close> is the contract between the threads of a
  system: what each guarantees is what the others rely on.
\<close>

section \<open>Tasks\<close>

datatype ('s, 'a) task = Finish "'a outcome" | Act "'s \<Rightarrow> ('s, 'a) task \<times> 's"

primrec bind_task :: "('s, 'a) task \<Rightarrow> ('a \<Rightarrow> ('s, 'b) task) \<Rightarrow> ('s, 'b) task" where
  "bind_task (Finish r) k = (case r of Ret x \<Rightarrow> k x | Throw e \<Rightarrow> Finish (Throw e) | Hang \<Rightarrow> Finish Hang)"
| "bind_task (Act f) k = Act (map_prod (\<lambda>p. bind_task p k) (\<lambda>s. s) \<circ> f)"

definition atomically :: "('s \<Rightarrow> 'a outcome \<times> 's) \<Rightarrow> ('s, 'a) task" where
  "atomically g = Act (\<lambda>s. (Finish (fst (g s)), snd (g s)))"

primrec run_task :: "('s, 'a) task \<Rightarrow> 's \<Rightarrow> 'a outcome \<times> 's" where
  "run_task (Finish r) = (\<lambda>s. (r, s))"
| "run_task (Act f) = (\<lambda>s. case (map_prod run_task (\<lambda>s. s) \<circ> f) s of (g, s') \<Rightarrow> g s')"

lemma run_atomically [simp]: "run_task (atomically g) s = g s"
  by (simp add: atomically_def)

lemma run_bind [simp]:
  "run_task (bind_task p k) s =
     (case run_task p s of
        (Ret x, s) \<Rightarrow> run_task (k x) s | (Throw e, s) \<Rightarrow> (Throw e, s) | (Hang, s) \<Rightarrow> (Hang, s))"
proof (induction p arbitrary: s)
  case (Finish r)
  then show ?case by (cases r) simp_all
next
  case (Act f)
  obtain q s' where f: "f s = (q, s')" by fastforce
  then have "run_task (bind_task q k) s' =
     (case run_task q s' of
        (Ret x, s) \<Rightarrow> run_task (k x) s | (Throw e, s) \<Rightarrow> (Throw e, s) | (Hang, s) \<Rightarrow> (Hang, s))"
    by (intro Act) (auto intro: range_eqI [of _ f s])
  then show ?case using f by simp
qed

section \<open>Interleaving\<close>

inductive par_step :: "('s, 'a) task list \<times> 's \<Rightarrow> ('s, 'a) task list \<times> 's \<Rightarrow> bool" where
  "i < length ts \<Longrightarrow> ts ! i = Act f \<Longrightarrow> f s = (t, s') \<Longrightarrow> par_step (ts, s) (ts[i := t], s')"

inductive_cases par_stepE: "par_step (ts, s) c"

definition later_task :: "('s, 'a) task rel" where
  "later_task = {(t, p). \<exists>f s. p = Act f \<and> t = fst (f s)}"

lemma wf_later_task: "wf (later_task :: ('s, 'a) task rel)"
proof (rule wfUNIVI)
  fix P :: "('s, 'a) task \<Rightarrow> bool" and p
  assume step: "\<forall>p. (\<forall>t. (t, p) \<in> later_task \<longrightarrow> P t) \<longrightarrow> P p"
  show "P p"
  proof (induction p)
    case (Finish r)
    then show ?case using step by (auto simp: later_task_def)
  next
    case (Act f)
    have "P (fst (f s))" for s by (rule Act [of "f s"]) (auto simp: prod_set_defs)
    then have "\<forall>t. (t, Act f) \<in> later_task \<longrightarrow> P t" by (auto simp: later_task_def)
    then show ?case using step by blast
  qed
qed

text \<open>No schedule goes on for ever.\<close>

lemma wf_par_step: "wf {(d, c :: ('s, 'a) task list \<times> 's). par_step c d}"
proof (rule wf_subset)
  show "wf (inv_image (listrel1 later_task) fst)" by (intro wf_inv_image) (simp add: wf_listrel1_iff wf_later_task)
  show "{(d, c :: ('s, 'a) task list \<times> 's). par_step c d} \<subseteq> inv_image (listrel1 later_task) fst"
  proof clarify
    fix ts' ts :: "('s, 'a) task list" and s' s :: 's
    assume "par_step (ts, s) (ts', s')"
    then obtain i f where i: "i < length ts" "ts ! i = Act f" "ts' = ts[i := fst (f s)]"
      by (auto elim!: par_stepE)
    then have "(fst (f s), ts ! i) \<in> later_task" by (auto simp: later_task_def)
    then show "((ts', s'), ts, s) \<in> inv_image (listrel1 later_task) fst"
      using i(1,3) list_update_id [of ts i] by (force simp: listrel1_iff_update)
  qed
qed

lemma no_endless_run: "\<not> (\<forall>n. par_step (c n) (c (Suc n)))"
  using wf_par_step unfolding wf_iff_no_infinite_down_chain by blast

lemma par_step_stuck: "(\<nexists>d. par_step (ts, s) d) \<longleftrightarrow> (\<exists>rs. ts = map Finish rs)"
proof
  assume stuck: "\<nexists>d. par_step (ts, s) d"
  have "\<exists>r. t = Finish r" if t: "t \<in> set ts" for t
  proof (cases t)
    case (Act f)
    obtain i where "i < length ts" "ts ! i = Act f" using t Act by (auto simp: in_set_conv_nth)
    then have "par_step (ts, s) (ts[i := fst (f s)], snd (f s))" by (auto intro: par_step.intros)
    then show ?thesis using stuck by blast
  qed blast
  then show "\<exists>rs. ts = map Finish rs" by (metis ex_map_conv)
next
  assume "\<exists>rs. ts = map Finish rs"
  then show "\<nexists>d. par_step (ts, s) d" by (auto elim!: par_stepE)
qed

text \<open>Every run can be completed.\<close>

lemma par_finishes: "\<exists>rs s'. par_step\<^sup>*\<^sup>* c (map Finish rs, s')"
proof (induction c rule: wf_induct_rule [OF wf_par_step])
  case (1 c)
  show ?case
  proof (cases "\<exists>d. par_step c d")
    case True
    then obtain d where d: "par_step c d" by blast
    then obtain rs s' where "par_step\<^sup>*\<^sup>* d (map Finish rs, s')" using 1 by blast
    then show ?thesis using d by (meson converse_rtranclp_into_rtranclp)
  next
    case False
    then show ?thesis using par_step_stuck [of "fst c" "snd c"] by (metis prod.collapse rtranclp.rtrancl_refl)
  qed
qed

section \<open>Rely and guarantee\<close>

definition stable :: "('s \<Rightarrow> 's \<Rightarrow> bool) \<Rightarrow> ('s \<Rightarrow> bool) \<Rightarrow> bool" where
  "stable R P \<longleftrightarrow> (\<forall>s t. P s \<and> R s t \<longrightarrow> P t)"

lemma stable_rtrancl: "stable R P \<Longrightarrow> P s \<Longrightarrow> R\<^sup>*\<^sup>* s t \<Longrightarrow> P t"
  by (rotate_tac 2, induction rule: rtranclp_induct) (auto simp: stable_def)

inductive keeps :: "('s \<Rightarrow> 's \<Rightarrow> bool) \<Rightarrow> ('s \<Rightarrow> 's \<Rightarrow> bool) \<Rightarrow> ('a outcome \<Rightarrow> 's \<Rightarrow> bool) \<Rightarrow> ('s, 'a) task \<Rightarrow> 's \<Rightarrow> bool"
  for R G Q where
  finish: "(\<And>t. R\<^sup>*\<^sup>* s t \<Longrightarrow> Q r t) \<Longrightarrow> keeps R G Q (Finish r) s"
| act: "(\<And>t. R\<^sup>*\<^sup>* s t \<Longrightarrow> G t (snd (f t)) \<and> keeps R G Q (fst (f t)) (snd (f t))) \<Longrightarrow> keeps R G Q (Act f) s"

inductive_cases keeps_FinishE: "keeps R G Q (Finish r) s"
inductive_cases keeps_ActE: "keeps R G Q (Act f) s"

lemma keeps_env: "keeps R G Q p s \<Longrightarrow> R\<^sup>*\<^sup>* s t \<Longrightarrow> keeps R G Q p t"
  by (auto elim!: keeps.cases intro!: keeps.intros dest: rtranclp_trans)

lemma keeps_act: "keeps R G Q (Act f) s \<Longrightarrow> G s (snd (f s)) \<and> keeps R G Q (fst (f s)) (snd (f s))"
  by (auto elim: keeps_ActE)

lemma keeps_finish: "keeps R G Q (Finish r) s \<Longrightarrow> Q r s"
  by (auto elim: keeps_FinishE)

lemma keeps_bind:
  assumes "keeps R G (\<lambda>r s. case r of Ret x \<Rightarrow> keeps R G Q (k x) s | Throw e \<Rightarrow> Q (Throw e) s | Hang \<Rightarrow> Q Hang s) p s"
  shows "keeps R G Q (bind_task p k) s"
  using assms
proof (induction p s rule: keeps.induct)
  case (finish s r)
  show ?case
  proof (cases r)
    case (Ret x)
    then show ?thesis using finish [of s] by simp
  qed (use finish in \<open>auto intro: keeps.finish\<close>)
next
  case (act s f)
  show ?case unfolding bind_task.simps
  proof (rule keeps.act)
    fix t assume "R\<^sup>*\<^sup>* s t"
    then show "G t (snd ((map_prod (\<lambda>p. bind_task p k) (\<lambda>s. s) \<circ> f) t)) \<and>
        keeps R G Q (fst ((map_prod (\<lambda>p. bind_task p k) (\<lambda>s. s) \<circ> f) t)) (snd ((map_prod (\<lambda>p. bind_task p k) (\<lambda>s. s) \<circ> f) t))"
      using act by simp
  qed
qed

definition yields :: "('s \<Rightarrow> 's \<Rightarrow> bool) \<Rightarrow> ('s \<Rightarrow> 's \<Rightarrow> bool) \<Rightarrow> ('s \<Rightarrow> bool) \<Rightarrow> ('s, 'a) task \<Rightarrow> ('a \<Rightarrow> 's \<Rightarrow> bool) \<Rightarrow> bool" where
  "yields R G P p Q \<longleftrightarrow> (\<forall>s. P s \<longrightarrow> keeps R G (\<lambda>r s. \<exists>x. r = Ret x \<and> Q x s) p s)"

lemma yields_finish: "stable R (Q x) \<Longrightarrow> (\<And>s. P s \<Longrightarrow> Q x s) \<Longrightarrow> yields R G P (Finish (Ret x)) Q"
  by (auto simp: yields_def intro!: keeps.finish dest: stable_rtrancl)

lemma yields_atomically:
  assumes "stable R P" and "\<And>x. stable R (Q x)"
    and "\<And>s. P s \<Longrightarrow> \<exists>x. fst (g s) = Ret x \<and> G s (snd (g s)) \<and> Q x (snd (g s))"
  shows "yields R G P (atomically g) Q"
  unfolding yields_def atomically_def
proof (intro allI impI keeps.act)
  fix s t assume "P s" "R\<^sup>*\<^sup>* s t"
  then have "P t" using stable_rtrancl [OF assms(1)] by blast
  then obtain x where x: "fst (g t) = Ret x" "G t (snd (g t))" "Q x (snd (g t))" using assms(3) by blast
  have "keeps R G (\<lambda>r s. \<exists>x. r = Ret x \<and> Q x s) (Finish (Ret x)) (snd (g t))"
    by (rule keeps.finish) (use x(3) stable_rtrancl [OF assms(2)] in blast)
  then show "G t (snd (Finish (fst (g t)), snd (g t))) \<and>
      keeps R G (\<lambda>r s. \<exists>x. r = Ret x \<and> Q x s) (fst (Finish (fst (g t)), snd (g t))) (snd (Finish (fst (g t)), snd (g t)))"
    using x by simp
qed

lemma keeps_mono:
  assumes "keeps R G Q p s" and "\<And>r t. Q r t \<Longrightarrow> Q' r t" shows "keeps R G Q' p s"
  using assms(1) by induction (auto intro!: keeps.intros intro: assms(2))

lemma yields_bind:
  assumes "yields R G P p Q" and "\<And>x. yields R G (Q x) (k x) S"
  shows "yields R G P (bind_task p k) S"
  using assms by (auto simp: yields_def intro!: keeps_bind elim!: keeps_mono)

lemma yields_pre: "yields R G P p Q \<Longrightarrow> (\<And>s. P' s \<Longrightarrow> P s) \<Longrightarrow> yields R G P' p Q"
  by (simp add: yields_def)

lemma yields_post: "yields R G P p Q \<Longrightarrow> (\<And>x s. Q x s \<Longrightarrow> Q' x s) \<Longrightarrow> yields R G P p Q'"
  by (auto simp: yields_def elim!: keeps_mono)

text \<open>An action that only looks.\<close>

lemma yields_peek:
  assumes "stable R P" and "\<And>x. stable R (Q x)" and "\<And>s. G s s" and "\<And>s. P s \<Longrightarrow> Q (h s) s"
  shows "yields R G P (atomically (\<lambda>s. (Ret (h s), s))) Q"
  by (rule yields_atomically [OF assms(1,2)]) (use assms(3,4) in auto)

lemma yields_never: "(\<And>s. \<not> P s) \<Longrightarrow> yields R G P p Q"
  by (simp add: yields_def)

lemma yields_ex: "(\<And>k. yields R G (P k) p Q) \<Longrightarrow> yields R G (\<lambda>s. \<exists>k. P k s) p Q"
  by (auto simp: yields_def)

text \<open>What neither the environment nor the task itself breaks may be carried along.\<close>

lemma keeps_frame:
  assumes "keeps R G Q p s" and "stable R F" and "stable G F" and "F s"
  shows "keeps R G (\<lambda>r t. Q r t \<and> F t) p s"
  using assms(1,4)
proof induction
  case (finish s r)
  then show ?case using stable_rtrancl [OF assms(2)] by (blast intro: keeps.finish)
next
  case (act s f)
  show ?case
  proof (rule keeps.act)
    fix t assume t: "R\<^sup>*\<^sup>* s t"
    then have "F t" using stable_rtrancl [OF assms(2) act.prems] by blast
    then show "G t (snd (f t)) \<and> keeps R G (\<lambda>r t. Q r t \<and> F t) (fst (f t)) (snd (f t))"
      using act.IH [OF t] assms(3) unfolding stable_def by blast
  qed
qed

lemma yields_frame:
  assumes "yields R G P p Q" and "stable R F" and "stable G F"
  shows "yields R G (\<lambda>s. P s \<and> F s) p (\<lambda>x s. Q x s \<and> F s)"
  unfolding yields_def
proof (intro allI impI)
  fix s assume "P s \<and> F s"
  then have "keeps R G (\<lambda>r t. (\<exists>x. r = Ret x \<and> Q x t) \<and> F t) p s"
    using assms(1) by (intro keeps_frame [OF _ assms(2,3)]) (simp_all add: yields_def)
  then show "keeps R G (\<lambda>r s. \<exists>x. r = Ret x \<and> Q x s \<and> F s) p s" by (rule keeps_mono) blast
qed

section \<open>Threads that respect one another\<close>

locale interference =
  fixes rely guar :: "nat \<Rightarrow> 's \<Rightarrow> 's \<Rightarrow> bool"
  assumes others: "i \<noteq> j \<Longrightarrow> guar j s t \<Longrightarrow> rely i s t"
begin

lemma run_keeps:
  assumes "par_step\<^sup>*\<^sup>* (ts, s) (ts', s')" and "\<forall>i < length ts. keeps (rely i) (guar i) (Q i) (ts ! i) s"
  shows "length ts' = length ts \<and> (\<forall>i < length ts. keeps (rely i) (guar i) (Q i) (ts' ! i) s')"
  using assms(1)
proof (induction "(ts', s')" arbitrary: ts' s' rule: rtranclp_induct)
  case base
  then show ?case using assms(2) by simp
next
  case (step c)
  obtain us u where c: "c = (us, u)" by fastforce
  with step have IH: "length us = length ts" "\<forall>i < length ts. keeps (rely i) (guar i) (Q i) (us ! i) u" by auto
  from step.hyps(2) c obtain i f where i: "i < length us" "us ! i = Act f" "ts' = us[i := fst (f u)]" "s' = snd (f u)"
    by (auto elim!: par_stepE)
  have own: "guar i u s'" "keeps (rely i) (guar i) (Q i) (fst (f u)) s'"
    using keeps_act [of "rely i" "guar i" "Q i" f u] IH i by auto
  have "keeps (rely j) (guar j) (Q j) (ts' ! j) s'" if j: "j < length ts" for j
  proof (cases "j = i")
    case True
    then show ?thesis using own(2) i by simp
  next
    case False
    then have "rely j u s'" using others own(1) by blast
    then show ?thesis using keeps_env [of "rely j" "guar j" "Q j" "us ! j" u s'] IH j False i(3) by auto
  qed
  then show ?case using IH(1) i(3) by simp
qed

text \<open>What no guarantee breaks is an invariant of every run.\<close>

lemma run_invariant:
  assumes "par_step\<^sup>*\<^sup>* (ts, s) (ts', s')" and "\<forall>i < length ts. keeps (rely i) (guar i) (Q i) (ts ! i) s"
    and "I s" and "\<And>i s t. i < length ts \<Longrightarrow> I s \<Longrightarrow> guar i s t \<Longrightarrow> I t"
  shows "I s'"
  using assms(1)
proof (induction "(ts', s')" arbitrary: ts' s' rule: rtranclp_induct)
  case base
  then show ?case using assms(3) by simp
next
  case (step c)
  obtain us u where c: "c = (us, u)" by fastforce
  then have "par_step\<^sup>*\<^sup>* (ts, s) (us, u)" "I u" using step by simp_all
  moreover from this(1) have k: "length us = length ts" "\<forall>i < length ts. keeps (rely i) (guar i) (Q i) (us ! i) u"
    using run_keeps assms(2) by blast+
  moreover obtain i f where "i < length us" "us ! i = Act f" "s' = snd (f u)"
    using step.hyps(2) c by (auto elim!: par_stepE)
  ultimately show ?case using keeps_act [of "rely i" "guar i" "Q i" f u] assms(4) [of i u s'] by auto
qed

text \<open>Threads that keep to their guarantees all return, each with its own postcondition.\<close>

lemma run_yields:
  assumes "par_step\<^sup>*\<^sup>* (ts, s) (map Finish rs, s')" and "\<forall>i < length ts. yields (rely i) (guar i) (P i) (ts ! i) (Q i) \<and> P i s"
  shows "length rs = length ts \<and> (\<forall>i < length ts. \<exists>x. rs ! i = Ret x \<and> Q i x s')"
proof -
  have "length rs = length ts \<and> (\<forall>i < length ts. keeps (rely i) (guar i) (\<lambda>r s. \<exists>x. r = Ret x \<and> Q i x s) (map Finish rs ! i) s')"
    using assms(2) run_keeps [OF assms(1), of "\<lambda>i r s. \<exists>x. r = Ret x \<and> Q i x s"] unfolding yields_def length_map by blast
  then show ?thesis using keeps_finish by fastforce
qed

lemma run_yields_invariant:
  assumes "par_step\<^sup>*\<^sup>* (ts, s) (ts', s')" and "\<forall>i < length ts. yields (rely i) (guar i) (P i) (ts ! i) (Q i) \<and> P i s"
    and "I s" and "\<And>i s t. i < length ts \<Longrightarrow> I s \<Longrightarrow> guar i s t \<Longrightarrow> I t"
  shows "I s'"
proof (rule run_invariant [OF assms(1), where I = I])
  show "\<forall>i < length ts. keeps (rely i) (guar i) (\<lambda>r s. \<exists>x. r = Ret x \<and> Q i x s) (ts ! i) s"
    using assms(2) by (simp add: yields_def)
qed (fact assms(3), fact assms(4))

end

end
