(* ===== verification/Put_Tasks.thy ===== *)
theory Put_Tasks
  imports Cluster Tasks
begin

text \<open>
  The threads of the metadata chain (\<^verbatim>\<open>src/src/metadata/metadata_node.cpp\<close>) as tasks: a
  \<open>PUT\<close> on its way through the handlers of the nodes, the health thread of a node and the
  end of a node, each cut where another thread may run. \<open>handlePut\<close> is cut at its critical
  section, at the test of role and successor, and in \<open>forwardPut\<close> at the connect, at the
  handler of the next node and at the reply; a pass of \<open>healthCheckLoop\<close> at its tests, at the
  ping and at the repair.

  A handler that stopped serving (\<open>running_\<close> is down) neither takes a command nor gets a
  reply through: \<open>DIE\<close> has closed its connections, so the peer reads the empty string.

  \<open>puts_and_checks_run_alone\<close> ties this to \<open>Metadata_Node\<close> and \<open>Cluster\<close>.
\<close>

type_synonym 'a net_task = "(network, 'a) task"

section \<open>PUT\<close>

text \<open>One access of a thread to the node at \<open>e\<close>.\<close>

definition at_node :: "endpoint \<Rightarrow> (metadata_node \<Rightarrow> 'a \<times> metadata_node) \<Rightarrow> 'a net_task" where
  "at_node e g = atomically (\<lambda>net.
     case metadata_at e net of
       None \<Rightarrow> (Hang, net)
     | Some n \<Rightarrow> (case g n of (x, n') \<Rightarrow> (Ret x, set_host e (MetadataServer n') net)))"

definition handlePut_task :: "bool net_task \<Rightarrow> endpoint \<Rightarrow> string \<Rightarrow> string net_task" where
  "handlePut_task forward e command =
     (case parse_put command of
        None \<Rightarrow> Finish (Ret ''ERROR_ARGS'')
      | Some meta \<Rightarrow>
          bind_task (at_node e (\<lambda>n. ((), n\<lparr>metadataStore := (metadataStore n)(meta_filename meta \<mapsto> meta)\<rparr>))) (\<lambda>_.
          bind_task (at_node e (\<lambda>n. (role_of n \<noteq> TAIL \<and> role_of n \<noteq> SINGLE \<and> nextNodePort n \<noteq> -1, n))) (\<lambda>passOn.
          if passOn
          then bind_task forward (\<lambda>success. Finish (Ret (if success then ''ACK'' else ''ERROR_FORWARD'')))
          else Finish (Ret ''ACK''))))"

text \<open>
  The server at \<open>e\<close> takes a command from a new connection; \<open>Inl\<close> is an answer without
  the help of a metadata node.
\<close>

definition received :: "endpoint \<Rightarrow> network \<Rightarrow> string + unit" where
  "received e net =
     (case hosts net e of
        None \<Rightarrow> Inl []
      | Some (StorageServer n) \<Rightarrow> Inl (if storage_running n then ''ERROR'' else [])
      | Some (MetadataServer n) \<Rightarrow> if meta_running n then Inr () else Inl [])"

text \<open>The handler thread of the node at \<open>e\<close>; the value is what the sender's \<open>recvMessage\<close> returns.\<close>

definition serve_put_task :: "bool net_task \<Rightarrow> endpoint \<Rightarrow> string \<Rightarrow> string net_task" where
  "serve_put_task forward e command =
     bind_task (atomically (\<lambda>net. (Ret (received e net), net))) (\<lambda>r.
     case r of
       Inl response \<Rightarrow> Finish (Ret response)
     | Inr _ \<Rightarrow>
         bind_task (handlePut_task forward e command) (\<lambda>reply.
         atomically (\<lambda>net. (Ret (if up_at net e then reply else []), net))))"

definition next_connection :: "endpoint \<Rightarrow> network \<Rightarrow> connection option outcome \<times> network" where
  "next_connection e net =
     (case metadata_at e net of
        None \<Rightarrow> (Hang, net)
      | Some n \<Rightarrow> (Ret (connect net (nextNodeIp n) (nextNodePort n)), net))"

fun forward_task :: "nat \<Rightarrow> endpoint \<Rightarrow> string \<Rightarrow> bool net_task" where
  "forward_task 0 e command = Finish Hang"
| "forward_task (Suc fuel) e command =
     bind_task (atomically (next_connection e)) (\<lambda>c.
     case c of
       None \<Rightarrow> Finish (Ret False)
     | Some client \<Rightarrow>
         bind_task (serve_put_task (forward_task fuel (peer client) command) (peer client) command) (\<lambda>response.
         Finish (Ret (response = ''ACK''))))"

definition put_task :: "nat \<Rightarrow> endpoint \<Rightarrow> string \<Rightarrow> string net_task" where
  "put_task fuel e command = serve_put_task (forward_task fuel e command) e command"

section \<open>Health thread and DIE\<close>

definition ping_from :: "nat \<Rightarrow> endpoint \<Rightarrow> network \<Rightarrow> bool outcome \<times> network" where
  "ping_from fuel e net = (case metadata_at e net of None \<Rightarrow> (Hang, net) | Some n \<Rightarrow> pingNext fuel n net)"

definition repair_at :: "nat \<Rightarrow> endpoint \<Rightarrow> network \<Rightarrow> network" where
  "repair_at fuel e net =
     (case metadata_at e net of
        None \<Rightarrow> net
      | Some n \<Rightarrow>
          let (n', tell) = handleNextNodeFailure n; net = set_host e (MetadataServer n') net
          in if tell then notifyNextOfPredecessor fuel n' net else net)"

definition health_pass :: "nat \<Rightarrow> endpoint \<Rightarrow> unit net_task" where
  "health_pass fuel e =
     bind_task (at_node e (\<lambda>n. (nextNodePort n \<noteq> -1, n))) (\<lambda>successor.
     if successor
     then bind_task (atomically (ping_from fuel e)) (\<lambda>pong.
          if pong then Finish (Ret ()) else atomically (\<lambda>net. (Ret (), repair_at fuel e net)))
     else Finish (Ret ()))"

text \<open>The first \<open>k\<close> passes of \<open>healthCheckLoop\<close>.\<close>

fun health_task :: "nat \<Rightarrow> nat \<Rightarrow> endpoint \<Rightarrow> unit net_task" where
  "health_task fuel 0 e = Finish (Ret ())"
| "health_task fuel (Suc k) e =
     bind_task (at_node e (\<lambda>n. (meta_running n, n))) (\<lambda>running.
     if running then bind_task (health_pass fuel e) (\<lambda>_. health_task fuel k e) else Finish (Ret ()))"

definition die_task :: "endpoint \<Rightarrow> unit net_task" where
  "die_task e = at_node e (\<lambda>n. ((), n\<lparr>meta_running := False\<rparr>))"

section \<open>Rely and guarantee of one access\<close>

lemma yields_at_node:
  assumes "stable R P" and "\<And>x. stable R (Q x)"
    and "\<And>s. P s \<Longrightarrow> \<exists>n. metadata_at e s = Some n \<and> G s (set_host e (MetadataServer (snd (g n))) s) \<and>
      Q (fst (g n)) (set_host e (MetadataServer (snd (g n))) s)"
  shows "yields R G P (at_node e g) Q"
  unfolding at_node_def
proof (rule yields_atomically [OF assms(1,2)])
  fix s assume "P s"
  then obtain n where "metadata_at e s = Some n" "G s (set_host e (MetadataServer (snd (g n))) s)"
    "Q (fst (g n)) (set_host e (MetadataServer (snd (g n))) s)" using assms(3) by blast
  then show "\<exists>x. fst (case metadata_at e s of None \<Rightarrow> (Hang, s) | Some n \<Rightarrow> (case g n of (x, n') \<Rightarrow> (Ret x, set_host e (MetadataServer n') s))) = Ret x \<and>
      G s (snd (case metadata_at e s of None \<Rightarrow> (Hang, s) | Some n \<Rightarrow> (case g n of (x, n') \<Rightarrow> (Ret x, set_host e (MetadataServer n') s)))) \<and>
      Q x (snd (case metadata_at e s of None \<Rightarrow> (Hang, s) | Some n \<Rightarrow> (case g n of (x, n') \<Rightarrow> (Ret x, set_host e (MetadataServer n') s))))"
    by (simp add: split_beta)
qed

section \<open>One thread alone\<close>

lemma set_host_metadata: "metadata_at e net = Some n \<Longrightarrow> set_host e (MetadataServer n) net = net"
  by (simp add: set_host_def metadata_at_host map_upd_triv)

lemma yields_read_node:
  assumes "stable R P" and "\<And>x. stable R (Q x)" and "\<And>s. G s s"
    and "\<And>s. P s \<Longrightarrow> \<exists>n. metadata_at e s = Some n \<and> Q (h n) s"
  shows "yields R G P (at_node e (\<lambda>n. (h n, n))) Q"
  by (rule yields_at_node [OF assms(1,2)]) (use assms(3,4) set_host_metadata in fastforce)

lemma run_at_node:
  "metadata_at e net = Some n \<Longrightarrow>
   run_task (at_node e g) net = (case g n of (x, n') \<Rightarrow> (Ret x, set_host e (MetadataServer n') net))"
  by (simp add: at_node_def)

lemma up_at_metadata: "metadata_at e net = Some n \<Longrightarrow> up_at net e = meta_running n"
  by (simp add: up_at_def metadata_at_host)

lemma up_at_stored: "metadata_at e net = Some n \<Longrightarrow> up_at (set_host e (MetadataServer (stored m n)) net) = up_at net"
  by (auto simp: up_at_def metadata_at_host fun_eq_iff)

abbreviation commit_at :: "endpoint \<Rightarrow> metadata_node \<Rightarrow> network \<Rightarrow> network" where
  "commit_at e \<equiv> (\<lambda>n' w. set_host e (MetadataServer n') w)"

lemma run_handlePut_task:
  assumes n: "metadata_at e net = Some n"
    and fwd: "\<And>n net. metadata_at e net = Some n \<Longrightarrow> run_task ft net = fw (nextNodeIp n) (nextNodePort n) command net"
  shows "run_task (handlePut_task ft e command) net = handlePut (commit_at e) fw command n net"
proof (cases "parse_put command")
  case (Some m)
  have "metadata_at e (set_host e (MetadataServer n') net) = Some n'" for n' by (simp add: metadata_at_set_host)
  then show ?thesis using n Some fwd
    by (simp add: handlePut_task_def handlePut_def run_at_node Let_def set_host_metadata split: prod.split outcome.split)
qed (simp add: handlePut_task_def handlePut_def)

text \<open>What a \<open>PUT\<close> handler does on its own connection.\<close>

lemma serve_PUT:
  assumes "metadata_at e net = Some n" and "meta_running n" and "fst (read_word [] (open_stream cmd)) = ''PUT''"
  shows "serve_with fwd e AwaitCommand (bytes_of_string cmd) net =
    (case handlePut (commit_at e) fwd cmd n net of
       (Ret reply, net) \<Rightarrow> (AwaitCommand, [bytes_of_string reply], net)
     | (Throw e, net) \<Rightarrow> (Stuck, [], net)
     | (Hang, net) \<Rightarrow> (Stuck, [], net))"
proof -
  have "cmd \<noteq> []" using assms(3) by (auto simp: read_word_def open_stream_def)
  then show ?thesis using assms by (simp add: serve_with_def metadata_at_host metadata_step_def metadata_command_PUT)
qed

lemma handlePut_reply:
  assumes "handlePut c fw cmd n w = (Ret reply, w')"
  shows "reply \<in> {''ACK'', ''ERROR_FORWARD'', ''ERROR_ARGS''}"
  using assms by (auto simp: handlePut_def Let_def split: option.splits prod.splits outcome.splits bool.splits if_splits)

lemma forwardPut_Stuck:
  assumes "connect net ip port = Some (fresh f)" and "length cmd < 2 ^ 32"
    and "serve_with (forwardPut fuel) f AwaitCommand (bytes_of_string cmd) net = (Stuck, [], net')"
  shows "forwardPut (Suc fuel) ip port cmd net = (Hang, net')"
proof -
  have "sendMessage (serve_with (forwardPut fuel)) cmd (fresh f) net =
      ((fresh f)\<lparr>ctl := Stuck, to_client := to_client (fresh f) @ concat (map frame [])\<rparr>, net')"
    using assms(2,3) unfolding sendMessage_def by (intro sendData_once) (simp_all add: fresh_def)
  then show ?thesis using assms(1) by (simp add: fresh_def recvMessage_def recvData_def take_frame_def)
qed

lemma connect_cases:
  assumes "connect net ip port = Some c"
  obtains (storage) f n where "c = fresh f" "hosts net f = Some (StorageServer n)" "storage_running n"
  | (metadata) f n where "c = fresh f" "metadata_at f net = Some n" "meta_running n"
  using assms by (auto simp: connect_def metadata_at_host split: option.splits if_splits) (metis server.exhaust server_up.simps)

text \<open>A \<open>PUT\<close> command on its way changes which servers are up at no node, and throws nowhere.\<close>

definition harmless :: "(network \<Rightarrow> 'a outcome \<times> network) \<Rightarrow> bool" where
  "harmless g \<longleftrightarrow> (\<forall>net. up_at (snd (g net)) = up_at net \<and> (\<forall>e. fst (g net) \<noteq> Throw e))"

lemma harmless_handlePut:
  assumes "\<And>ip port. harmless (fw ip port cmd)" and "metadata_at e net = Some n"
  shows "up_at (snd (handlePut (commit_at e) fw cmd n net)) = up_at net \<and> fst (handlePut (commit_at e) fw cmd n net) \<noteq> Throw x"
proof (cases "parse_put cmd")
  case (Some m)
  let ?n = "n\<lparr>metadataStore := (metadataStore n)(meta_filename m \<mapsto> m)\<rparr>"
  let ?net = "set_host e (MetadataServer ?n) net"
  have up: "up_at ?net = up_at net" using up_at_stored [OF assms(2), of m] by (simp add: stored_def)
  have "up_at (snd (fw (nextNodeIp n) (nextNodePort n) cmd ?net)) = up_at ?net \<and> fst (fw (nextNodeIp n) (nextNodePort n) cmd ?net) \<noteq> Throw x"
    using assms(1) unfolding harmless_def by blast
  then show ?thesis using up Some
    by (auto simp: handlePut_def Let_def split: prod.splits outcome.splits bool.splits)
qed (simp add: handlePut_def)

lemma storage_PUT:
  assumes "hosts net f = Some (StorageServer n)" and "storage_running n" and "fst (read_word [] (open_stream cmd)) = ''PUT''"
  shows "serve_with fwd f AwaitCommand (bytes_of_string cmd) net = (AwaitCommand, [bytes_of_string ''ERROR''], net)"
proof -
  obtain iss where r: "read_word [] (open_stream cmd) = (''PUT'', iss)" using assms(3) by (metis prod.collapse)
  then have "cmd \<noteq> []" by (auto simp: read_word_def open_stream_def)
  moreover have "set_host f (StorageServer n) net = net" using assms(1) by (simp add: set_host_def map_upd_triv)
  ultimately show ?thesis using assms(1,2) r by (simp add: serve_with_def storage_step_def storage_command_def)
qed

lemma forwardPut_served:
  assumes "connect net ip port = Some (fresh f)" and "length cmd < 2 ^ 32" and "fst (read_word [] (open_stream cmd)) = ''PUT''"
    and "metadata_at f net = Some n" and "meta_running n" and "handlePut (commit_at f) (forwardPut fuel) cmd n net = (r, net')"
    and "\<forall>e. r \<noteq> Throw e"
  shows "forwardPut (Suc fuel) ip port cmd net = ((case r of Ret reply \<Rightarrow> Ret (reply = ''ACK'') | _ \<Rightarrow> Hang), net')"
proof (cases r)
  case (Ret reply)
  then have "serve fuel f AwaitCommand (bytes_of_string cmd) net = (AwaitCommand, [bytes_of_string reply], net')"
    using serve_PUT [OF assms(4,5,3), of "forwardPut fuel"] assms(6) by (simp add: serve_def)
  moreover have "length reply < 2 ^ 32" using handlePut_reply assms(6) Ret by fastforce
  ultimately show ?thesis using forwardPut_reply [OF assms(1,2), of reply fuel] Ret by simp
next
  case Hang
  then show ?thesis using forwardPut_Stuck [OF assms(1,2)] serve_PUT [OF assms(4,5,3), of "forwardPut fuel"] assms(6) by simp
qed (use assms(7) in simp)

lemma harmless_forwardPut:
  assumes "length cmd < 2 ^ 32" and "fst (read_word [] (open_stream cmd)) = ''PUT''"
  shows "harmless (forwardPut fuel ip port cmd)"
proof (induction fuel arbitrary: ip port)
  case 0
  then show ?case by (simp add: harmless_def)
next
  case (Suc fuel)
  show ?case unfolding harmless_def
  proof
    fix net
    show "up_at (snd (forwardPut (Suc fuel) ip port cmd net)) = up_at net \<and> (\<forall>e. fst (forwardPut (Suc fuel) ip port cmd net) \<noteq> Throw e)"
    proof (cases "connect net ip port")
      case (Some c)
      then show ?thesis
      proof (cases rule: connect_cases)
        case (storage f n)
        then have "forwardPut (Suc fuel) ip port cmd net = (Ret (''ERROR'' = ''ACK''), net)"
          using Some assms(1) storage_PUT [OF storage(2,3) assms(2)] by (intro forwardPut_reply) (simp_all add: serve_def)
        then show ?thesis by simp
      next
        case (metadata f n)
        obtain r net' where h: "handlePut (commit_at f) (forwardPut fuel) cmd n net = (r, net')" by fastforce
        have "up_at net' = up_at net" "\<forall>e. r \<noteq> Throw e"
          using harmless_handlePut [of "forwardPut fuel" cmd, OF Suc metadata(2)] h by auto
        then show ?thesis using forwardPut_served [OF _ assms metadata(2,3) h] Some metadata(1) by (simp split: outcome.split)
      qed
    qed simp
  qed
qed

lemma received_metadata: "metadata_at e net = Some n \<Longrightarrow> received e net = (if meta_running n then Inr () else Inl [])"
  by (simp add: received_def metadata_at_host)

lemma run_serve_put_task:
  assumes n: "metadata_at e net = Some n" "meta_running n"
    and fwd: "\<And>n net. metadata_at e net = Some n \<Longrightarrow> run_task ft net = fw (nextNodeIp n) (nextNodePort n) cmd net"
    and fw: "\<And>ip port. harmless (fw ip port cmd)"
  shows "run_task (serve_put_task ft e cmd) net = handlePut (commit_at e) fw cmd n net"
proof -
  have "run_task (handlePut_task ft e cmd) net = handlePut (commit_at e) fw cmd n net"
    by (rule run_handlePut_task [of e net n ft fw, OF n(1) fwd])
  moreover obtain r net' where h: "handlePut (commit_at e) fw cmd n net = (r, net')" by fastforce
  moreover have "up_at net' e" using harmless_handlePut [of fw cmd, OF fw n(1)] h up_at_metadata [OF n(1)] n(2) by auto
  ultimately show ?thesis using n by (cases r) (simp_all add: serve_put_task_def received_metadata)
qed

lemma run_forward_task:
  assumes "length cmd < 2 ^ 32" and "fst (read_word [] (open_stream cmd)) = ''PUT''" and "metadata_at e net = Some n"
  shows "run_task (forward_task fuel e cmd) net = forwardPut fuel (nextNodeIp n) (nextNodePort n) cmd net"
  using assms(3)
proof (induction fuel arbitrary: e net n)
  case (Suc fuel)
  have conn: "next_connection e net = (Ret (connect net (nextNodeIp n) (nextNodePort n)), net)"
    using Suc.prems by (simp add: next_connection_def)
  show ?case
  proof (cases "connect net (nextNodeIp n) (nextNodePort n)")
    case None
    then show ?thesis using conn by simp
  next
    case (Some c)
    then show ?thesis
    proof (cases rule: connect_cases)
      case (storage f n')
      have "forwardPut (Suc fuel) (nextNodeIp n) (nextNodePort n) cmd net = (Ret (''ERROR'' = ''ACK''), net)"
        using Some assms(1) storage_PUT [OF storage(2,3) assms(2)] storage(1) by (intro forwardPut_reply) (simp_all add: serve_def)
      moreover have "received f net = Inl ''ERROR''" using storage by (simp add: received_def)
      ultimately show ?thesis using Some conn storage(1) by (simp add: serve_put_task_def fresh_def del: forwardPut.simps)
    next
      case (metadata f n')
      obtain r net' where h: "handlePut (commit_at f) (forwardPut fuel) cmd n' net = (r, net')" by fastforce
      have ok: "\<forall>e. r \<noteq> Throw e"
        using harmless_handlePut [of "forwardPut fuel" cmd, OF harmless_forwardPut [OF assms(1,2)] metadata(2)] h by auto
      have "run_task (serve_put_task (forward_task fuel f cmd) f cmd) net = (r, net')"
        using run_serve_put_task [of f net n' "forward_task fuel f cmd" "forwardPut fuel" cmd, OF metadata(2,3) Suc.IH harmless_forwardPut [OF assms(1,2)]] h by simp
      moreover have "peer c = f" using metadata(1) by (simp add: fresh_def)
      ultimately show ?thesis
        using conn Some metadata(1) forwardPut_served [OF _ assms(1,2) metadata(2,3) h ok] ok
        by (cases r) (simp_all del: forwardPut.simps)
    qed
  qed
qed simp

lemma pingNext_net: "\<exists>b. pingNext fuel n net = (Ret b, net)"
proof (cases "connect net (nextNodeIp n) (nextNodePort n)")
  case (Some c)
  then show ?thesis
  proof (cases rule: connect_cases)
    case (storage f k)
    have "set_host f (StorageServer k) net = net" using storage(2) by (simp add: set_host_def map_upd_triv)
    then have "serve fuel f AwaitCommand (bytes_of_string ''PING'') net = (AwaitCommand, [bytes_of_string ''ERROR''], net)"
      using storage(2,3) read_word_bare [of "''PING''" "[]"]
      by (simp add: serve_def serve_with_def storage_step_def storage_command_def)
    then obtain c1 c2 where "sendMessage (serve fuel) ''PING'' (fresh f) net = (c1, net)" "recvMessage c1 = (Ret ''ERROR'', c2)"
      using request_reply [of "''PING''" "''ERROR''" "serve fuel" f net net] by auto
    then show ?thesis using Some storage(1) by (intro exI [of _ False]) (simp add: pingNext_def)
  next
    case (metadata f k)
    have "serve fuel f AwaitCommand (bytes_of_string ''PING'') net = (AwaitCommand, [bytes_of_string ''PONG''], net)"
      using metadata(2,3) metadata_command_PING by (simp add: serve_def serve_with_def metadata_at_host metadata_step_def)
    then obtain c1 c2 where "sendMessage (serve fuel) ''PING'' (fresh f) net = (c1, net)" "recvMessage c1 = (Ret ''PONG'', c2)"
      using request_reply [of "''PING''" "''PONG''" "serve fuel" f net net] by auto
    then show ?thesis using Some metadata(1) by (intro exI [of _ True]) (simp add: pingNext_def)
  qed
qed (intro exI [of _ False], simp add: pingNext_def)

lemma run_health_task:
  assumes n: "metadata_at e net = Some n"
  shows "run_task (health_task fuel 1 e) net = healthCheck fuel e net"
proof -
  obtain b where "pingNext fuel n net = (Ret b, net)" using pingNext_net by blast
  moreover have "hosts net e = Some (MetadataServer n)" using n by (simp add: metadata_at_host)
  ultimately show ?thesis using n
    by (simp add: health_pass_def ping_from_def repair_at_def healthCheck_def health_check_def
        run_at_node set_host_metadata Let_def split: prod.split)
qed



end
