(* ===== verification/Chain_Faults.thy ===== *)
theory Chain_Faults
  imports Put_Tasks
begin

text \<open>
  The metadata chain under failures: any number of \<open>PUT\<close>s on their way, the health threads
  of the nodes and the ends of nodes, in any interleaving of the actions of \<open>Put_Tasks\<close>.
  The nodes stand in the order of \<open>es\<close>, each with its successor and, where there is one,
  with the node after that as its skip node (\<open>SET_SKIP\<close>).

  \<open>chain_ok\<close> is the invariant: where a node points to, and what must have failed for that.
  \<open>act_guar\<close> is what every thread guarantees to the others.
\<close>

section \<open>The chain while nodes fail\<close>

definition node :: "endpoint list \<Rightarrow> network \<Rightarrow> nat \<Rightarrow> metadata_node" where
  "node es net i = the (metadata_at (es ! i) net)"

definition down :: "endpoint list \<Rightarrow> network \<Rightarrow> nat \<Rightarrow> bool" where
  "down es net i \<longleftrightarrow> \<not> up_at net (es ! i)"

text \<open>Two neighbours behind the head and before the last node have both failed.\<close>

definition gap :: "endpoint list \<Rightarrow> network \<Rightarrow> bool" where
  "gap es net \<longleftrightarrow> (\<exists>k \<ge> 1. k + 2 < length es \<and> down es net k \<and> down es net (Suc k))"

definition all_down_after :: "endpoint list \<Rightarrow> network \<Rightarrow> nat \<Rightarrow> bool" where
  "all_down_after es net i \<longleftrightarrow> gap es net \<or> (\<forall>j. i < j \<and> j < length es \<longrightarrow> down es net j)"

definition ends_here :: "metadata_node \<Rightarrow> bool" where
  "ends_here n \<longleftrightarrow> role_of n = TAIL \<or> role_of n = SINGLE"

definition next_ep :: "network \<Rightarrow> metadata_node \<Rightarrow> endpoint option" where
  "next_ep net n = endpoint_of net (nextNodeIp n) (nextNodePort n)"

definition skip_ep :: "network \<Rightarrow> metadata_node \<Rightarrow> endpoint option" where
  "skip_ep net n = endpoint_of net (skipToIp n) (skipToPort n)"

definition at_end :: "endpoint list \<Rightarrow> network \<Rightarrow> nat \<Rightarrow> metadata_node \<Rightarrow> bool" where
  "at_end es net i n \<longleftrightarrow> ends_here n \<and> nextNodePort n = -1 \<and> next_ep net n = None \<and> skipToPort n = -1 \<and> all_down_after es net i"

definition at_next :: "endpoint list \<Rightarrow> network \<Rightarrow> nat \<Rightarrow> metadata_node \<Rightarrow> bool" where
  "at_next es net i n \<longleftrightarrow> \<not> ends_here n \<and> nextNodePort n \<noteq> -1 \<and> Suc i < length es \<and> next_ep net n = Some (es ! Suc i) \<and>
     (if i + 2 < length es then skipToPort n \<noteq> -1 \<and> skip_ep net n = Some (es ! (i + 2)) else skipToPort n = -1)"

definition at_skip :: "endpoint list \<Rightarrow> network \<Rightarrow> nat \<Rightarrow> metadata_node \<Rightarrow> bool" where
  "at_skip es net i n \<longleftrightarrow> \<not> ends_here n \<and> nextNodePort n \<noteq> -1 \<and> i + 2 < length es \<and> next_ep net n = Some (es ! (i + 2)) \<and>
     skipToPort n = -1 \<and> down es net (Suc i)"

definition link_ok :: "endpoint list \<Rightarrow> network \<Rightarrow> nat \<Rightarrow> bool" where
  "link_ok es net i \<longleftrightarrow> at_end es net i (node es net i) \<or> at_next es net i (node es net i) \<or> at_skip es net i (node es net i)"

definition chain_ok :: "endpoint list \<Rightarrow> network \<Rightarrow> bool" where
  "chain_ok es net \<longleftrightarrow> distinct es \<and> resolve net [] = None \<and>
     (\<forall>i < length es. metadata_at (es ! i) net = Some (node es net i) \<and>
        INT_MIN \<le> myPort (node es net i) \<and> myPort (node es net i) \<le> INT_MAX \<and> link_ok es net i)"

definition same_links :: "metadata_node \<Rightarrow> metadata_node \<Rightarrow> bool" where
  "same_links x y \<longleftrightarrow> nextNodeIp y = nextNodeIp x \<and> nextNodePort y = nextNodePort x \<and> skipToIp y = skipToIp x \<and>
     skipToPort y = skipToPort x \<and> ends_here y = ends_here x"

lemma same_links_refl [simp]: "same_links n n"
  by (simp add: same_links_def)

lemma chain_okD:
  assumes "chain_ok es net" and "i < length es"
  shows "metadata_at (es ! i) net = Some (node es net i)" and "link_ok es net i"
    and "INT_MIN \<le> myPort (node es net i)" and "myPort (node es net i) \<le> INT_MAX"
    and "down es net i = (\<not> meta_running (node es net i))"
proof -
  from assms have n: "metadata_at (es ! i) net = Some (node es net i) \<and>
      INT_MIN \<le> myPort (node es net i) \<and> myPort (node es net i) \<le> INT_MAX \<and> link_ok es net i"
    unfolding chain_ok_def by (elim conjE allE [where x = i]) (erule mp)
  show "metadata_at (es ! i) net = Some (node es net i)" "link_ok es net i"
    "INT_MIN \<le> myPort (node es net i)" "myPort (node es net i) \<le> INT_MAX"
    by (rule n [THEN conjunct1] n [THEN conjunct2, THEN conjunct1] n [THEN conjunct2, THEN conjunct2, THEN conjunct1]
      n [THEN conjunct2, THEN conjunct2, THEN conjunct2])+
  show "down es net i = (\<not> meta_running (node es net i))" unfolding down_def using up_at_metadata [OF n [THEN conjunct1]] by simp
qed

text \<open>Failures only add up.\<close>

definition fails_more :: "endpoint list \<Rightarrow> network \<Rightarrow> network \<Rightarrow> bool" where
  "fails_more es s t \<longleftrightarrow> (\<forall>i < length es. down es s i \<longrightarrow> down es t i)"

lemma gap_mono: "fails_more es s t \<Longrightarrow> gap es s \<Longrightarrow> gap es t"
proof -
  assume more: "fails_more es s t" and "gap es s"
  then obtain k where k: "1 \<le> k" "k + 2 < length es" "down es s k" "down es s (Suc k)" unfolding gap_def by blast
  then have "down es t k" "down es t (Suc k)" using more by (simp_all add: fails_more_def)
  then show ?thesis using k(1,2) unfolding gap_def by blast
qed

lemma all_down_after_mono: "fails_more es s t \<Longrightarrow> all_down_after es s i \<Longrightarrow> all_down_after es t i"
  using gap_mono unfolding all_down_after_def fails_more_def by blast

lemma next_ep_cong: "endpoint_of t = endpoint_of s \<Longrightarrow> same_links x y \<Longrightarrow> next_ep t y = next_ep s x \<and> skip_ep t y = skip_ep s x"
  by (simp add: next_ep_def skip_ep_def same_links_def)

lemma at_mono:
  assumes "endpoint_of t = endpoint_of s" and "same_links x y" and "fails_more es s t"
  shows "at_end es s i x \<Longrightarrow> at_end es t i y" and "at_next es s i x \<Longrightarrow> at_next es t i y"
    and "at_skip es s i x \<Longrightarrow> at_skip es t i y"
proof -
  have eq: "ends_here y = ends_here x" "nextNodePort y = nextNodePort x" "skipToPort y = skipToPort x"
    using assms(2) by (simp_all add: same_links_def)
  have ep: "next_ep t y = next_ep s x" "skip_ep t y = skip_ep s x" using next_ep_cong [OF assms(1,2)] by simp_all
  show "at_end es s i x \<Longrightarrow> at_end es t i y"
    using all_down_after_mono [OF assms(3)] by (simp add: at_end_def eq ep)
  show "at_next es s i x \<Longrightarrow> at_next es t i y" unfolding at_next_def eq ep .
  have "i + 2 < length es \<Longrightarrow> down es s (Suc i) \<Longrightarrow> down es t (Suc i)" using assms(3) by (simp add: fails_more_def)
  then show "at_skip es s i x \<Longrightarrow> at_skip es t i y" unfolding at_skip_def eq ep by blast
qed

lemma link_ok_mono:
  "link_ok es s i \<Longrightarrow> endpoint_of t = endpoint_of s \<Longrightarrow> same_links (node es s i) (node es t i) \<Longrightarrow> fails_more es s t \<Longrightarrow>
   link_ok es t i"
  using at_mono [of t s "node es s i" "node es t i" es i] unfolding link_ok_def by blast

text \<open>One node is replaced by another value of itself.\<close>

lemma node_set_host:
  assumes "distinct es" and "i < length es" and "j < length es"
  shows "node es (set_host (es ! i) (MetadataServer n) s) j = (if j = i then n else node es s j)"
    and "metadata_at (es ! j) (set_host (es ! i) (MetadataServer n) s) = (if j = i then Some n else metadata_at (es ! j) s)"
  using assms by (simp_all add: node_def metadata_at_set_host nth_eq_iff_index_eq)

lemma fails_more_set_host:
  assumes "chain_ok es s" and "i < length es" and "meta_running n \<longrightarrow> meta_running (node es s i)"
  shows "fails_more es s (set_host (es ! i) (MetadataServer n) s)"
  unfolding fails_more_def
proof (intro allI impI)
  fix j assume "j < length es" "down es s j"
  moreover have "distinct es" using assms(1) by (simp add: chain_ok_def)
  ultimately show "down es (set_host (es ! i) (MetadataServer n) s) j"
    using assms(2,3) chain_okD(5) [OF assms(1,2)] by (cases "j = i") (auto simp: down_def up_at_def nth_eq_iff_index_eq)
qed

lemma chain_ok_set_host:
  assumes "chain_ok es s" and "i < length es" and "meta_running n \<longrightarrow> meta_running (node es s i)"
    and "myPort n = myPort (node es s i)"
    and "same_links (node es s i) n \<or> link_ok es (set_host (es ! i) (MetadataServer n) s) i"
  shows "chain_ok es (set_host (es ! i) (MetadataServer n) s)"
proof -
  let ?t = "set_host (es ! i) (MetadataServer n) s"
  have d: "distinct es" using assms(1) by (simp add: chain_ok_def)
  note more = fails_more_set_host [OF assms(1-3)]
  have links: "link_ok es ?t j" if "j < length es" for j
  proof (cases "j = i \<and> \<not> same_links (node es s i) n")
    case False
    then have "same_links (node es s j) (node es ?t j)" using node_set_host [OF d assms(2) that] by auto
    then show ?thesis by (rule link_ok_mono [OF chain_okD(2) [OF assms(1) that] endpoint_of_set_host _ more])
  qed (use assms(5) in blast)
  have all: "\<forall>j < length es. metadata_at (es ! j) ?t = Some (node es ?t j) \<and>
        INT_MIN \<le> myPort (node es ?t j) \<and> myPort (node es ?t j) \<le> INT_MAX \<and> link_ok es ?t j"
  proof (intro allI impI)
    fix j assume j: "j < length es"
    show "metadata_at (es ! j) ?t = Some (node es ?t j) \<and>
        INT_MIN \<le> myPort (node es ?t j) \<and> myPort (node es ?t j) \<le> INT_MAX \<and> link_ok es ?t j"
      unfolding node_set_host [OF d assms(2) j] using chain_okD(1,3,4) [OF assms(1) j] links [OF j] assms(4)
      by (cases "j = i") simp_all
  qed
  have "resolve ?t [] = None" using assms(1) by (simp add: chain_ok_def)
  then show ?thesis unfolding chain_ok_def using d all by (intro conjI)
qed

section \<open>What a thread guarantees\<close>

text \<open>What goes on in the chain: a write, the first \<open>k\<close> passes of a health thread, the end of a node.\<close>

datatype activity = Write file_metadata | Check endpoint nat | Crash endpoint

fun may_write :: "activity \<Rightarrow> string \<Rightarrow> bool" where
  "may_write (Write m) f = (f = meta_filename m)"
| "may_write _ f = False"

fun may_relink :: "activity \<Rightarrow> endpoint \<Rightarrow> bool" where
  "may_relink (Check e k) e' = (e' = e)"
| "may_relink _ e' = False"

definition stored_at :: "endpoint list \<Rightarrow> network \<Rightarrow> file_metadata \<Rightarrow> nat \<Rightarrow> bool" where
  "stored_at es net m i \<longleftrightarrow> metadataStore (node es net i) (meta_filename m) = Some m"

definition act_guar :: "endpoint list \<Rightarrow> activity \<Rightarrow> network \<Rightarrow> network \<Rightarrow> bool" where
  "act_guar es a s t \<longleftrightarrow> (chain_ok es s \<longrightarrow>
     chain_ok es t \<and> fails_more es s t \<and> endpoint_of t = endpoint_of s \<and>
     (\<forall>i < length es.
        (may_relink a (es ! i) \<or> same_links (node es s i) (node es t i)) \<and>
        (\<forall>f. may_write a f \<or> metadataStore (node es t i) f = metadataStore (node es s i) f) \<and>
        (\<forall>m. a = Write m \<and> stored_at es s m i \<longrightarrow> stored_at es t m i)))"

lemma act_guar_refl: "act_guar es a s s"
  by (simp add: act_guar_def fails_more_def)

text \<open>Replacing one node.\<close>

lemma act_guar_set_host:
  assumes "i < length es" and "chain_ok es s \<Longrightarrow> meta_running n \<Longrightarrow> meta_running (node es s i)"
    and "myPort n = myPort (node es s i)"
    and "chain_ok es s \<Longrightarrow> same_links (node es s i) n \<or>
      may_relink a (es ! i) \<and> link_ok es (set_host (es ! i) (MetadataServer n) s) i"
    and "\<forall>f. metadataStore n f = metadataStore (node es s i) f \<or> (\<exists>m. a = Write m \<and> f = meta_filename m \<and> metadataStore n f = Some m)"
  shows "act_guar es a s (set_host (es ! i) (MetadataServer n) s)"
  unfolding act_guar_def
proof (intro impI conjI allI)
  let ?t = "set_host (es ! i) (MetadataServer n) s"
  assume c: "chain_ok es s"
  then have d: "distinct es" by (simp add: chain_ok_def)
  have run: "meta_running n \<longrightarrow> meta_running (node es s i)" using assms(2) [OF c] by blast
  show "chain_ok es ?t" using assms(4) [OF c] by (intro chain_ok_set_host [OF c assms(1) run assms(3)]) blast
  show "fails_more es s ?t" by (rule fails_more_set_host [OF c assms(1) run])
  fix j assume j: "j < length es"
  note n = node_set_host(1) [OF d assms(1) j, of n s]
  show "may_relink a (es ! j) \<or> same_links (node es s j) (node es ?t j)" using assms(4) [OF c] n by (cases "j = i") auto
  show "may_write a f \<or> metadataStore (node es ?t j) f = metadataStore (node es s j) f" for f
    using assms(5) [rule_format, of f] n by (cases "j = i") auto
  show "stored_at es ?t m j" if "a = Write m \<and> stored_at es s m j" for m
    using assms(5) [rule_format, of "meta_filename m"] that n by (cases "j = i") (auto simp: stored_at_def)
qed (simp_all)

lemma guar_store: "i < length es \<Longrightarrow> act_guar es (Write m) s (set_host (es ! i) (MetadataServer (stored m (node es s i))) s)"
  by (rule act_guar_set_host) (auto simp: stored_def same_links_def ends_here_def)

lemma guar_crash:
  "i < length es \<Longrightarrow> act_guar es a s (set_host (es ! i) (MetadataServer ((node es s i)\<lparr>meta_running := False\<rparr>)) s)"
  by (rule act_guar_set_host) (simp_all add: same_links_def ends_here_def)

lemma same_links_update_prev: "same_links n (update_prev ip port n)"
  by (simp add: same_links_def update_prev_def ends_here_def Let_def)

lemma guar_update_prev:
  "i < length es \<Longrightarrow> act_guar es a s (set_host (es ! i) (MetadataServer (update_prev ip port (node es s i))) s)"
  using same_links_update_prev by (intro act_guar_set_host) (simp_all, simp add: update_prev_def Let_def)

lemma act_guar_Check_trans:
  assumes "act_guar es (Check e k) s t" and "act_guar es (Check e k) t u"
  shows "act_guar es (Check e k) s u"
proof -
  have "chain_ok es u \<and> fails_more es s u \<and> endpoint_of u = endpoint_of s \<and>
     (\<forall>i < length es. (e = es ! i \<or> same_links (node es s i) (node es u i)) \<and>
        metadataStore (node es u i) = metadataStore (node es s i))" if c: "chain_ok es s"
  proof -
    have st: "chain_ok es t" "fails_more es s t" "endpoint_of t = endpoint_of s"
      "\<forall>i < length es. (e = es ! i \<or> same_links (node es s i) (node es t i)) \<and> metadataStore (node es t i) = metadataStore (node es s i)"
      using assms(1) c by (auto simp: act_guar_def fun_eq_iff)
    have tu: "chain_ok es u" "fails_more es t u" "endpoint_of u = endpoint_of t"
      "\<forall>i < length es. (e = es ! i \<or> same_links (node es t i) (node es u i)) \<and> metadataStore (node es u i) = metadataStore (node es t i)"
      using assms(2) st(1) by (auto simp: act_guar_def fun_eq_iff)
    have more: "fails_more es s u" using st(2) tu(2) by (simp add: fails_more_def)
    have links: "same_links x z" if "same_links x y" "same_links y z" for x y z using that by (simp add: same_links_def)
    have "(e = es ! i \<or> same_links (node es s i) (node es u i)) \<and> metadataStore (node es u i) = metadataStore (node es s i)"
      if "i < length es" for i
      using st(4) tu(4) that links [of "node es s i" "node es t i" "node es u i"] by fastforce
    then show ?thesis using more tu(1,3) st(3) by simp
  qed
  then show ?thesis by (auto simp: act_guar_def)
qed

section \<open>Steps seen by a writer and by a health thread\<close>

definition separate_acts :: "(nat \<Rightarrow> activity) \<Rightarrow> bool" where
  "separate_acts acts \<longleftrightarrow> (\<forall>i j. i \<noteq> j \<longrightarrow>
     (\<forall>f. \<not> (may_write (acts i) f \<and> may_write (acts j) f)) \<and> (\<forall>e. \<not> (may_relink (acts i) e \<and> may_relink (acts j) e)))"

abbreviation act_rely :: "endpoint list \<Rightarrow> (nat \<Rightarrow> activity) \<Rightarrow> nat \<Rightarrow> network \<Rightarrow> network \<Rightarrow> bool" where
  "act_rely es acts i \<equiv> (\<lambda>s t. \<exists>j. j \<noteq> i \<and> act_guar es (acts j) s t)"

interpretation faults: interference "act_rely es acts" "\<lambda>i. act_guar es (acts i)" for es acts
  by unfold_locales (rule exI, rule conjI, erule not_sym)

definition write_step :: "endpoint list \<Rightarrow> file_metadata \<Rightarrow> network \<Rightarrow> network \<Rightarrow> bool" where
  "write_step es m s t \<longleftrightarrow> chain_ok es t \<and> fails_more es s t \<and> (\<forall>i < length es. stored_at es s m i \<longrightarrow> stored_at es t m i)"

definition check_step :: "endpoint list \<Rightarrow> nat \<Rightarrow> network \<Rightarrow> network \<Rightarrow> bool" where
  "check_step es i s t \<longleftrightarrow> chain_ok es t \<and> fails_more es s t \<and> endpoint_of t = endpoint_of s \<and>
     same_links (node es s i) (node es t i)"

lemma write_step_guar:
  assumes "act_guar es a s t" and "chain_ok es s" and "a = Write m \<or> \<not> may_write a (meta_filename m)"
  shows "write_step es m s t"
  using assms unfolding act_guar_def write_step_def stored_at_def by (elim disjE) fastforce+

lemma write_step_rely:
  assumes "separate_acts acts" and "acts k = Write m" and "act_rely es acts k s t" and "chain_ok es s"
  shows "write_step es m s t"
proof -
  obtain j where j: "j \<noteq> k" "act_guar es (acts j) s t" using assms(3) by blast
  then have "\<not> may_write (acts j) (meta_filename m)" using assms(1,2) unfolding separate_acts_def by (metis may_write.simps(1))
  then show ?thesis by (intro write_step_guar [OF j(2) assms(4)]) blast
qed

lemma check_step_rely:
  assumes "separate_acts acts" and "acts k = Check (es ! i) p" and "i < length es" and "act_rely es acts k s t" and "chain_ok es s"
  shows "check_step es i s t"
proof -
  obtain j where j: "j \<noteq> k" "act_guar es (acts j) s t" using assms(4) by blast
  then have "\<not> may_relink (acts j) (es ! i)" using assms(1,2) unfolding separate_acts_def by (metis may_relink.simps(1))
  then show ?thesis using j(2) assms(3,5) unfolding act_guar_def check_step_def by blast
qed

section \<open>A write on its way\<close>

definition safe_from :: "endpoint list \<Rightarrow> network \<Rightarrow> file_metadata \<Rightarrow> nat \<Rightarrow> bool" where
  "safe_from es net m i \<longleftrightarrow> gap es net \<or> (\<forall>j. i \<le> j \<and> j < length es \<longrightarrow> stored_at es net m j \<or> down es net j)"

lemma write_stepD:
  assumes "write_step es m s t"
  shows "chain_ok es t" and "i < length es \<Longrightarrow> stored_at es s m i \<Longrightarrow> stored_at es t m i"
    and "i < length es \<Longrightarrow> down es s i \<Longrightarrow> down es t i" and "all_down_after es s i \<Longrightarrow> all_down_after es t i"
    and "safe_from es s m i \<Longrightarrow> safe_from es t m i"
proof -
  have w: "chain_ok es t" "fails_more es s t" "\<forall>i < length es. stored_at es s m i \<longrightarrow> stored_at es t m i"
    using assms by (simp_all add: write_step_def)
  show "chain_ok es t" "i < length es \<Longrightarrow> stored_at es s m i \<Longrightarrow> stored_at es t m i"
    "i < length es \<Longrightarrow> down es s i \<Longrightarrow> down es t i" using w by (simp_all add: fails_more_def)
  show "all_down_after es s i \<Longrightarrow> all_down_after es t i" by (rule all_down_after_mono [OF w(2)])
  show "safe_from es s m i \<Longrightarrow> safe_from es t m i"
    using w gap_mono [OF w(2)] unfolding safe_from_def fails_more_def by blast
qed

lemma stable_write:
  assumes "separate_acts acts" and "acts k = Write m"
    and "\<And>s t. chain_ok es s \<Longrightarrow> A s \<Longrightarrow> write_step es m s t \<Longrightarrow> A t"
  shows "stable (act_rely es acts k) (\<lambda>s. chain_ok es s \<and> A s)" and "stable (act_guar es (Write m)) (\<lambda>s. chain_ok es s \<and> A s)"
proof -
  have "chain_ok es t \<and> A t" if "chain_ok es s \<and> A s" "write_step es m s t" for s t
    using that assms(3) write_stepD(1) by blast
  then show "stable (act_rely es acts k) (\<lambda>s. chain_ok es s \<and> A s)" "stable (act_guar es (Write m)) (\<lambda>s. chain_ok es s \<and> A s)"
    using write_step_rely [OF assms(1,2)] write_step_guar [of es "Write m" _ _ m] unfolding stable_def by blast+
qed

text \<open>Where the next connection of node \<open>i\<close> leads.\<close>

lemma next_connection_at:
  assumes "chain_ok es s" and "i < length es"
  shows "\<exists>c. next_connection (es ! i) s = (Ret c, s) \<and>
    (\<forall>client. c = Some client \<longrightarrow> (\<exists>j. i < j \<and> j < length es \<and> peer client = es ! j \<and> (\<forall>l. i < l \<and> l < j \<longrightarrow> down es s l)))"
proof -
  let ?n = "node es s i"
  note n = chain_okD(1,2) [OF assms]
  have c: "next_connection (es ! i) s = (Ret (connect s (nextNodeIp ?n) (nextNodePort ?n)), s)" using n(1) by (simp add: next_connection_def)
  have p: "next_ep s ?n = Some (peer client)" if "connect s (nextNodeIp ?n) (nextNodePort ?n) = Some client" for client
    using that by (auto simp: connect_def next_ep_def fresh_def split: option.splits if_splits)
  have "\<exists>j. i < j \<and> j < length es \<and> e = es ! j \<and> (\<forall>l. i < l \<and> l < j \<longrightarrow> down es s l)" if e: "next_ep s ?n = Some e" for e
  proof -
    consider "at_next es s i ?n" | "at_skip es s i ?n" using n(2) e unfolding link_ok_def at_end_def by auto
    then show ?thesis
    proof cases
      case 1
      then show ?thesis using e by (intro exI [of _ "Suc i"]) (auto simp: at_next_def)
    next
      case 2
      then have "i + 2 < length es" "e = es ! (i + 2)" "down es s (Suc i)" using e by (simp_all add: at_skip_def)
      moreover have "down es s l" if "i < l \<and> l < i + 2" for l
      proof -
        have "l = Suc i" using that by simp
        then show ?thesis using calculation(3) by simp
      qed
      ultimately show ?thesis by (intro exI [of _ "i + 2"]) simp
    qed
  qed
  then show ?thesis using c p by blast
qed

lemma passes_on:
  assumes "chain_ok es s" and "i < length es"
  shows "if role_of (node es s i) \<noteq> TAIL \<and> role_of (node es s i) \<noteq> SINGLE \<and> nextNodePort (node es s i) \<noteq> -1
    then Suc i < length es else all_down_after es s i"
proof -
  have "ends_here (node es s i) \<and> all_down_after es s i \<or> \<not> ends_here (node es s i) \<and> nextNodePort (node es s i) \<noteq> -1 \<and> Suc i < length es"
    using chain_okD(2) [OF assms] unfolding link_ok_def at_end_def at_next_def at_skip_def by auto
  then show ?thesis unfolding ends_here_def by auto
qed

lemma write_reply_yields:
  assumes "separate_acts acts" and "acts k = Write m" and cmd: "parse_put cmd = Some m" and i: "i < length es"
    and fwd: "Suc i < length es \<Longrightarrow> yields (act_rely es acts k) (act_guar es (Write m)) (\<lambda>s. chain_ok es s \<and> True) ft
      (\<lambda>b s. chain_ok es s \<and> (b \<longrightarrow> safe_from es s m (Suc i)))"
  shows "yields (act_rely es acts k) (act_guar es (Write m)) (\<lambda>s. chain_ok es s \<and> True) (serve_put_task ft (es ! i) cmd)
    (\<lambda>x s. chain_ok es s \<and> x \<in> {[], ''ACK'', ''ERROR_FORWARD''} \<and> (x = ''ACK'' \<longrightarrow> safe_from es s m i))"
    (is "yields ?R ?G ?P _ ?Q")
proof -
  note st = stable_write [OF assms(1,2)]
  let ?S = "\<lambda>s. chain_ok es s \<and> stored_at es s m i"
  have sP: "stable ?R ?P" and sQ: "stable ?R (?Q x)" and sS: "stable ?R ?S" "stable ?G ?S" for x
    using i by (intro st; blast dest: write_stepD)+
  note fin = yields_finish [where Q = ?Q, OF sQ]
  have "yields ?R ?G ?P (handlePut_task ft (es ! i) cmd) ?Q"
    unfolding handlePut_task_def cmd option.case
  proof (rule yields_bind)
    show "yields ?R ?G ?P (at_node (es ! i) (\<lambda>n. ((), n\<lparr>metadataStore := (metadataStore n)(meta_filename m \<mapsto> m)\<rparr>))) (\<lambda>_. ?S)"
    proof (rule yields_at_node [OF sP sS(1)])
      fix s assume "chain_ok es s \<and> True"
      then have c: "chain_ok es s" by blast
      let ?t = "set_host (es ! i) (MetadataServer (stored m (node es s i))) s"
      have g: "act_guar es (Write m) s ?t" by (rule guar_store [OF i])
      then have "chain_ok es ?t" using c by (simp add: act_guar_def)
      moreover have "distinct es" using c by (simp add: chain_ok_def)
      then have "stored_at es ?t m i" by (simp add: stored_at_def node_set_host(1) [OF _ i i])
      ultimately show "\<exists>n. metadata_at (es ! i) s = Some n \<and>
          act_guar es (Write m) s (set_host (es ! i) (MetadataServer (snd ((), n\<lparr>metadataStore := (metadataStore n)(meta_filename m \<mapsto> m)\<rparr>))) s) \<and>
          ?S (set_host (es ! i) (MetadataServer (snd ((), n\<lparr>metadataStore := (metadataStore n)(meta_filename m \<mapsto> m)\<rparr>))) s)"
        using g chain_okD(1) [OF c i] unfolding snd_conv stored_def [symmetric] by blast
    qed
  next
    fix u :: unit
    let ?B = "\<lambda>b s. chain_ok es s \<and> stored_at es s m i \<and> (if b then Suc i < length es else all_down_after es s i)"
    show "yields ?R ?G ?S
       (bind_task (at_node (es ! i) (\<lambda>n. (role_of n \<noteq> TAIL \<and> role_of n \<noteq> SINGLE \<and> nextNodePort n \<noteq> - 1, n)))
         (\<lambda>passOn. if passOn then bind_task ft (\<lambda>success. Finish (Ret (if success then ''ACK'' else ''ERROR_FORWARD'')))
                   else Finish (Ret ''ACK''))) ?Q"
    proof (rule yields_bind)
      have "stable ?R (?B b)" for b by (rule st) (use i in \<open>auto dest: write_stepD\<close>)
      then show "yields ?R ?G ?S (at_node (es ! i) (\<lambda>n. (role_of n \<noteq> TAIL \<and> role_of n \<noteq> SINGLE \<and> nextNodePort n \<noteq> - 1, n))) ?B"
        using chain_okD(1) [OF _ i] passes_on [OF _ i] by (intro yields_read_node [OF sS(1) _ act_guar_refl]) blast+
    next
      fix b
      show "yields ?R ?G (?B b) (if b then bind_task ft (\<lambda>success. Finish (Ret (if success then ''ACK'' else ''ERROR_FORWARD'')))
                   else Finish (Ret ''ACK'')) ?Q"
      proof (cases "b \<and> Suc i < length es")
        case True
        note f = yields_frame [OF fwd sS, OF conjunct2 [OF True]]
        have "safe_from es s m i" if "safe_from es s m (Suc i)" "stored_at es s m i" for s
          using that unfolding safe_from_def by (metis Suc_leI le_neq_implies_less)
        then have "yields ?R ?G (\<lambda>s. ?P s \<and> ?S s) (bind_task ft (\<lambda>success. Finish (Ret (if success then ''ACK'' else ''ERROR_FORWARD'')))) ?Q"
          by (intro yields_bind [OF f] fin) auto
        then show ?thesis using True by simp
      next
        case False
        show ?thesis
        proof (cases b)
          case True
          then show ?thesis using False by (intro yields_never) simp
        next
          case nb: False
          have "safe_from es s m i" if "all_down_after es s i" "stored_at es s m i" for s
            using that unfolding safe_from_def all_down_after_def by (metis le_neq_implies_less)
          then have "yields ?R ?G (?B False) (Finish (Ret ''ACK'')) ?Q" by (intro fin) simp
          then show ?thesis using nb by simp
        qed
      qed
    qed
  qed
  then have handled: "yields ?R ?G ?P (handlePut_task ft (es ! i) cmd) ?Q" .
  let ?r = "\<lambda>r s. chain_ok es s \<and> (r = Inl [] \<or> r = Inr ())"
  have sr: "stable ?R (?r r)" for r by (rule st) blast
  show ?thesis unfolding serve_put_task_def
  proof (rule yields_bind)
    have "?r (received (es ! i) s) s" if "?P s" for s
      using that received_metadata [OF chain_okD(1) [OF _ i]] by auto
    then show "yields ?R ?G ?P (atomically (\<lambda>net. (Ret (received (es ! i) net), net))) ?r"
      by (intro yields_peek [OF sP sr act_guar_refl])
  next
    fix r
    show "yields ?R ?G (?r r) (case r of Inl response \<Rightarrow> Finish (Ret response)
       | Inr _ \<Rightarrow> bind_task (handlePut_task ft (es ! i) cmd) (\<lambda>reply. atomically (\<lambda>net. (Ret (if up_at net (es ! i) then reply else []), net)))) ?Q"
    proof (cases r)
      case (Inl response)
      show ?thesis unfolding Inl sum.case by (rule fin) auto
    next
      case (Inr u)
      have "yields ?R ?G (?Q reply) (atomically (\<lambda>net. (Ret (if up_at net (es ! i) then reply else []), net))) ?Q" for reply
        by (rule yields_peek [OF sQ sQ act_guar_refl]) auto
      then have "yields ?R ?G ?P (bind_task (handlePut_task ft (es ! i) cmd) (\<lambda>reply. atomically (\<lambda>net. (Ret (if up_at net (es ! i) then reply else []), net)))) ?Q"
        by (rule yields_bind [OF handled])
      then show ?thesis using Inr by simp
    qed
  qed
qed

lemma forward_yields:
  assumes "separate_acts acts" and "acts k = Write m" and cmd: "parse_put cmd = Some m" and "Suc i < length es" and "length es \<le> Suc (i + fuel)"
  shows "yields (act_rely es acts k) (act_guar es (Write m)) (\<lambda>s. chain_ok es s \<and> True) (forward_task fuel (es ! i) cmd)
      (\<lambda>b s. chain_ok es s \<and> (b \<longrightarrow> safe_from es s m (Suc i)))"
  using assms(4,5)
proof (induction fuel arbitrary: i)
  case (Suc fuel)
  let ?R = "act_rely es acts k" and ?G = "act_guar es (Write m)" and ?P = "\<lambda>s. chain_ok es s \<and> True"
    and ?Q = "\<lambda>b s. chain_ok es s \<and> (b \<longrightarrow> safe_from es s m (Suc i))"
  note st = stable_write [OF assms(1,2)]
  let ?reach = "\<lambda>j client s. i < j \<and> j < length es \<and> peer client = es ! j \<and> (\<forall>l. i < l \<and> l < j \<longrightarrow> down es s l)"
  let ?C = "\<lambda>c s. chain_ok es s \<and> (\<forall>client. c = Some client \<longrightarrow> (\<exists>j. ?reach j client s))"
  have sP: "stable ?R ?P" and sQ: "stable ?R (?Q b)" for b by (rule st; blast dest: write_stepD)+
  have sC: "stable ?R (?C c)" for c
  proof (rule st(1))
    fix s t assume "\<forall>client. c = Some client \<longrightarrow> (\<exists>j. ?reach j client s)" and w: "write_step es m s t"
    moreover have "?reach j client t" if "?reach j client s" for j client using that write_stepD(3) [OF w] by auto
    ultimately show "\<forall>client. c = Some client \<longrightarrow> (\<exists>j. ?reach j client t)" by blast
  qed
  show ?case unfolding forward_task.simps
  proof (rule yields_bind)
    show "yields ?R ?G ?P (atomically (next_connection (es ! i))) ?C"
    proof (rule yields_atomically [OF sP sC])
      fix s assume "?P s"
      then obtain c where "next_connection (es ! i) s = (Ret c, s)" "?C c s"
        using next_connection_at [of es s i] Suc.prems(1) by auto
      then show "\<exists>x. fst (next_connection (es ! i) s) = Ret x \<and> ?G s (snd (next_connection (es ! i) s)) \<and> ?C x (snd (next_connection (es ! i) s))"
        using act_guar_refl by auto
    qed
  next
    fix c
    show "yields ?R ?G (?C c) (case c of None \<Rightarrow> Finish (Ret False)
       | Some client \<Rightarrow> bind_task (serve_put_task (forward_task fuel (peer client) cmd) (peer client) cmd) (\<lambda>response. Finish (Ret (response = ''ACK'')))) ?Q"
    proof (cases c)
      case None
      then show ?thesis by simp (rule yields_finish [where Q = ?Q, OF sQ], auto)
    next
      case (Some client)
      have "yields ?R ?G (\<lambda>s. chain_ok es s \<and> ?reach j client s)
          (bind_task (serve_put_task (forward_task fuel (peer client) cmd) (peer client) cmd) (\<lambda>response. Finish (Ret (response = ''ACK'')))) ?Q" for j
      proof (cases "i < j \<and> j < length es \<and> peer client = es ! j")
        case True
        let ?F = "\<lambda>s. chain_ok es s \<and> (\<forall>l. i < l \<and> l < j \<longrightarrow> down es s l)"
        have sF: "stable ?R ?F" "stable ?G ?F" by (rule st; use True write_stepD(3) in \<open>meson less_trans\<close>)+
        have "yields ?R ?G ?P (serve_put_task (forward_task fuel (es ! j) cmd) (es ! j) cmd)
            (\<lambda>x s. chain_ok es s \<and> x \<in> {[], ''ACK'', ''ERROR_FORWARD''} \<and> (x = ''ACK'' \<longrightarrow> safe_from es s m j))"
          using True Suc by (intro write_reply_yields [OF assms(1-3)]) auto
        note f = yields_frame [OF this sF]
        have "safe_from es s m (Suc i)" if "safe_from es s m j" "\<forall>l. i < l \<and> l < j \<longrightarrow> down es s l" for s
          using that unfolding safe_from_def by (meson Suc_le_lessD not_le)
        then have "yields ?R ?G (\<lambda>s. ?P s \<and> ?F s) (bind_task (serve_put_task (forward_task fuel (es ! j) cmd) (es ! j) cmd)
            (\<lambda>response. Finish (Ret (response = ''ACK'')))) ?Q"
          by (intro yields_bind [OF f] yields_finish [where Q = ?Q, OF sQ]) auto
        then show ?thesis using True by simp
      qed (auto intro: yields_never)
      from yields_ex [where P = "\<lambda>j s. chain_ok es s \<and> ?reach j client s", OF this] show ?thesis
        unfolding Some option.case by (rule yields_pre) blast
    qed
  qed
qed simp

section \<open>A health thread\<close>

definition target_down :: "endpoint list \<Rightarrow> network \<Rightarrow> nat \<Rightarrow> bool" where
  "target_down es net i \<longleftrightarrow> (\<forall>j < length es. next_ep net (node es net i) = Some (es ! j) \<longrightarrow> down es net j)"

lemma handleNextNodeFailure_simps:
  "skipToPort n = -1 \<Longrightarrow> handleNextNodeFailure n =
     (n\<lparr>nextNodeIp := [], nextNodePort := -1, role_of := (if prevNodePort n = -1 then SINGLE else TAIL)\<rparr>, False)"
  "skipToPort n \<noteq> -1 \<Longrightarrow> handleNextNodeFailure n =
     (n\<lparr>nextNodeIp := skipToIp n, nextNodePort := skipToPort n, skipToIp := [], skipToPort := -1\<rparr>, True)"
  by (simp_all add: handleNextNodeFailure_def)

lemma guar_becomes_end:
  assumes "i < length es" and "skipToPort (node es s i) = -1" and "chain_ok es s \<Longrightarrow> all_down_after es s i"
    and that: "r = TAIL \<or> r = SINGLE"
  shows "act_guar es (Check (es ! i) p) s (set_host (es ! i) (MetadataServer ((node es s i)\<lparr>nextNodeIp := [], nextNodePort := -1, role_of := r\<rparr>)) s)"
proof (rule act_guar_set_host [OF assms(1)])
  let ?n = "(node es s i)\<lparr>nextNodeIp := [], nextNodePort := -1, role_of := r\<rparr>"
  let ?t = "set_host (es ! i) (MetadataServer ?n) s"
  assume c: "chain_ok es s"
  then have d: "distinct es" and nil: "resolve s [] = None" by (simp_all add: chain_ok_def)
  have "all_down_after es ?t i" using assms(3) [OF c] by (rule all_down_after_mono [OF fails_more_set_host [OF c assms(1)], rotated]) simp
  then have "link_ok es ?t i"
    using node_set_host(1) [OF d assms(1,1), of ?n s] that nil assms(2)
    by (auto simp: link_ok_def at_end_def ends_here_def next_ep_def endpoint_of_def)
  then show "same_links (node es s i) ?n \<or> may_relink (Check (es ! i) p) (es ! i) \<and> link_ok es ?t i" by simp
qed simp_all

lemma guar_skips:
  assumes "i + 2 < length es" and "chain_ok es s" and "at_next es s i (node es s i)" and "down es s (Suc i)"
  shows "act_guar es (Check (es ! i) p) s (set_host (es ! i) (MetadataServer ((node es s i)\<lparr>nextNodeIp := skipToIp (node es s i),
     nextNodePort := skipToPort (node es s i), skipToIp := [], skipToPort := -1\<rparr>)) s)"
proof (rule act_guar_set_host)
  let ?n = "(node es s i)\<lparr>nextNodeIp := skipToIp (node es s i), nextNodePort := skipToPort (node es s i), skipToIp := [], skipToPort := -1\<rparr>"
  let ?t = "set_host (es ! i) (MetadataServer ?n) s"
  have i: "i < length es" using assms(1) by simp
  have d: "distinct es" using assms(2) by (simp add: chain_ok_def)
  have "fails_more es s ?t" by (rule fails_more_set_host [OF assms(2) i]) simp
  then have "down es ?t (Suc i)" using assms(1,4) by (simp add: fails_more_def)
  then have "at_skip es ?t i ?n"
    using assms(1,3) by (simp add: at_next_def at_skip_def ends_here_def next_ep_def skip_ep_def)
  then have "link_ok es ?t i" using node_set_host(1) [OF d i i, of ?n s] by (simp add: link_ok_def)
  then show "same_links (node es s i) ?n \<or> may_relink (Check (es ! i) p) (es ! i) \<and> link_ok es ?t i" by simp
qed (use assms(1) in simp_all)

lemma notify_guar:
  assumes "chain_ok es t" and "i < length es" and "k < length es" and "next_ep t (node es t i) = Some (es ! k)"
  shows "act_guar es a t (notifyNextOfPredecessor fuel (node es t i) t)"
proof (cases "down es t k")
  case True
  then have "connect t (nextNodeIp (node es t i)) (nextNodePort (node es t i)) = None"
    using assms(4) by (auto simp: connect_def next_ep_def down_def up_at_def split: option.splits)
  then show ?thesis by (simp add: notifyNextOfPredecessor_def act_guar_refl)
next
  case False
  have "notifyNextOfPredecessor fuel (node es t i) t =
      set_host (es ! k) (MetadataServer (update_prev ''127.0.0.1'' (myPort (node es t i)) (node es t k))) t"
    using assms(4) chain_okD [OF assms(1)] assms(2,3) False by (intro notify_running) (simp_all add: next_ep_def)
  then show ?thesis using guar_update_prev [OF assms(3)] by simp
qed

lemma guar_repair:
  assumes c: "chain_ok es s" and i: "i < length es" and t: "target_down es s i"
  shows "act_guar es (Check (es ! i) p) s (repair_at fuel (es ! i) s)"
proof -
  let ?n = "node es s i"
  note n = chain_okD [OF c i]
  have dn: "down es s j" if "next_ep s ?n = Some (es ! j)" "j < length es" for j using t that by (simp add: target_down_def)
  show ?thesis
  proof (cases "skipToPort ?n = -1")
    case True
    have "all_down_after es s i"
    proof -
      from n(2) consider "all_down_after es s i"
        | "Suc i < length es" "down es s (Suc i)" "\<not> i + 2 < length es"
        | "i + 2 < length es" "down es s (i + 2)" "down es s (Suc i)"
        using dn True unfolding link_ok_def at_end_def at_next_def at_skip_def by (metis (full_types))
      then show ?thesis
      proof cases
        case 2
        then have "j = Suc i" if "i < j" "j < length es" for j using that by simp
        then show ?thesis using 2(2) by (auto simp: all_down_after_def)
      next
        case 3
        show ?thesis
        proof (cases "Suc (i + 2) < length es")
          case True
          then have "gap es s" using 3 by (auto simp: gap_def intro!: exI [of _ "Suc i"])
          then show ?thesis by (simp add: all_down_after_def)
        next
          case False
          then have "j = Suc i \<or> j = i + 2" if "i < j" "j < length es" for j using that by linarith
          then show ?thesis using 3(2,3) unfolding all_down_after_def by blast
        qed
      qed
    qed
    then show ?thesis
      using guar_becomes_end [OF i True] n(1) by (simp add: repair_at_def handleNextNodeFailure_simps(1) [OF True])
  next
    case False
    then have a: "at_next es s i ?n" "i + 2 < length es" using n(2) unfolding link_ok_def at_end_def at_next_def at_skip_def by (auto split: if_splits)
    then have "down es s (Suc i)" by (intro dn) (simp_all add: at_next_def)
    note skip = guar_skips [OF a(2) c a(1) this, of p]
    let ?m = "?n\<lparr>nextNodeIp := skipToIp ?n, nextNodePort := skipToPort ?n, skipToIp := [], skipToPort := -1\<rparr>"
    let ?t = "set_host (es ! i) (MetadataServer ?m) s"
    have "distinct es" using c by (simp add: chain_ok_def)
    then have m: "node es ?t i = ?m" using node_set_host(1) [OF _ i i] by simp
    have "chain_ok es ?t" using skip c by (simp add: act_guar_def)
    moreover have "next_ep ?t (node es ?t i) = Some (es ! (i + 2))" using a m by (simp add: at_next_def next_ep_def skip_ep_def)
    ultimately have "act_guar es (Check (es ! i) p) ?t (notifyNextOfPredecessor fuel ?m ?t)"
      using notify_guar [of es ?t i "i + 2"] a(2) i m by simp
    from act_guar_Check_trans [OF skip this] show ?thesis
      using n(1) by (simp add: repair_at_def handleNextNodeFailure_simps(2) [OF False])
  qed
qed

lemma stable_check:
  assumes "separate_acts acts" and "acts k = Check (es ! i) p" and "i < length es"
    and "\<And>s t. chain_ok es s \<Longrightarrow> A s \<Longrightarrow> check_step es i s t \<Longrightarrow> A t"
  shows "stable (act_rely es acts k) (\<lambda>s. chain_ok es s \<and> A s)"
  unfolding stable_def
proof (intro allI impI)
  fix s t assume a: "(chain_ok es s \<and> A s) \<and> act_rely es acts k s t"
  note s = a [THEN conjunct1, THEN conjunct1] a [THEN conjunct1, THEN conjunct2] and r = a [THEN conjunct2]
  have "check_step es i s t" by (rule check_step_rely [OF assms(1-3) r s(1)])
  then show "chain_ok es t \<and> A t" using assms(4) [OF s] by (simp add: check_step_def)
qed

lemma ping_finds:
  assumes "chain_ok es s" and "i < length es"
  shows "\<exists>b. ping_from fuel (es ! i) s = (Ret b, s) \<and> (\<not> b \<longrightarrow> target_down es s i)"
proof -
  let ?n = "node es s i"
  obtain b where b: "pingNext fuel ?n s = (Ret b, s)" using pingNext_net by blast
  have "down es s j" if "\<not> b" "j < length es" "next_ep s ?n = Some (es ! j)" for j
  proof (rule ccontr)
    assume "\<not> down es s j"
    then have "pingNext fuel ?n s = (Ret True, s)"
      using chain_okD [OF assms(1) that(2)] that(3) by (intro pingNext_up) (simp_all add: next_ep_def)
    then show False using b that(1) by simp
  qed
  then show ?thesis using b chain_okD(1) [OF assms] by (auto simp: ping_from_def target_down_def)
qed

lemma health_yields:
  assumes "separate_acts acts" and "acts k = Check (es ! i) p" and i: "i < length es"
  shows "yields (act_rely es acts k) (act_guar es (Check (es ! i) p)) (\<lambda>s. chain_ok es s \<and> True) (health_task fuel q (es ! i))
    (\<lambda>_ s. chain_ok es s \<and> True)" (is "yields ?R ?G ?P _ ?Q")
proof -
  note st = stable_check [OF assms]
  let ?T = "\<lambda>pong s. chain_ok es s \<and> (\<not> pong \<longrightarrow> target_down es s i)"
  have sP: "stable ?R ?P" by (rule st) blast
  have sT: "stable ?R (?T pong)" for pong
  proof (rule st)
    fix s t assume s: "\<not> pong \<longrightarrow> target_down es s i" and c: "check_step es i s t"
    have "next_ep t (node es t i) = next_ep s (node es s i)" using c next_ep_cong by (simp add: check_step_def)
    moreover have "fails_more es s t" using c by (simp add: check_step_def)
    ultimately show "\<not> pong \<longrightarrow> target_down es t i" using s by (auto simp: target_down_def fails_more_def)
  qed
  have fin: "yields ?R ?G ?P (Finish (Ret ())) ?Q" by (rule yields_finish [where Q = ?Q, OF sP]) simp
  have "yields ?R ?G ?P (atomically (ping_from fuel (es ! i))) ?T"
    using ping_finds [OF _ i, of _ fuel] act_guar_refl by (intro yields_atomically [OF sP sT]) fastforce
  moreover have "yields ?R ?G (?T pong) (if pong then Finish (Ret ()) else atomically (\<lambda>net. (Ret (), repair_at fuel (es ! i) net))) ?Q" for pong
  proof (cases pong)
    case True
    then show ?thesis using fin by simp
  next
    case False
    have "?G s (repair_at fuel (es ! i) s) \<and> chain_ok es (repair_at fuel (es ! i) s)" if "chain_ok es s" "target_down es s i" for s
      using guar_repair [OF that(1) i that(2)] that(1) by (simp add: act_guar_def)
    then have "yields ?R ?G (?T False) (atomically (\<lambda>net. (Ret (), repair_at fuel (es ! i) net))) ?Q"
      by (intro yields_atomically [OF sT sP]) simp
    then show ?thesis using False by simp
  qed
  ultimately have ping: "yields ?R ?G ?P (bind_task (atomically (ping_from fuel (es ! i)))
      (\<lambda>pong. if pong then Finish (Ret ()) else atomically (\<lambda>net. (Ret (), repair_at fuel (es ! i) net)))) ?Q"
    by (rule yields_bind)
  have read: "yields ?R ?G ?P (at_node (es ! i) (\<lambda>n. (h n, n))) (\<lambda>b. ?P)" for h :: "metadata_node \<Rightarrow> bool"
    using chain_okD(1) [OF _ i] by (intro yields_read_node [OF sP sP act_guar_refl]) blast
  have pass: "yields ?R ?G ?P (health_pass fuel (es ! i)) ?Q"
    unfolding health_pass_def by (rule yields_bind [OF read]) (use ping fin in simp)
  show ?thesis
  proof (induction q)
    case (Suc q)
    have "yields ?R ?G ?P (bind_task (health_pass fuel (es ! i)) (\<lambda>_. health_task fuel q (es ! i))) ?Q" by (rule yields_bind [OF pass Suc])
    then show ?case unfolding health_task.simps by (intro yields_bind [OF read]) (use fin in simp)
  qed (use fin in simp)
qed

section \<open>All threads together\<close>

fun thread_of :: "nat \<Rightarrow> endpoint list \<Rightarrow> activity \<Rightarrow> string net_task" where
  "thread_of fuel es (Write m) = put_task fuel (hd es) (put_message m)"
| "thread_of fuel es (Check e p) = bind_task (health_task fuel p e) (\<lambda>_. Finish (Ret []))"
| "thread_of fuel es (Crash e) = bind_task (die_task e) (\<lambda>_. Finish (Ret []))"

fun proper :: "endpoint list \<Rightarrow> activity \<Rightarrow> bool" where
  "proper es (Write m) = wf_metadata m"
| "proper es (Check e p) = (e \<in> set es)"
| "proper es (Crash e) = (e \<in> set es)"

text \<open>The activities have different file names to write and different nodes to check.\<close>

definition at_odds :: "activity \<Rightarrow> activity \<Rightarrow> bool" where
  "at_odds a b \<longleftrightarrow> (\<exists>f. may_write a f \<and> may_write b f) \<or> (\<exists>e. may_relink a e \<and> may_relink b e)"

definition outcome_of :: "endpoint list \<Rightarrow> activity \<Rightarrow> string \<Rightarrow> network \<Rightarrow> bool" where
  "outcome_of es a x s \<longleftrightarrow> chain_ok es s \<and>
     (\<forall>m. a = Write m \<longrightarrow> x \<in> {[], ''ACK'', ''ERROR_FORWARD''} \<and> (x = ''ACK'' \<longrightarrow> safe_from es s m 0))"

lemma crash_yields:
  assumes "i < length es" and "act_rely es acts k = R"
  shows "yields R (act_guar es (Crash (es ! i))) (chain_ok es) (die_task (es ! i)) (\<lambda>_. chain_ok es)"
proof -
  have st: "stable R (chain_ok es)" using assms(2) by (auto simp: stable_def act_guar_def)
  show ?thesis unfolding die_task_def
  proof (rule yields_at_node [OF st st])
    fix s assume c: "chain_ok es s"
    have "act_guar es (Crash (es ! i)) s (set_host (es ! i) (MetadataServer ((node es s i)\<lparr>meta_running := False\<rparr>)) s)"
      by (rule guar_crash [OF assms(1)])
    then show "\<exists>n. metadata_at (es ! i) s = Some n \<and>
        act_guar es (Crash (es ! i)) s (set_host (es ! i) (MetadataServer (snd ((), n\<lparr>meta_running := False\<rparr>))) s) \<and>
        chain_ok es (set_host (es ! i) (MetadataServer (snd ((), n\<lparr>meta_running := False\<rparr>))) s)"
      using c chain_okD(1) [OF c assms(1)] by (auto simp: act_guar_def)
  qed
qed

lemma thread_yields:
  assumes sep: "separate_acts acts" and ok: "proper es (acts k)" and "es \<noteq> []" and "length es \<le> Suc fuel"
  shows "yields (act_rely es acts k) (act_guar es (acts k)) (chain_ok es) (thread_of fuel es (acts k)) (outcome_of es (acts k))"
proof -
  have st: "stable (act_rely es acts k) (chain_ok es)" by (auto simp: stable_def act_guar_def)
  have fin: "yields (act_rely es acts k) (act_guar es a) (chain_ok es) (Finish (Ret [])) (outcome_of es a)" if "\<And>m. a \<noteq> Write m" for a
    using that st by (intro yields_finish) (auto simp: outcome_of_def stable_def)
  show ?thesis
  proof (cases "acts k")
    case (Write m)
    have hd: "hd es = es ! 0" "0 < length es" using assms(3) by (simp_all add: hd_conv_nth)
    have cmd: "parse_put (put_message m) = Some m" using ok Write parse_put_message by simp
    have "yields (act_rely es acts k) (act_guar es (Write m)) (\<lambda>s. chain_ok es s \<and> True) (put_task fuel (es ! 0) (put_message m))
        (\<lambda>x s. chain_ok es s \<and> x \<in> {[], ''ACK'', ''ERROR_FORWARD''} \<and> (x = ''ACK'' \<longrightarrow> safe_from es s m 0))"
      unfolding put_task_def using assms(4)
      by (intro write_reply_yields [OF sep Write cmd hd(2)] forward_yields [OF sep Write cmd]) simp_all
    moreover have "outcome_of es (Write m) =
        (\<lambda>x s. chain_ok es s \<and> x \<in> {[], ''ACK'', ''ERROR_FORWARD''} \<and> (x = ''ACK'' \<longrightarrow> safe_from es s m 0))"
      by (simp add: outcome_of_def fun_eq_iff)
    ultimately show ?thesis using Write hd(1) by simp
  next
    case (Check e p)
    then obtain i where i: "i < length es" "e = es ! i" using ok by (auto simp: in_set_conv_nth)
    then have "yields (act_rely es acts k) (act_guar es (acts k)) (chain_ok es) (health_task fuel p e) (\<lambda>_. chain_ok es)"
      using health_yields [OF sep Check [unfolded i(2)] i(1), of fuel p] Check by simp
    then show ?thesis using Check fin by (auto intro: yields_bind)
  next
    case (Crash e)
    then obtain i where i: "i < length es" "e = es ! i" using ok by (auto simp: in_set_conv_nth)
    then have "yields (act_rely es acts k) (act_guar es (acts k)) (chain_ok es) (die_task e) (\<lambda>_. chain_ok es)"
      using crash_yields [OF i(1) refl] Crash by simp
    then show ?thesis using Crash fin by (auto intro: yields_bind)
  qed
qed

definition survives :: "endpoint list \<Rightarrow> file_metadata \<Rightarrow> network \<Rightarrow> bool" where
  "survives es m net \<longleftrightarrow>
     (\<forall>e \<in> set es. up_at net e \<longrightarrow> (\<exists>n. metadata_at e net = Some n \<and> metadataStore n (meta_filename m) = Some m))"

lemma safe_survives:
  assumes s: "safe_from es net m 0" and c: "chain_ok es net"
  shows "gap es net \<or> survives es m net"
proof (cases "gap es net")
  case False
  have "\<exists>n. metadata_at e net = Some n \<and> metadataStore n (meta_filename m) = Some m" if e: "e \<in> set es" and up: "up_at net e" for e
  proof -
    obtain j where j: "j < length es" "e = es ! j" using e by (auto simp: in_set_conv_nth)
    then have "stored_at es net m j" using s False up by (auto simp: safe_from_def down_def)
    then show ?thesis using chain_okD(1) [OF c j(1)] j(2) by (auto simp: stored_at_def)
  qed
  then show ?thesis by (simp add: survives_def)
qed simp

lemma outcome_survives:
  "outcome_of es (Write m) x net \<Longrightarrow> x \<in> {[], ''ACK'', ''ERROR_FORWARD''} \<and> (x = ''ACK'' \<longrightarrow> gap es net \<or> survives es m net)"
  using safe_survives [of es net m] by (auto simp: outcome_of_def)

section \<open>Properties\<close>

text \<open>
  C6: Acknowledged writes survive failures and repairs. Take a chain whose nodes know their
  successor and, as skip node, the node after it, and let any number of \<open>PUT\<close>s of
  different files, the health threads of the nodes and the deaths of any nodes interleave in
  any way. Every \<open>PUT\<close> returns, and one that was answered \<open>ACK\<close> is at the end stored on
  every node that is still up, unless two neighbours strictly inside the chain have both
  died; a chain of three nodes has no such pair, so there every acknowledged write is on
  every surviving node whatever dies.
\<close>
theorem acknowledged_writes_survive:
  assumes "chain_ok es net" and "es \<noteq> []" and "length es \<le> Suc fuel" and "\<forall>a \<in> set acts. proper es a"
    and "\<forall>i < length acts. \<forall>j < length acts. i \<noteq> j \<longrightarrow> \<not> at_odds (acts ! i) (acts ! j)"
    and run: "par_step\<^sup>*\<^sup>* (map (thread_of fuel es) acts, net) (map Finish rs, net')"
  shows "length rs = length acts \<and> (\<forall>i < length acts. \<exists>x. rs ! i = Ret x \<and>
      (\<forall>m. acts ! i = Write m \<longrightarrow> x \<in> {[], ''ACK'', ''ERROR_FORWARD''} \<and>
        (x = ''ACK'' \<longrightarrow> gap es net' \<or> survives es m net')))"
proof -
  define as where "as i = (if i < length acts then acts ! i else Crash (hd es))" for i
  have p: "proper es (as i)" for i using assms(2,4) by (simp add: as_def)
  have sep: "separate_acts as"
    using assms(5) unfolding separate_acts_def at_odds_def as_def by (auto split: if_splits)
  have y: "\<forall>i < length (map (thread_of fuel es) acts). yields (act_rely es as i) (act_guar es (as i)) (chain_ok es)
      (map (thread_of fuel es) acts ! i) (outcome_of es (as i)) \<and> chain_ok es net"
  proof (intro allI impI)
    fix i assume "i < length (map (thread_of fuel es) acts)"
    then have "map (thread_of fuel es) acts ! i = thread_of fuel es (as i)" by (simp add: as_def)
    then show "yields (act_rely es as i) (act_guar es (as i)) (chain_ok es) (map (thread_of fuel es) acts ! i) (outcome_of es (as i)) \<and>
        chain_ok es net"
      using thread_yields [of as es i fuel, OF sep _ assms(2,3)] p assms(1) by simp
  qed
  from faults.run_yields [OF run y] have r: "length rs = length acts" "\<forall>i < length acts. \<exists>x. rs ! i = Ret x \<and> outcome_of es (acts ! i) x net'"
    by (simp_all add: as_def)
  have "\<exists>x. rs ! i = Ret x \<and> (\<forall>m. acts ! i = Write m \<longrightarrow> x \<in> {[], ''ACK'', ''ERROR_FORWARD''} \<and>
        (x = ''ACK'' \<longrightarrow> gap es net' \<or> survives es m net'))" if i: "i < length acts" for i
  proof -
    obtain x where x: "rs ! i = Ret x" "outcome_of es (acts ! i) x net'" using r(2) i by blast
    show ?thesis by (rule exI [of _ x], rule conjI, rule x(1), intro allI impI outcome_survives) (use x(2) in simp)
  qed
  then show ?thesis using r(1) by blast
qed

definition guarded_cluster :: network where
  "guarded_cluster = startCluster\<lparr>hosts := (hosts startCluster)
     (local_ep 9001 \<mapsto> MetadataServer (set_skip ''127.0.0.1'' 9003 (new_metadata_node ''127.0.0.1'' 9002 9001)))\<rparr>"

lemma guarded_chain_ok: "chain_ok local_chain guarded_cluster"
proof -
  have n: "node local_chain guarded_cluster 0 = set_skip ''127.0.0.1'' 9003 (new_metadata_node ''127.0.0.1'' 9002 9001)"
    "node local_chain guarded_cluster 1 = new_metadata_node ''127.0.0.1'' 9003 9002"
    "node local_chain guarded_cluster 2 = new_metadata_node [] (-1) 9003"
    by (simp_all add: node_def guarded_cluster_def local_chain_def metadata_at_def startCluster_def)
  have ep: "endpoint_of guarded_cluster ip port = map_option (\<lambda>a. (a, word_of_int port)) (local_resolve ip)" for ip port
    by (simp add: endpoint_of_def guarded_cluster_def startCluster_def)
  have all: "(\<forall>i < length local_chain. P i) \<longleftrightarrow> P 0 \<and> P 1 \<and> P 2" for P
    by (auto simp: local_chain_def less_Suc_eq numeral_2_eq_2)
  show ?thesis unfolding chain_ok_def all
    by (simp add: n [unfolded One_nat_def] link_ok_def at_end_def at_next_def at_skip_def ends_here_def next_ep_def skip_ep_def ep
        new_metadata_node_def set_skip_def local_resolve_def all_down_after_def)
      (auto simp: local_chain_def guarded_cluster_def metadata_at_def startCluster_def local_resolve_def new_metadata_node_def set_skip_def)
qed

theorem acknowledged_writes_survive_witness:
  "\<exists>rs net'. par_step\<^sup>*\<^sup>* (map (thread_of 2 local_chain) [Write wit_meta, Check (local_ep 9001) 1, Crash (local_ep 9002)], guarded_cluster)
      (map Finish rs, net') \<and>
    (rs ! 0 = Ret ''ACK'' \<longrightarrow> survives local_chain wit_meta net')"
proof -
  let ?acts = "[Write wit_meta, Check (local_ep 9001) 1, Crash (local_ep 9002)]"
  obtain rs net' where run: "par_step\<^sup>*\<^sup>* (map (thread_of 2 local_chain) ?acts, guarded_cluster) (map Finish rs, net')"
    using par_finishes [of "(map (thread_of 2 local_chain) ?acts, guarded_cluster)"] by (elim exE)
  have 1: "local_chain \<noteq> []" "length local_chain \<le> Suc 2" "\<forall>a \<in> set ?acts. proper local_chain a"
    using wit_meta_wf by (simp_all add: local_chain_def)
  have 2: "\<forall>i < length ?acts. \<forall>j < length ?acts. i \<noteq> j \<longrightarrow> \<not> at_odds (?acts ! i) (?acts ! j)"
    by (auto simp: at_odds_def less_Suc_eq)
  have g: "\<not> gap local_chain net'" by (auto simp: gap_def local_chain_def)
  have "rs ! 0 = Ret ''ACK'' \<longrightarrow> survives local_chain wit_meta net'"
    using acknowledged_writes_survive [OF guarded_chain_ok 1 2 run, THEN conjunct2, THEN spec, of 0] g by auto
  then show ?thesis using run by blast
qed

end
