(* ===== verification/Metadata_Lifecycle.thy ===== *)
theory Metadata_Lifecycle
  imports Server_Lifecycle
begin

text \<open>
  All threads of a metadata node (\<^verbatim>\<open>src/src/metadata/metadata_node.cpp\<close>): \<open>start\<close> opens the
  server socket and returns at once when that fails; otherwise it detaches the thread of
  \<open>healthCheckLoop\<close>, which nobody counts or joins, and goes on as modelled in
  \<open>Server_Lifecycle\<close>. When \<open>start\<close> has returned its caller destroys the node.

  A pass of the health loop is cut where it touches the node: the test of \<open>running_\<close>, the
  end of the sleep, the test of \<open>nextNodePort_\<close>, the ping and the repair. Which way the two
  tests and the ping go is part of the action; \<open>Metadata_Node.health_check\<close> says what they
  do to the data of the node.
\<close>

section \<open>The state machine\<close>

datatype startup_pc = U_Server | U_Spawn | U_Serving | U_Failed

datatype health_pc = K_None | K_Test | K_Sleep | K_Port | K_Ping | K_Repair | K_Gone

record node_threads =
  serving :: lifecycle
  startup :: startup_pc
  health :: health_pc
  alive :: bool

definition nt_start :: node_threads where
  "nt_start = \<lparr>serving = lc_start\<lparr>lc_running := False\<rparr>, startup = U_Server, health = K_None, alive = True\<rparr>"

datatype node_action = Server_Start bool | Spawn_Health | Serve action
  | Health_Test | Health_Wake | Health_Port bool | Health_Ping bool | Health_Repair | Destroy

definition start_returned :: "node_threads \<Rightarrow> bool" where
  "start_returned s \<longleftrightarrow> startup s = U_Failed \<or> startup s = U_Serving \<and> main (serving s) = M_Done"

fun node_act :: "node_action \<Rightarrow> node_threads \<Rightarrow> node_threads option" where
  "node_act (Server_Start b) s =
     (if startup s \<noteq> U_Server then None
      else if b then Some (s\<lparr>serving := (serving s)\<lparr>lc_running := True\<rparr>, startup := U_Spawn\<rparr>)
      else Some (s\<lparr>startup := U_Failed\<rparr>))"
| "node_act Spawn_Health s = (if startup s = U_Spawn then Some (s\<lparr>health := K_Test, startup := U_Serving\<rparr>) else None)"
| "node_act (Serve a) s =
     (if startup s \<noteq> U_Serving then None
      else case act a (serving s) of None \<Rightarrow> None | Some l \<Rightarrow> Some (s\<lparr>serving := l\<rparr>))"
| "node_act Health_Test s =
     (if health s = K_Test then Some (s\<lparr>health := if lc_running (serving s) then K_Sleep else K_Gone\<rparr>) else None)"
| "node_act Health_Wake s = (if health s = K_Sleep then Some (s\<lparr>health := K_Port\<rparr>) else None)"
| "node_act (Health_Port successor) s =
     (if health s = K_Port then Some (s\<lparr>health := if successor then K_Ping else K_Test\<rparr>) else None)"
| "node_act (Health_Ping pong) s =
     (if health s = K_Ping then Some (s\<lparr>health := if pong then K_Test else K_Repair\<rparr>) else None)"
| "node_act Health_Repair s = (if health s = K_Repair then Some (s\<lparr>health := K_Test\<rparr>) else None)"
| "node_act Destroy s =
     (if start_returned s \<and> alive s then Some (s\<lparr>alive := False\<rparr>) else None)"

fun node_run :: "node_action list \<Rightarrow> node_threads \<Rightarrow> node_threads option" where
  "node_run [] s = Some s"
| "node_run (a # as) s = (case node_act a s of None \<Rightarrow> None | Some t \<Rightarrow> node_run as t)"

lemma node_run_Cons: "node_run (a # as) s = Some t \<longleftrightarrow> (\<exists>u. node_act a s = Some u \<and> node_run as u = Some t)"
  by (simp split: option.splits)

fun is_health :: "node_action \<Rightarrow> bool" where
  "is_health Health_Test = True"
| "is_health Health_Wake = True"
| "is_health (Health_Port b) = True"
| "is_health (Health_Ping b) = True"
| "is_health Health_Repair = True"
| "is_health _ = False"

section \<open>Invariant\<close>

definition nt_inv :: "node_threads \<Rightarrow> bool" where
  "nt_inv s \<longleftrightarrow>
     (startup s \<in> {U_Server, U_Failed} \<longrightarrow> handlers (serving s) = [] \<and> \<not> lc_running (serving s)) \<and>
     (startup s \<noteq> U_Serving \<longrightarrow> health s = K_None \<and> activeHandlers (serving s) = 0 \<and> handlers (serving s) = [] \<and> main (serving s) = M_Loop) \<and>
     (startup s = U_Serving \<longrightarrow> lc_inv (serving s)) \<and>
     (\<not> alive s \<longrightarrow> start_returned s)"

lemma act_done: "main s = M_Done \<Longrightarrow> act a s = Some t \<Longrightarrow> main t = M_Done"
  by (cases a) (auto split: if_splits)

lemma node_act_inv:
  assumes "nt_inv s" and "node_act a s = Some t" shows "nt_inv t"
proof (cases a)
  case (Serve b)
  then obtain l where l: "startup s = U_Serving" "act b (serving s) = Some l" "t = s\<lparr>serving := l\<rparr>"
    using assms(2) by (auto split: if_splits option.splits)
  then have "lc_inv l" using act_inv [of "serving s" b l] assms(1) by (simp add: nt_inv_def)
  then show ?thesis using assms(1) l act_done [of "serving s" b l] by (auto simp: nt_inv_def start_returned_def)
next
  case Spawn_Health
  then have "startup s = U_Spawn" "t = s\<lparr>health := K_Test, startup := U_Serving\<rparr>" using assms(2) by (auto split: if_splits)
  then show ?thesis using assms(1) by (auto simp: nt_inv_def start_returned_def lc_inv_def)
qed (use assms in \<open>auto simp: nt_inv_def start_returned_def split: if_splits\<close>)

lemma node_run_inv: "node_run as s = Some t \<Longrightarrow> nt_inv s \<Longrightarrow> nt_inv t"
proof (induction as arbitrary: s)
  case (Cons a as)
  then show ?case using node_act_inv by (auto simp: node_run_Cons simp del: node_run.simps(2))
qed simp

lemma nt_inv_start: "nt_inv nt_start"
  by (simp add: nt_inv_def nt_start_def lc_start_def)

section \<open>The last pass of the health loop\<close>

fun health_left :: "health_pc \<Rightarrow> nat" where
  "health_left K_Sleep = 5"
| "health_left K_Port = 4"
| "health_left K_Ping = 3"
| "health_left K_Repair = 2"
| "health_left K_Test = 1"
| "health_left _ = 0"

lemma act_not_running: "\<not> lc_running s \<Longrightarrow> act a s = Some t \<Longrightarrow> \<not> lc_running t"
  by (cases a) (auto split: if_splits)

lemma stopped_act:
  assumes "node_act a s = Some t" and "startup s \<in> {U_Serving, U_Failed}" and "\<not> lc_running (serving s)"
  shows "startup t = startup s \<and> \<not> lc_running (serving t) \<and>
    (if is_health a then health_left (health t) < health_left (health s) else health t = health s)"
  using assms act_not_running [of "serving s"] by (cases a) (auto split: if_splits option.splits)

lemma stopped_run:
  assumes "node_run as s = Some t" and "startup s \<in> {U_Serving, U_Failed}" and "\<not> lc_running (serving s)"
  shows "length (filter is_health as) + health_left (health t) \<le> health_left (health s) \<and> startup t = startup s"
  using assms
proof (induction as arbitrary: s)
  case (Cons a as)
  then obtain u where u: "node_act a s = Some u" "node_run as u = Some t" by (auto simp: node_run_Cons simp del: node_run.simps(2))
  from stopped_act [OF this(1) Cons.prems(2,3)] Cons.IH [OF u(2)] Cons.prems(2) show ?case by (auto split: if_splits)
qed simp

lemma dead_run: "node_run as s = Some t \<Longrightarrow> \<not> alive s \<Longrightarrow> \<not> alive t"
proof (induction as arbitrary: s)
  case (Cons a as)
  then obtain u where u: "node_act a s = Some u" "node_run as u = Some t" by (auto simp: node_run_Cons simp del: node_run.simps(2))
  have "\<not> alive u" using u(1) Cons.prems(2) by (cases a) (auto split: if_splits option.splits)
  then show ?case using Cons.IH [OF u(2)] by blast
qed simp

lemma returned_quiet:
  assumes "nt_inv s" and "start_returned s"
  shows "startup s \<in> {U_Serving, U_Failed} \<and> \<not> lc_running (serving s) \<and> H_Running \<notin> set (handlers (serving s)) \<and>
    (startup s = U_Failed \<longrightarrow> handlers (serving s) = [] \<and> health s = K_None)"
  using assms by (auto simp: nt_inv_def start_returned_def lc_inv_def count_list_0_iff)

lemma health_left_5: "health_left h \<le> 5"
  by (cases h) simp_all

section \<open>Properties\<close>

text \<open>
  What is left of a metadata node once it has been destroyed. When the server socket
  cannot be opened no thread has been started and none ever runs. Otherwise no handler is
  inside \<open>handleClient\<close> any more and the accept loop has ended; only the health thread may
  still run, and in whatever continues it performs at most the five actions of one pass.
\<close>
theorem destroyed_node_winds_down:
  assumes "node_run as nt_start = Some s" and "\<not> alive s" and "node_run bs s = Some t"
  shows "H_Running \<notin> set (handlers (serving t)) \<and> \<not> lc_running (serving t) \<and> length (filter is_health bs) \<le> 5 \<and>
    (startup s = U_Failed \<longrightarrow> handlers (serving t) = [] \<and> health t = K_None)"
proof -
  have s: "nt_inv s" by (rule node_run_inv [OF assms(1) nt_inv_start])
  have t: "nt_inv t" by (rule node_run_inv [OF assms(3) s])
  have "start_returned s" "start_returned t" using s t assms(2) dead_run [OF assms(3,2)] unfolding nt_inv_def by blast+
  note q = returned_quiet [OF s this(1)] returned_quiet [OF t this(2)]
  then have "length (filter is_health bs) \<le> 5 \<and> startup t = startup s"
    using stopped_run [OF assms(3)] health_left_5 [of "health s"] by fastforce
  then show ?thesis using q by auto
qed

theorem destroyed_node_winds_down_witness:
  "\<exists>s. node_run (Server_Start True # Spawn_Health # Health_Test # map Serve (one_client @ [Leave 0, Test_Pred]) @ [Destroy]) nt_start = Some s \<and>
     (\<forall>bs t. node_run bs s = Some t \<longrightarrow> length (filter is_health bs) \<le> 5)"
proof -
  let ?as = "Server_Start True # Spawn_Health # Health_Test # map Serve (one_client @ [Leave 0, Test_Pred]) @ [Destroy]"
  have "\<exists>s. node_run ?as nt_start = Some s \<and> \<not> alive s"
    by (simp add: nt_start_def lc_start_def start_returned_def)
  then obtain s where s: "node_run ?as nt_start = Some s" "\<not> alive s" by (elim exE conjE)
  show ?thesis using s(1) destroyed_node_winds_down [OF s] by blast
qed

text \<open>
  The health thread can outlive its node. There is a run in which a client has stopped
  the node, \<open>start\<close> has returned and the node has been destroyed, while the health thread,
  asleep since before, is about to read \<open>nextNodePort_\<close> of the destroyed node and, if it
  finds a successor there, to use the addresses and the mutex of that node.
\<close>
theorem health_thread_outlives_node:
  "\<exists>as s t u v. node_run as nt_start = Some s \<and> \<not> alive s \<and> health s = K_Port \<and>
     node_act (Health_Port True) s = Some t \<and> node_act (Health_Ping False) t = Some u \<and> node_act Health_Repair u = Some v"
proof -
  let ?as = "[Server_Start True, Spawn_Health, Health_Test] @ map Serve (one_client @ [Leave 0, Test_Pred]) @ [Destroy, Health_Wake]"
  have "\<exists>s. node_run ?as nt_start = Some s \<and> \<not> alive s \<and> health s = K_Port"
    by (simp add: nt_start_def lc_start_def start_returned_def)
  then obtain s where s: "node_run ?as nt_start = Some s" "\<not> alive s" "health s = K_Port" by (elim exE conjE)
  have "\<exists>t u v. node_act (Health_Port True) s = Some t \<and> node_act (Health_Ping False) t = Some u \<and> node_act Health_Repair u = Some v"
    using s(3) by simp
  then show ?thesis using s by blast
qed

end
