(* ===== verification/Client.thy ===== *)
theory Client
  imports Cluster Consistent_Hash Chunking
begin

text \<open>
  \<^verbatim>\<open>src/src/client/client.cpp\<close> and \<^verbatim>\<open>client.hpp\<close>: uploading and downloading a file. The
  client's calls run over the \<open>network\<close> of \<open>Cluster\<close>; every function returns an
  \<open>outcome\<close>, which is \<open>Throw\<close> where \<open>std::stoi\<close> throws on the port of an address and
  \<open>Hang\<close> where a receive never returns. \<open>fuel\<close> bounds the depth of the forwarding that a
  \<open>PUT\<close> sets off in the metadata chain.

  The two void functions report on the console only; the model returns which report it is.
  Durations and progress messages are not modelled. Sending on a connection that \<open>connect\<close>
  has returned succeeds; a peer that stops shows in the next receive.
\<close>

section \<open>The class\<close>

record client =
  dht_of :: consistent_hash
  metadataNodes :: "string list"

definition new_client :: "string list \<Rightarrow> string list \<Rightarrow> client" where
  "new_client storageNodes metaNodes =
     \<lparr>dht_of = foldl (\<lambda>r node. addNode node r) empty_ring storageNodes, metadataNodes = metaNodes\<rparr>"

definition getFileSize :: "file_system \<Rightarrow> string \<Rightarrow> int" where
  "getFileSize fs path = (case files fs path of None \<Rightarrow> 0 | Some d \<Rightarrow> int (length d))"

text \<open>
  \<open>colon = nodeAddr.find(':')\<close>, the address and the port. The outer option is the test for
  \<open>npos\<close>, the sum the exception of \<open>stoi\<close>.
\<close>

definition parse_address :: "string \<Rightarrow> (exn + string \<times> int) option" where
  "parse_address nodeAddr =
     (case split_first CHR '':'' nodeAddr of
        None \<Rightarrow> None
      | Some (ip, port) \<Rightarrow>
          (case stoi port of Inl e \<Rightarrow> Some (Inl e) | Inr p \<Rightarrow> Some (Inr (ip, p))))"

text \<open>The head of every remote call: parse the address, connect, or leave with a default.\<close>

definition with_connection :: "string \<Rightarrow> 'a \<Rightarrow> (connection \<Rightarrow> network \<Rightarrow> 'a outcome \<times> network) \<Rightarrow> network
    \<Rightarrow> 'a outcome \<times> network" where
  "with_connection nodeAddr dflt body net =
     (case parse_address nodeAddr of
        None \<Rightarrow> (Ret dflt, net)
      | Some (Inl e) \<Rightarrow> (Throw e, net)
      | Some (Inr (ip, port)) \<Rightarrow>
          (case connect net ip port of None \<Rightarrow> (Ret dflt, net) | Some client \<Rightarrow> body client net))"

section \<open>Chunks\<close>

definition uploadChunkToNode :: "nat \<Rightarrow> chunk \<Rightarrow> string \<Rightarrow> network \<Rightarrow> bool outcome \<times> network" where
  "uploadChunkToNode fuel c nodeAddr =
     with_connection nodeAddr False (\<lambda>client net.
       let (client, net) = sendMessage (serve fuel) (''STORE '' @ chunk_hash c) client net in
       (case recvMessage client of
          (Ret response, client) \<Rightarrow>
            if response \<noteq> ''READY'' then (Ret False, net)
            else
              let (client, net) = sendData (serve fuel) (chunk_data c) client net in
              (case recvMessage client of
                 (Ret response, _) \<Rightarrow> (Ret (response = ''ACK''), net)
               | (Throw e, _) \<Rightarrow> (Throw e, net)
               | (Hang, _) \<Rightarrow> (Hang, net))
        | (Throw e, _) \<Rightarrow> (Throw e, net)
        | (Hang, _) \<Rightarrow> (Hang, net)))"

definition downloadChunkFromNode :: "nat \<Rightarrow> string \<Rightarrow> string \<Rightarrow> network \<Rightarrow> bytes outcome \<times> network" where
  "downloadChunkFromNode fuel h nodeAddr =
     with_connection nodeAddr [] (\<lambda>client net.
       let (client, net) = sendMessage (serve fuel) (''GET '' @ h) client net in
       (case recvMessage client of
          (Ret response, client) \<Rightarrow> if response = ''FOUND'' then (fst (recvData client), net) else (Ret [], net)
        | (Throw e, _) \<Rightarrow> (Throw e, net)
        | (Hang, _) \<Rightarrow> (Hang, net)))"

section \<open>Metadata\<close>

definition make_metadata :: "file_system \<Rightarrow> string \<Rightarrow> chunk list \<Rightarrow> string \<Rightarrow> file_metadata" where
  "make_metadata fs filepath chunks root =
     \<lparr>meta_filename = after_last_of [CHR ''/'', CHR 0x5C] filepath, meta_rootHash = root,
      meta_fileSize = getFileSize fs filepath, meta_chunkSize = int CHUNK_SIZE,
      meta_totalChunks = to_i32 (length chunks), meta_chunkHashes = map chunk_hash chunks\<rparr>"

definition putMetadataToNode :: "nat \<Rightarrow> file_system \<Rightarrow> string \<Rightarrow> string \<Rightarrow> chunk list \<Rightarrow> string \<Rightarrow> network
    \<Rightarrow> bool outcome \<times> network" where
  "putMetadataToNode fuel fs nodeAddr filepath chunks root =
     with_connection nodeAddr False (\<lambda>client net.
       let cmd = put_message (make_metadata fs filepath chunks root);
           (client, net) = sendMessage (serve fuel) cmd client net in
       (case recvMessage client of
          (Ret response, _) \<Rightarrow> (Ret (response = ''ACK''), net)
        | (Throw e, _) \<Rightarrow> (Throw e, net)
        | (Hang, _) \<Rightarrow> (Hang, net)))"

text \<open>
  The reply to a \<open>GET\<close>. A reply without the hash list leaves the numbers it could read
  and neither name nor hashes.
\<close>

definition parse_found :: "string \<Rightarrow> string \<Rightarrow> file_metadata" where
  "parse_found filename response =
     (if 6 < length response \<and> take 6 response = ''FOUND '' then
        let (sz, iss) = read_i64 0 (open_stream (drop 6 response));
            (cs, iss) = read_i32 0 iss;
            (tc, iss) = read_i32 0 iss;
            (root, iss) = read_word [] iss;
            (hashesStr, iss) = read_word [] iss;
            meta = no_metadata\<lparr>meta_fileSize := sz, meta_chunkSize := cs, meta_totalChunks := tc, meta_rootHash := root\<rparr>
        in if failed iss then meta
           else meta\<lparr>meta_filename := filename, meta_chunkHashes := parse_hashes hashesStr\<rparr>
      else no_metadata)"

definition getMetadataFromNode :: "nat \<Rightarrow> string \<Rightarrow> string \<Rightarrow> network \<Rightarrow> file_metadata outcome \<times> network" where
  "getMetadataFromNode fuel nodeAddr filename =
     with_connection nodeAddr no_metadata (\<lambda>client net.
       let (client, net) = sendMessage (serve fuel) (''GET '' @ filename) client net in
       (case recvMessage client of
          (Ret response, _) \<Rightarrow> (Ret (parse_found filename response), net)
        | (Throw e, _) \<Rightarrow> (Throw e, net)
        | (Hang, _) \<Rightarrow> (Hang, net)))"

section \<open>Upload\<close>

datatype upload_report = EmptyOrMissing | ChunkNotStored int | MetadataNotStored | Uploaded string

text \<open>The loop over the nodes of one chunk; the value is \<open>successCount\<close>.\<close>

fun upload_to_nodes :: "nat \<Rightarrow> chunk \<Rightarrow> string list \<Rightarrow> nat \<Rightarrow> network \<Rightarrow> nat outcome \<times> network" where
  "upload_to_nodes fuel c [] successCount net = (Ret successCount, net)"
| "upload_to_nodes fuel c (nodeAddr # nodes) successCount net =
     (case uploadChunkToNode fuel c nodeAddr net of
        (Ret b, net) \<Rightarrow> upload_to_nodes fuel c nodes (if b then Suc successCount else successCount) net
      | (Throw e, net) \<Rightarrow> (Throw e, net)
      | (Hang, net) \<Rightarrow> (Hang, net))"

text \<open>The loop over the chunks; \<open>Some i\<close> is the early return for chunk \<open>i\<close>.\<close>

fun upload_chunks :: "nat \<Rightarrow> consistent_hash \<Rightarrow> chunk list \<Rightarrow> network \<Rightarrow> int option outcome \<times> network" where
  "upload_chunks fuel r [] net = (Ret None, net)"
| "upload_chunks fuel r (c # cs) net =
     (case getNodesForKey r (chunk_hash c) 2 of
        Inl e \<Rightarrow> (Throw e, net)
      | Inr nodes \<Rightarrow>
          (case upload_to_nodes fuel c nodes 0 net of
             (Ret successCount, net) \<Rightarrow>
               if successCount = 0 then (Ret (Some (chunk_index c)), net) else upload_chunks fuel r cs net
           | (Throw e, net) \<Rightarrow> (Throw e, net)
           | (Hang, net) \<Rightarrow> (Hang, net)))"

fun put_metadata :: "nat \<Rightarrow> file_system \<Rightarrow> string \<Rightarrow> chunk list \<Rightarrow> string \<Rightarrow> string list \<Rightarrow> network
    \<Rightarrow> string option outcome \<times> network" where
  "put_metadata fuel fs filepath chunks root [] net = (Ret None, net)"
| "put_metadata fuel fs filepath chunks root (nodeAddr # nodes) net =
     (case putMetadataToNode fuel fs nodeAddr filepath chunks root net of
        (Ret b, net) \<Rightarrow>
          if b then (Ret (Some nodeAddr), net) else put_metadata fuel fs filepath chunks root nodes net
      | (Throw e, net) \<Rightarrow> (Throw e, net)
      | (Hang, net) \<Rightarrow> (Hang, net))"

definition uploadFile :: "nat \<Rightarrow> client \<Rightarrow> file_system \<Rightarrow> string \<Rightarrow> network \<Rightarrow> upload_report outcome \<times> network" where
  "uploadFile fuel cl fs filepath net =
     (let chunks = splitFileIntoChunks fs filepath in
      if chunks = [] then (Ret EmptyOrMissing, net)
      else
        let chunks = hashAllChunks chunks; root = computeRootHash (map chunk_hash chunks) in
        (case upload_chunks fuel (dht_of cl) chunks net of
           (Ret (Some i), net) \<Rightarrow> (Ret (ChunkNotStored i), net)
         | (Ret None, net) \<Rightarrow>
             (case put_metadata fuel fs filepath chunks root (metadataNodes cl) net of
                (Ret (Some nodeAddr), net) \<Rightarrow> (Ret (Uploaded nodeAddr), net)
              | (Ret None, net) \<Rightarrow> (Ret MetadataNotStored, net)
              | (Throw e, net) \<Rightarrow> (Throw e, net)
              | (Hang, net) \<Rightarrow> (Hang, net))
         | (Throw e, net) \<Rightarrow> (Throw e, net)
         | (Hang, net) \<Rightarrow> (Hang, net)))"

section \<open>Download\<close>

datatype download_report = NotFound | ChunkMissing nat | Reconstructed | ReconstructionFailed

text \<open>The loop over the metadata nodes, called with the last node first.\<close>

fun find_metadata :: "nat \<Rightarrow> string \<Rightarrow> string list \<Rightarrow> network \<Rightarrow> file_metadata option outcome \<times> network" where
  "find_metadata fuel filename [] net = (Ret None, net)"
| "find_metadata fuel filename (nodeAddr # nodes) net =
     (case getMetadataFromNode fuel nodeAddr filename net of
        (Ret meta, net) \<Rightarrow>
          if meta_filename meta \<noteq> [] \<or> meta_chunkHashes meta \<noteq> [] then (Ret (Some meta), net)
          else find_metadata fuel filename nodes net
      | (Throw e, net) \<Rightarrow> (Throw e, net)
      | (Hang, net) \<Rightarrow> (Hang, net))"

fun fetch_chunk :: "nat \<Rightarrow> string \<Rightarrow> string list \<Rightarrow> network \<Rightarrow> bytes outcome \<times> network" where
  "fetch_chunk fuel h [] net = (Ret [], net)"
| "fetch_chunk fuel h (node # nodes) net =
     (case downloadChunkFromNode fuel h node net of
        (Ret d, net) \<Rightarrow> if d \<noteq> [] then (Ret d, net) else fetch_chunk fuel h nodes net
      | (Throw e, net) \<Rightarrow> (Throw e, net)
      | (Hang, net) \<Rightarrow> (Hang, net))"

text \<open>The loop over the hashes; \<open>Inl i\<close> is the early return for chunk \<open>i\<close>.\<close>

fun fetch_chunks :: "nat \<Rightarrow> consistent_hash \<Rightarrow> nat \<Rightarrow> string list \<Rightarrow> network \<Rightarrow> (nat + chunk list) outcome \<times> network" where
  "fetch_chunks fuel r i [] net = (Ret (Inr []), net)"
| "fetch_chunks fuel r i (h # hs) net =
     (case getNodesForKey r h 2 of
        Inl e \<Rightarrow> (Throw e, net)
      | Inr nodes \<Rightarrow>
          (case fetch_chunk fuel h nodes net of
             (Ret d, net) \<Rightarrow>
               if d = [] then (Ret (Inl i), net)
               else
                 (case fetch_chunks fuel r (Suc i) hs net of
                    (Ret (Inr cs), net) \<Rightarrow>
                      (Ret (Inr (\<lparr>chunk_index = to_i32 i, chunk_hash = h, chunk_data = d, chunk_size = to_i32 (length d)\<rparr> # cs)), net)
                  | (Ret (Inl j), net) \<Rightarrow> (Ret (Inl j), net)
                  | (Throw e, net) \<Rightarrow> (Throw e, net)
                  | (Hang, net) \<Rightarrow> (Hang, net))
           | (Throw e, net) \<Rightarrow> (Throw e, net)
           | (Hang, net) \<Rightarrow> (Hang, net)))"

definition downloadFile :: "nat \<Rightarrow> client \<Rightarrow> string \<Rightarrow> string \<Rightarrow> file_system \<Rightarrow> network
    \<Rightarrow> download_report outcome \<times> file_system \<times> network" where
  "downloadFile fuel cl filename outputPath fs net =
     (case find_metadata fuel filename (rev (metadataNodes cl)) net of
        (Ret None, net) \<Rightarrow> (Ret NotFound, fs, net)
      | (Ret (Some meta), net) \<Rightarrow>
          (case fetch_chunks fuel (dht_of cl) 0 (meta_chunkHashes meta) net of
             (Ret (Inl i), net) \<Rightarrow> (Ret (ChunkMissing i), fs, net)
           | (Ret (Inr chunks), net) \<Rightarrow>
               (let (done, fs) = reconstructFile chunks outputPath fs
                in (Ret (if done then Reconstructed else ReconstructionFailed), fs, net))
           | (Throw e, net) \<Rightarrow> (Throw e, fs, net)
           | (Hang, net) \<Rightarrow> (Hang, fs, net))
      | (Throw e, net) \<Rightarrow> (Throw e, fs, net)
      | (Hang, net) \<Rightarrow> (Hang, fs, net))"

end
