(* ===== verification/Node_Config.thy ===== *)
theory Node_Config
  imports Chunking
begin

text \<open>
  \<^verbatim>\<open>src/src/common/node_info.hpp\<close>, \<^verbatim>\<open>node_config.hpp\<close> and \<^verbatim>\<open>node_config.cpp\<close>: the
  configuration file that names the nodes of a deployment. A file is read through the file
  system of \<open>Chunking\<close>; a missing file leaves the list empty, a line that does not hold
  an identifier, a host and a port is skipped.
\<close>

section \<open>Data\<close>

record node_info =
  node_id :: int
  node_host :: string
  node_port :: int

definition no_node :: node_info where
  "no_node = \<lparr>node_id = 0, node_host = [], node_port = 0\<rparr>"

definition getAddress :: "node_info \<Rightarrow> string" where
  "getAddress n = node_host n @ '':'' @ to_string (node_port n)"

record node_config =
  config_nodes :: "node_info list"
  myNodeId :: int

section \<open>Operations\<close>

abbreviation newline :: char where
  "newline \<equiv> CHR 0x0A"

definition is_blank :: "char \<Rightarrow> bool" where
  "is_blank c \<longleftrightarrow> c = CHR '' '' \<or> c = CHR 0x09"

text \<open>One pass of the loop: \<open>None\<close> where the source goes on without adding a node.\<close>

definition parse_line :: "string \<Rightarrow> node_info option" where
  "parse_line line =
     (let from_start = dropWhile is_blank line in
      if from_start = [] then None
      else if hd from_start = CHR ''#'' then None
      else
        let line = rev (dropWhile is_blank (rev from_start)) in
        if line = [] then None
        else
          let (i, iss) = read_i32 0 (open_stream line);
              (host, iss) = read_word [] iss;
              (port, iss) = read_i32 0 iss
          in if failed iss then None else Some \<lparr>node_id = i, node_host = host, node_port = port\<rparr>)"

fun load_lines :: "string list \<Rightarrow> node_info list \<Rightarrow> node_info list" where
  "load_lines [] nodes = nodes"
| "load_lines (line # lines) nodes =
     (case parse_line line of None \<Rightarrow> load_lines lines nodes | Some n \<Rightarrow> load_lines lines (nodes @ [n]))"

definition loadConfig :: "file_system \<Rightarrow> string \<Rightarrow> node_config \<Rightarrow> node_config" where
  "loadConfig fs configFilePath cfg =
     (case files fs configFilePath of
        None \<Rightarrow> cfg
      | Some d \<Rightarrow> cfg\<lparr>config_nodes := load_lines (get_lines newline (string_of_bytes d)) (config_nodes cfg)\<rparr>)"

definition new_node_config :: "file_system \<Rightarrow> string \<Rightarrow> int \<Rightarrow> node_config" where
  "new_node_config fs configFilePath i = loadConfig fs configFilePath \<lparr>config_nodes = [], myNodeId = i\<rparr>"

fun first_with :: "int \<Rightarrow> node_info list \<Rightarrow> node_info" where
  "first_with i [] = no_node"
| "first_with i (n # ns) = (if node_id n = i then n else first_with i ns)"

definition getNodeById :: "node_config \<Rightarrow> int \<Rightarrow> node_info" where
  "getNodeById cfg i = first_with i (config_nodes cfg)"

definition getMyNode :: "node_config \<Rightarrow> node_info" where
  "getMyNode cfg = first_with (myNodeId cfg) (config_nodes cfg)"

definition getAllNodes_config :: "node_config \<Rightarrow> node_info list" where
  "getAllNodes_config cfg = config_nodes cfg"

definition getPeerNodes :: "node_config \<Rightarrow> node_info list" where
  "getPeerNodes cfg = filter (\<lambda>n. node_id n \<noteq> myNodeId cfg) (config_nodes cfg)"

section \<open>Reading a configuration\<close>

lemma load_lines_append: "load_lines ls ns = ns @ load_lines ls []"
proof (induction ls arbitrary: ns)
  case (Cons l ls)
  show ?case
  proof (cases "parse_line l")
    case None
    then show ?thesis using Cons.IH [of ns] by simp
  next
    case (Some n)
    then show ?thesis using Cons.IH [of "ns @ [n]"] Cons.IH [of "[n]"] by simp
  qed
qed simp

lemma load_lines_Cons: "load_lines (l # ls) [] = (case parse_line l of None \<Rightarrow> [] | Some n \<Rightarrow> [n]) @ load_lines ls []"
proof (cases "parse_line l")
  case (Some n)
  then show ?thesis using load_lines_append [of ls "[n]"] by simp
qed simp

lemma get_lines_terminated:
  "\<forall>l \<in> set ls. newline \<notin> set l \<Longrightarrow> get_lines newline (concat (map (\<lambda>l. l @ [newline]) ls)) = ls"
  by (induction ls) (simp_all add: get_lines_step)

definition wf_node :: "node_info \<Rightarrow> bool" where
  "wf_node n \<longleftrightarrow> INT_MIN \<le> node_id n \<and> node_id n \<le> INT_MAX \<and> is_word (node_host n) \<and>
     INT_MIN \<le> node_port n \<and> node_port n \<le> INT_MAX"

definition node_line :: "node_info \<Rightarrow> string" where
  "node_line n = to_string (node_id n) @ '' '' @ node_host n @ '' '' @ to_string (node_port n)"

lemma blank_space: "is_blank c \<Longrightarrow> is_space c"
  by (auto simp: is_blank_def is_space_def)

lemma is_word_no_blank_hd: "is_word w \<Longrightarrow> \<not> is_blank (hd (w @ t))"
  using is_word_hd [of w] blank_space by (cases w) (auto simp: is_word_def)

lemma is_word_no_blank_last: "is_word w \<Longrightarrow> \<not> is_blank (hd (rev w @ t))"
  using blank_space by (cases w rule: rev_cases) (auto simp: is_word_def)

lemma to_string_hd: "hd (to_string i @ t) \<noteq> CHR ''#''"
proof -
  have "is_digit (hd (to_string i)) \<or> hd (to_string i) = CHR ''-''"
    using show_nat_hd by (auto simp: to_string_def)
  moreover have "to_string i \<noteq> []" using is_word_to_string [of i] by (simp add: is_word_def del: is_word_to_string)
  ultimately show ?thesis by (auto simp: is_digit_def)
qed

lemma parse_node_line:
  assumes "wf_node n"
  shows "parse_line (node_line n) = Some n"
proof -
  let ?p = "to_string (node_port n)"
  let ?a = "to_string (node_id n) @ '' '' @ node_host n @ '' ''"
  have "dropWhile is_blank (node_line n) = node_line n"
    using is_word_no_blank_hd [OF is_word_to_string] by (intro dropWhile_stop) (auto simp: node_line_def)
  moreover have "rev (node_line n) = rev ?p @ rev ?a" by (simp add: node_line_def)
  then have "dropWhile is_blank (rev (node_line n)) = rev (node_line n)"
    using is_word_no_blank_last [OF is_word_to_string, of "node_port n" "rev ?a"] by (intro dropWhile_stop) simp
  moreover have "hd (node_line n) \<noteq> CHR ''#''" using to_string_hd by (simp add: node_line_def)
  moreover have "node_line n \<noteq> []" by (simp add: node_line_def)
  ultimately have "parse_line (node_line n) =
    (let (i, iss) = read_i32 0 (open_stream (node_line n)); (host, iss) = read_word [] iss; (port, iss) = read_i32 0 iss
     in if failed iss then None else Some \<lparr>node_id = i, node_host = host, node_port = port\<rparr>)"
    by (simp add: parse_line_def)
  also have "\<dots> = Some n"
    using assms by (simp add: node_line_def open_stream_def wf_node_def text_simps)
  finally show ?thesis .
qed

text \<open>A configuration text: node lines and comment lines, each ended by a newline.\<close>

fun config_line :: "node_info + string \<Rightarrow> string" where
  "config_line (Inl n) = node_line n"
| "config_line (Inr comment) = CHR ''#'' # comment"

fun node_entries :: "(node_info + string) list \<Rightarrow> node_info list" where
  "node_entries [] = []"
| "node_entries (Inl n # es) = n # node_entries es"
| "node_entries (Inr s # es) = node_entries es"

lemma in_node_entries: "n \<in> set (node_entries es) \<longleftrightarrow> Inl n \<in> set es"
  by (induction es rule: node_entries.induct) auto

definition config_text :: "(node_info + string) list \<Rightarrow> string" where
  "config_text es = concat (map (\<lambda>e. config_line e @ [newline]) es)"

lemma word_no_newline: "is_word w \<Longrightarrow> newline \<notin> set w"
  by (auto simp: is_word_def list_all_iff is_space_def)

lemma load_config_text:
  assumes "\<forall>n. Inl n \<in> set es \<longrightarrow> wf_node n" and "\<forall>s. Inr s \<in> set es \<longrightarrow> newline \<notin> set s"
    and "files fs path = Some (bytes_of_string (config_text es))"
  shows "config_nodes (new_node_config fs path i) = node_entries es"
proof -
  have "\<forall>l \<in> set (map config_line es). newline \<notin> set l"
  proof
    fix l assume "l \<in> set (map config_line es)"
    then obtain e where e: "e \<in> set es" "l = config_line e" by auto
    show "newline \<notin> set l"
    proof (cases e)
      case (Inl n)
      then have "wf_node n" using assms(1) e by simp
      then show ?thesis using Inl e word_no_newline [OF is_word_to_string]
        by (auto simp: node_line_def wf_node_def dest: word_no_newline)
    next
      case (Inr s)
      then show ?thesis using assms(2) e by auto
    qed
  qed
  then have lines: "get_lines newline (config_text es) = map config_line es"
    using get_lines_terminated [of "map config_line es"] by (simp add: config_text_def comp_def)
  have "load_lines (map config_line es) [] = node_entries es"
    using assms(1)
  proof (induction es)
    case (Cons e es)
    then show ?case
    proof (cases e)
      case (Inl n)
      then have "parse_line (config_line e) = Some n" using Cons.prems parse_node_line by simp
      then show ?thesis using Cons Inl by (simp add: load_lines_Cons del: load_lines.simps(2))
    next
      case (Inr s)
      then have "parse_line (config_line e) = None" by (simp add: parse_line_def is_blank_def)
      then show ?thesis using Cons Inr by (simp add: load_lines_Cons del: load_lines.simps(2))
    qed
  qed simp
  then show ?thesis using assms(3) lines by (simp add: new_node_config_def loadConfig_def)
qed

lemma first_with_unique:
  "distinct (map node_id ns) \<Longrightarrow> n \<in> set ns \<Longrightarrow> first_with (node_id n) ns = n"
  by (induction ns) (auto simp: image_iff)

section \<open>Properties\<close>

text \<open>
  C35: Loading a configuration gives back what was written. From a file of node lines
  \<^verbatim>\<open>id host port\<close> and comment lines, in any order, the nodes are loaded in file order;
  when identifiers do not repeat, \<open>getNodeById\<close> and \<open>getMyNode\<close> find each node, and the
  peers are the other nodes.
\<close>
theorem config_round_trip:
  assumes "\<forall>n. Inl n \<in> set es \<longrightarrow> wf_node n" and "\<forall>s. Inr s \<in> set es \<longrightarrow> newline \<notin> set s"
    and "files fs path = Some (bytes_of_string (config_text es))" and "distinct (map node_id (node_entries es))"
    and "Inl me \<in> set es"
  shows "getAllNodes_config (new_node_config fs path (node_id me)) = node_entries es \<and>
    getMyNode (new_node_config fs path (node_id me)) = me \<and>
    (\<forall>n. Inl n \<in> set es \<longrightarrow> getNodeById (new_node_config fs path (node_id me)) (node_id n) = n) \<and>
    set (getPeerNodes (new_node_config fs path (node_id me))) = {n. Inl n \<in> set es \<and> n \<noteq> me}"
proof -
  let ?ns = "node_entries es"
  have nodes: "config_nodes (new_node_config fs path (node_id me)) = ?ns" by (rule load_config_text [OF assms(1-3)])
  have me: "myNodeId (new_node_config fs path (node_id me)) = node_id me"
    using assms(3) by (simp add: new_node_config_def loadConfig_def)
  have find: "first_with (node_id n) ?ns = n" if "Inl n \<in> set es" for n
    using first_with_unique [OF assms(4)] that in_node_entries by blast
  have same: "node_id n = node_id me \<longleftrightarrow> n = me" if "Inl n \<in> set es" for n
    using find [OF that] find [OF assms(5)] by metis
  have "set (filter (\<lambda>n. node_id n \<noteq> node_id me) ?ns) = {n. Inl n \<in> set es \<and> n \<noteq> me}"
    unfolding set_filter in_node_entries using same by blast
  then show ?thesis
    unfolding getAllNodes_config_def getMyNode_def getNodeById_def getPeerNodes_def nodes me
    using find assms(5) by simp
qed

definition wit_node :: node_info where
  "wit_node = \<lparr>node_id = 11, node_host = ''127.0.0.1'', node_port = 9001\<rparr>"

definition config_fs :: "(node_info + string) list \<Rightarrow> file_system" where
  "config_fs es = \<lparr>files = [''nodes.conf'' \<mapsto> bytes_of_string (config_text es)], creatable = (\<lambda>p. True)\<rparr>"

theorem config_round_trip_witness:
  "getMyNode (new_node_config (config_fs [Inr '' metadata'', Inl wit_node]) ''nodes.conf'' 11) = wit_node"
  using config_round_trip [of "[Inr '' metadata'', Inl wit_node]" "config_fs [Inr '' metadata'', Inl wit_node]" "''nodes.conf''" wit_node]
  by (simp add: wit_node_def wf_node_def is_word_def is_space_def config_fs_def)

end
