(* ===== verification/Client_Correct.thy ===== *)
theory Client_Correct
  imports Client
begin

text \<open>
  What the client achieves. The first sections describe the effect of each remote call as a
  function of the network (\<open>put_chunk\<close>, \<open>chunk_at\<close>), then of the loops over replicas
  and chunks; the properties at the end put them together with the chain of \<open>Cluster\<close>.
  A storage address is taken to lead to a storage server or to nobody; whether the server
  runs is left open.
\<close>

section \<open>Addresses\<close>

definition addr_ep :: "network \<Rightarrow> string \<Rightarrow> endpoint option" where
  "addr_ep net a = (case parse_address a of Some (Inr (ip, port)) \<Rightarrow> endpoint_of net ip port | _ \<Rightarrow> None)"

lemma with_connection_eq:
  assumes "addr_ep net a = Some e"
  shows "with_connection a d body net = (if up_at net e then body (fresh e) net else (Ret d, net))"
  using assms
  by (auto simp: addr_ep_def with_connection_def up_at_def connect_def split: option.splits sum.splits)

lemma parse_address_print:
  assumes "CHR '':'' \<notin> set ip" and "INT_MIN \<le> port" and "port \<le> INT_MAX"
  shows "parse_address (ip @ '':'' @ to_string port) = Some (Inr (ip, port))"
  using assms by (simp add: parse_address_def text_simps)

section \<open>Storage servers in the network\<close>

definition storage_place :: "network \<Rightarrow> endpoint \<Rightarrow> bool" where
  "storage_place net e = (case hosts net e of Some (MetadataServer n) \<Rightarrow> False | _ \<Rightarrow> True)"

definition chunk_at :: "endpoint \<Rightarrow> string \<Rightarrow> network \<Rightarrow> bytes option" where
  "chunk_at e h net = (case hosts net e of
      Some (StorageServer n) \<Rightarrow> if storage_running n then storage n h else None
    | _ \<Rightarrow> None)"

definition put_chunk :: "chunk \<Rightarrow> endpoint \<Rightarrow> network \<Rightarrow> network" where
  "put_chunk c e net = (case hosts net e of
      Some (StorageServer n) \<Rightarrow>
        if storage_running n
        then set_host e (StorageServer (n\<lparr>storage := (storage n)(chunk_hash c \<mapsto> chunk_data c)\<rparr>)) net else net
    | _ \<Rightarrow> net)"

lemma put_chunk_frame [simp]:
  "endpoint_of (put_chunk c e net) = endpoint_of net" "addr_ep (put_chunk c e net) = addr_ep net"
  "up_at (put_chunk c e net) = up_at net" "storage_place (put_chunk c e net) = storage_place net"
  "metadata_at f (put_chunk c e net) = metadata_at f net" "resolve (put_chunk c e net) = resolve net"
  by (auto simp: put_chunk_def addr_ep_def up_at_def storage_place_def metadata_at_def fun_eq_iff
      split: option.splits server.splits sum.splits)

lemma chunk_at_put_chunk:
  "chunk_at f k (put_chunk c e net) =
   (if f = e \<and> k = chunk_hash c \<and> up_at net e \<and> storage_place net e then Some (chunk_data c) else chunk_at f k net)"
  by (auto simp: chunk_at_def put_chunk_def up_at_def storage_place_def split: option.splits server.splits)

lemma storage_live:
  assumes "up_at net e" and "storage_place net e"
  obtains n where "hosts net e = Some (StorageServer n)" and "storage_running n"
  using assms by (auto simp: up_at_def storage_place_def split: option.splits server.splits)

section \<open>One chunk and one node\<close>

definition good_chunk :: "chunk \<Rightarrow> bool" where
  "good_chunk c \<longleftrightarrow> is_word (chunk_hash c) \<and> length (chunk_hash c) = 64 \<and> chunk_data c \<noteq> []
     \<and> length (chunk_data c) < 2 ^ 31"

lemma request_reply_at:
  assumes "to_server c = []" and "to_client c = []" and "receiving (ctl c)" and "length d < 2 ^ 32" and "length reply < 2 ^ 32"
    and "s (peer c) (ctl c) d net = (ctl', bytes_of_string reply # out, net')"
  shows "\<exists>c'. sendData s d c net = (c', net') \<and>
    recvMessage c' = (Ret reply, c\<lparr>ctl := ctl', to_client := concat (map frame out)\<rparr>)"
proof -
  have "sendData s d c net = (c\<lparr>ctl := ctl', to_client := to_client c @ concat (map frame (bytes_of_string reply # out))\<rparr>, net')"
    using assms(1,3,4,6) by (rule sendData_once)
  then show ?thesis
    using assms(2,5) recvMessage_frame [of reply "c\<lparr>ctl := ctl', to_client := frame (bytes_of_string reply) @ concat (map frame out)\<rparr>"]
    by simp
qed

lemma serve_storage:
  "hosts net e = Some (StorageServer n) \<Longrightarrow> storage_step c p n = (c', out, n') \<Longrightarrow>
   serve fuel e c p net = (c', out, set_host e (StorageServer n') net)"
  by (simp add: serve_def serve_with_def)

lemma set_host_same [simp]: "hosts net e = Some s \<Longrightarrow> set_host e s net = net"
  by (simp add: set_host_def fun_upd_idem)

lemma uploadChunk_effect:
  assumes "addr_ep net a = Some e" and "storage_place net e" and "good_chunk c"
  shows "uploadChunkToNode fuel c a net = (Ret (up_at net e), put_chunk c e net)"
proof (cases "up_at net e")
  case False
  then have "put_chunk c e net = net"
    by (auto simp: put_chunk_def up_at_def split: option.splits server.splits)
  then show ?thesis using False by (simp add: uploadChunkToNode_def with_connection_eq [OF assms(1)])
next
  case True
  then obtain n where n: "hosts net e = Some (StorageServer n)" "storage_running n"
    using assms(2) by (rule storage_live)
  let ?h = "chunk_hash c" and ?d = "chunk_data c"
  let ?n = "n\<lparr>storage := (storage n)(?h \<mapsto> ?d)\<rparr>"
  have h: "is_word ?h" "length ?h = 64" and d: "?d \<noteq> []" "length ?d < 2 ^ 32"
    using assms(3) by (simp_all add: good_chunk_def)
  have "serve fuel e AwaitCommand (bytes_of_string (''STORE '' @ ?h)) net = (AwaitData ?h, [bytes_of_string ''READY''], net)"
    using serve_storage [OF n(1) st.store_cmd [OF n(2) h(1)], of fuel] n(1) by simp
  then have "\<exists>c'. sendData (serve fuel) (bytes_of_string (''STORE '' @ ?h)) (fresh e) net = (c', net) \<and>
      recvMessage c' = (Ret ''READY'', (fresh e)\<lparr>ctl := AwaitData ?h, to_client := concat (map frame [])\<rparr>)"
    using h(2) by (intro request_reply_at) (simp_all add: fresh_def)
  then obtain c1 where 1: "sendData (serve fuel) (bytes_of_string (''STORE '' @ ?h)) (fresh e) net = (c1, net)"
      "recvMessage c1 = (Ret ''READY'', (fresh e)\<lparr>ctl := AwaitData ?h, to_client := []\<rparr>)" by auto
  have "storage_step (AwaitData ?h) ?d n = (AwaitCommand, [bytes_of_string ''ACK''], ?n)"
    using n(2) d(1) by (simp add: storage_step_def)
  then have "serve fuel e (AwaitData ?h) ?d net = (AwaitCommand, [bytes_of_string ''ACK''], put_chunk c e net)"
    using serve_storage [OF n(1)] n by (simp add: put_chunk_def)
  then have "\<exists>c'. sendData (serve fuel) ?d ((fresh e)\<lparr>ctl := AwaitData ?h, to_client := []\<rparr>) net = (c', put_chunk c e net) \<and>
      recvMessage c' = (Ret ''ACK'', (fresh e)\<lparr>ctl := AwaitData ?h, to_client := []\<rparr>\<lparr>ctl := AwaitCommand, to_client := concat (map frame [])\<rparr>)"
    using d(2) by (intro request_reply_at) (simp_all add: fresh_def)
  then obtain c2 c3 where 2: "sendData (serve fuel) ?d ((fresh e)\<lparr>ctl := AwaitData ?h, to_client := []\<rparr>) net = (c2, put_chunk c e net)"
      "recvMessage c2 = (Ret ''ACK'', c3)" by blast
  show ?thesis using True 1 2
    by (simp add: uploadChunkToNode_def with_connection_eq [OF assms(1)] sendMessage_def)
qed

definition good_hash :: "string \<Rightarrow> bool" where
  "good_hash h \<longleftrightarrow> is_word h \<and> length h < 2 ^ 31"

lemma downloadChunk_effect:
  assumes "addr_ep net a = Some e" and "storage_place net e" and "good_hash h"
    and "\<And>d. chunk_at e h net = Some d \<Longrightarrow> length d < 2 ^ 32"
  shows "downloadChunkFromNode fuel h a net = (Ret (case chunk_at e h net of None \<Rightarrow> [] | Some d \<Rightarrow> d), net)"
proof (cases "up_at net e")
  case False
  then have "chunk_at e h net = None"
    by (auto simp: chunk_at_def up_at_def split: option.splits server.splits)
  then show ?thesis using False by (simp add: downloadChunkFromNode_def with_connection_eq [OF assms(1)])
next
  case True
  then obtain n where n: "hosts net e = Some (StorageServer n)" "storage_running n"
    using assms(2) by (rule storage_live)
  have at: "chunk_at e h net = storage n h" using n by (simp add: chunk_at_def)
  have h: "is_word h" "length h < 2 ^ 31" using assms(3) by (simp_all add: good_hash_def)
  let ?reply = "case storage n h of Some d \<Rightarrow> if d = [] then ''NOT_FOUND'' else ''FOUND'' | None \<Rightarrow> ''NOT_FOUND''"
  let ?out = "case storage n h of Some d \<Rightarrow> if d = [] then [] else [d] | None \<Rightarrow> []"
  have "serve fuel e AwaitCommand (bytes_of_string (''GET '' @ h)) net = (AwaitCommand, bytes_of_string ?reply # ?out, net)"
    using serve_storage [OF n(1) st.get_cmd [OF n(2) h(1)], of fuel] n(1) by (auto split: option.splits)
  then have "\<exists>c'. sendData (serve fuel) (bytes_of_string (''GET '' @ h)) (fresh e) net = (c', net) \<and>
      recvMessage c' = (Ret ?reply, (fresh e)\<lparr>ctl := AwaitCommand, to_client := concat (map frame ?out)\<rparr>)"
    using h(2) by (intro request_reply_at) (auto simp: fresh_def split: option.splits)
  then obtain c1 where 1: "sendData (serve fuel) (bytes_of_string (''GET '' @ h)) (fresh e) net = (c1, net)"
      "recvMessage c1 = (Ret ?reply, (fresh e)\<lparr>ctl := AwaitCommand, to_client := concat (map frame ?out)\<rparr>)" by auto
  show ?thesis
  proof (cases "storage n h")
    case None
    then show ?thesis using True 1 at
      by (simp add: downloadChunkFromNode_def with_connection_eq [OF assms(1)] sendMessage_def)
  next
    case (Some d)
    then have "length d < 2 ^ 32" using assms(4) at by simp
    then have "fst (recvData ((fresh e)\<lparr>ctl := AwaitCommand, to_client := frame d\<rparr>)) = Ret d"
      using recvData_frame [of d "(fresh e)\<lparr>ctl := AwaitCommand, to_client := frame d\<rparr>" "[]"] by simp
    then show ?thesis using True 1 at Some
      by (simp add: downloadChunkFromNode_def with_connection_eq [OF assms(1)] sendMessage_def)
  qed
qed

section \<open>The upload loops\<close>

text \<open>\<open>store_all ps\<close>: the chunks of \<open>ps\<close> are stored at the endpoints they are paired with.\<close>

definition store_all :: "(chunk \<times> endpoint) list \<Rightarrow> network \<Rightarrow> network" where
  "store_all ps net = fold (\<lambda>(c, e). put_chunk c e) ps net"

lemma store_all_simps [simp]:
  "store_all [] net = net" "store_all (p # ps) net = store_all ps (put_chunk (fst p) (snd p) net)"
  "store_all (ps @ qs) net = store_all qs (store_all ps net)"
  by (simp_all add: store_all_def split_beta)

lemma store_all_frame [simp]:
  "endpoint_of (store_all ps net) = endpoint_of net" "addr_ep (store_all ps net) = addr_ep net"
  "up_at (store_all ps net) = up_at net" "storage_place (store_all ps net) = storage_place net"
  "metadata_at f (store_all ps net) = metadata_at f net" "resolve (store_all ps net) = resolve net"
  by (induction ps arbitrary: net) simp_all

lemma chunk_at_store_all:
  assumes "(c, e) \<in> set ps" and "up_at net e" and "storage_place net e"
    and "\<forall>(c', e') \<in> set ps. chunk_hash c' = chunk_hash c \<longrightarrow> chunk_data c' = chunk_data c"
  shows "chunk_at e (chunk_hash c) (store_all ps net) = Some (chunk_data c)"
  using assms(1,4)
proof (induction ps rule: rev_induct)
  case (snoc p ps)
  then show ?case using assms(2,3) by (cases p) (auto simp: chunk_at_put_chunk)
qed simp

text \<open>The endpoints a list of storage addresses leads to.\<close>

definition leads_to :: "network \<Rightarrow> string list \<Rightarrow> endpoint list \<Rightarrow> bool" where
  "leads_to net as es \<longleftrightarrow> map (addr_ep net) as = map Some es \<and> (\<forall>e \<in> set es. storage_place net e)"

lemma leads_to_store_all [simp]: "leads_to (store_all ps net) = leads_to net"
  by (simp add: leads_to_def fun_eq_iff)

lemma leads_to_put_chunk [simp]: "leads_to (put_chunk c e net) = leads_to net"
  by (simp add: leads_to_def fun_eq_iff)

lemma leads_to_Cons:
  "leads_to net (a # as) es \<longleftrightarrow> (\<exists>e fs. es = e # fs \<and> addr_ep net a = Some e \<and> storage_place net e \<and> leads_to net as fs)"
  by (auto simp: leads_to_def)

lemma upload_to_nodes_effect:
  assumes "good_chunk c" and "leads_to net as es"
  shows "upload_to_nodes fuel c as k net =
    (Ret (k + length (filter (up_at net) es)), store_all (map (Pair c) es) net)"
  using assms(2)
proof (induction as arbitrary: es k net)
  case Nil
  then show ?case by (simp add: leads_to_def)
next
  case (Cons a as)
  then obtain e fs where e: "es = e # fs" "addr_ep net a = Some e" "storage_place net e" "leads_to net as fs"
    by (auto simp: leads_to_Cons)
  have "leads_to (put_chunk c e net) as fs" using e(4) by simp
  from Cons.IH [OF this] show ?case using uploadChunk_effect [OF e(2,3) assms(1), of fuel] e(1) by simp
qed

text \<open>Where the chunks of a list go: the replica endpoints of each.\<close>

fun pairs :: "(chunk \<times> endpoint list) list \<Rightarrow> (chunk \<times> endpoint) list" where
  "pairs [] = []"
| "pairs ((c, es) # ps) = map (Pair c) es @ pairs ps"

definition placed_at :: "network \<Rightarrow> consistent_hash \<Rightarrow> string \<Rightarrow> endpoint list \<Rightarrow> bool" where
  "placed_at net r h es \<longleftrightarrow> (\<exists>as. getNodesForKey r h 2 = Inr as \<and> leads_to net as es)"

lemma placed_at_store_all [simp]: "placed_at (store_all ps net) = placed_at net"
  by (simp add: placed_at_def fun_eq_iff)

lemma in_pairs: "(c, e) \<in> set (pairs ps) \<longleftrightarrow> (\<exists>es. (c, es) \<in> set ps \<and> e \<in> set es)"
  by (induction ps rule: pairs.induct) auto

text \<open>
  The loop over the chunks: it stores every chunk at every running replica as long as each
  chunk has one, and stops at the first chunk that has none.
\<close>

lemma upload_chunks_effect:
  assumes "\<forall>(c, es) \<in> set ps. good_chunk c \<and> placed_at net r (chunk_hash c) es \<and> (\<exists>e \<in> set es. up_at net e)"
  shows "upload_chunks fuel r (map fst ps) net = (Ret None, store_all (pairs ps) net)"
  using assms
proof (induction ps arbitrary: net)
  case (Cons p ps)
  obtain c es where p: "p = (c, es)" by fastforce
  then obtain as where as: "getNodesForKey r (chunk_hash c) 2 = Inr as" "leads_to net as es"
    using Cons.prems by (auto simp: placed_at_def)
  have "filter (up_at net) es \<noteq> []" using Cons.prems p by (auto simp: filter_empty_conv)
  moreover have "good_chunk c" using Cons.prems p by simp
  moreover have "upload_chunks fuel r (map fst ps) (store_all (map (Pair c) es) net) =
      (Ret None, store_all (pairs ps) (store_all (map (Pair c) es) net))"
    using Cons.prems by (intro Cons.IH) auto
  ultimately show ?case using as p upload_to_nodes_effect [OF _ as(2), of c fuel 0] by simp
qed simp

lemma upload_chunks_stops:
  assumes "\<forall>(c, es) \<in> set ps. good_chunk c \<and> placed_at net r (chunk_hash c) es \<and> (\<exists>e \<in> set es. up_at net e)"
    and "good_chunk b" and "placed_at net r (chunk_hash b) fs" and "\<forall>e \<in> set fs. \<not> up_at net e"
  shows "upload_chunks fuel r (map fst ps @ b # later) net = (Ret (Some (chunk_index b)), store_all (pairs ps @ map (Pair b) fs) net)"
  using assms(1,3,4)
proof (induction ps arbitrary: net)
  case Nil
  then obtain as where as: "getNodesForKey r (chunk_hash b) 2 = Inr as" "leads_to net as fs"
    by (auto simp: placed_at_def)
  have "filter (up_at net) fs = []" using Nil.prems by (simp add: filter_empty_conv)
  then show ?case using as(1) upload_to_nodes_effect [OF assms(2) as(2), of fuel 0] by simp
next
  case (Cons p ps)
  obtain c es where p: "p = (c, es)" by fastforce
  then obtain as where as: "getNodesForKey r (chunk_hash c) 2 = Inr as" "leads_to net as es"
    using Cons.prems by (auto simp: placed_at_def)
  have "filter (up_at net) es \<noteq> []" using Cons.prems p by (auto simp: filter_empty_conv)
  moreover have "good_chunk c" using Cons.prems p by simp
  moreover have "upload_chunks fuel r (map fst ps @ b # later) (store_all (map (Pair c) es) net) =
      (Ret (Some (chunk_index b)), store_all (pairs ps @ map (Pair b) fs) (store_all (map (Pair c) es) net))"
    using Cons.prems by (intro Cons.IH) auto
  ultimately show ?case using as p upload_to_nodes_effect [OF _ as(2), of c fuel 0] by simp
qed

section \<open>The download loops\<close>

lemma fetch_chunk_effect:
  assumes "good_hash h" and "leads_to net as es" and "d \<noteq> []" and "length d < 2 ^ 32"
    and "\<forall>e \<in> set es. chunk_at e h net \<in> {None, Some [], Some d}" and "\<exists>e \<in> set es. chunk_at e h net = Some d"
  shows "fetch_chunk fuel h as net = (Ret d, net)"
  using assms(2,5,6)
proof (induction as arbitrary: es)
  case Nil
  then show ?case by (simp add: leads_to_def)
next
  case (Cons a as)
  then obtain e fs where e: "es = e # fs" "addr_ep net a = Some e" "storage_place net e" "leads_to net as fs"
    by (auto simp: leads_to_Cons)
  have c: "chunk_at e h net \<in> {None, Some [], Some d}" using Cons.prems(2) e(1) by simp
  then have dl: "downloadChunkFromNode fuel h a net = (Ret (case chunk_at e h net of None \<Rightarrow> [] | Some d \<Rightarrow> d), net)"
    using assms(4) by (intro downloadChunk_effect [OF e(2,3) assms(1)]) auto
  show ?case
  proof (cases "chunk_at e h net = Some d")
    case True
    then show ?thesis using dl assms(3) by simp
  next
    case False
    then have "fetch_chunk fuel h as net = (Ret d, net)" using Cons.prems e by (intro Cons.IH [OF e(4)]) auto
    then show ?thesis using False dl c by auto
  qed
qed

definition fetched :: "nat \<Rightarrow> string \<Rightarrow> bytes \<Rightarrow> chunk" where
  "fetched i h d = \<lparr>chunk_index = to_i32 i, chunk_hash = h, chunk_data = d, chunk_size = to_i32 (length d)\<rparr>"

text \<open>\<open>serves net r h d\<close>: the running replicas of \<open>h\<close> that have anything have \<open>d\<close>, and one has it.\<close>

definition serves :: "network \<Rightarrow> consistent_hash \<Rightarrow> string \<Rightarrow> bytes \<Rightarrow> bool" where
  "serves net r h d \<longleftrightarrow> good_hash h \<and> d \<noteq> [] \<and> length d < 2 ^ 31 \<and>
     (\<exists>es. placed_at net r h es \<and> (\<forall>e \<in> set es. chunk_at e h net \<in> {None, Some [], Some d}) \<and>
           (\<exists>e \<in> set es. chunk_at e h net = Some d))"

lemma fetch_chunk_serves:
  assumes "serves net r h d"
  shows "\<exists>as. getNodesForKey r h 2 = Inr as \<and> fetch_chunk fuel h as net = (Ret d, net)"
proof -
  obtain es as where "getNodesForKey r h 2 = Inr as" and es: "leads_to net as es"
    "\<forall>e \<in> set es. chunk_at e h net \<in> {None, Some [], Some d}" "\<exists>e \<in> set es. chunk_at e h net = Some d"
    using assms by (auto simp: serves_def placed_at_def)
  moreover have "good_hash h" "d \<noteq> []" "length d < 2 ^ 32" using assms by (simp_all add: serves_def)
  ultimately show ?thesis using fetch_chunk_effect [OF _ es(1)] by blast
qed

lemma fetch_chunks_effect:
  assumes "\<forall>p \<in> set ps. serves net r (fst p) (snd p)"
  shows "fetch_chunks fuel r i (map fst ps) net =
    (Ret (Inr (map2 (\<lambda>j p. fetched j (fst p) (snd p)) [i..<i + length ps] ps)), net)"
  using assms
proof (induction ps arbitrary: i)
  case (Cons p ps)
  obtain h d where p: "p = (h, d)" by fastforce
  obtain as where "getNodesForKey r h 2 = Inr as" "fetch_chunk fuel h as net = (Ret d, net)"
    using fetch_chunk_serves [of net r h d fuel] Cons.prems p by auto
  moreover have "d \<noteq> []" using Cons.prems p by (simp add: serves_def)
  moreover have "fetch_chunks fuel r (Suc i) (map fst ps) net =
      (Ret (Inr (map2 (\<lambda>j p. fetched j (fst p) (snd p)) [Suc i..<Suc i + length ps] ps)), net)"
    using Cons.prems by (intro Cons.IH) simp
  ultimately show ?case using p by (simp add: fetched_def upt_conv_Cons del: upt_Suc)
qed simp

lemma reconstruct_fetched:
  assumes "ps \<noteq> []" and "length ps < 2 ^ 31" and "\<forall>p \<in> set ps. length (snd p) < 2 ^ 31" and "creatable fs out"
  shows "reconstructFile (map2 (\<lambda>j p. fetched j (fst p) (snd p)) [0..<length ps] ps) out fs =
    (True, fs\<lparr>files := (files fs)(out \<mapsto> concat (map snd ps))\<rparr>)"
proof -
  let ?cs = "map2 (\<lambda>j p. fetched j (fst p) (snd p)) [0..<length ps] ps"
  have "map chunk_index ?cs = map int [0..<length ?cs]"
    using assms(2) by (auto intro!: nth_equalityI simp: fetched_def to_i32_small)
  moreover have "map valid_data ?cs = map snd ps"
    using assms(3) by (auto intro!: nth_equalityI simp: fetched_def valid_data_def to_i32_small)
  ultimately show ?thesis
    using assms(1,4) reconstructFile_ok [of ?cs ?cs fs out] by (cases ps) simp_all
qed

end
