(* ===== verification/End_To_End.thy ===== *)
theory End_To_End
  imports Client_Correct
begin

text \<open>
  Uploading and downloading over the whole system: the client of \<open>Client\<close>, the placement
  ring, the storage nodes and the metadata chain. \<open>healthy\<close> describes the cluster the
  design has in mind; the properties say what a user can rely on there, and what happens
  outside it.
\<close>

section \<open>The record of a file\<close>

lemma sha256_word: "is_word (sha256 d)"
proof -
  have "set (sha256 d) \<subseteq> set ''0123456789abcdef''" by (rule sha256_chars)
  moreover have "list_all (\<lambda>c. \<not> is_space c) ''0123456789abcdef''" by (simp add: is_space_def)
  ultimately have "list_all (\<lambda>c. \<not> is_space c) (sha256 d)" unfolding list_all_iff by blast
  then show ?thesis by (simp add: is_word_def)
qed

lemma sha256_no_comma: "CHR '','' \<notin> set (sha256 d)"
  using sha256_chars [of d] by auto

lemma length_join: "\<forall>h \<in> set hs. length h = k \<Longrightarrow> length (join_with c hs) \<le> Suc k * length hs"
  by (induction c hs rule: join_with.induct) auto

definition file_chunks :: "file_system \<Rightarrow> string \<Rightarrow> chunk list" where
  "file_chunks fs path = hashAllChunks (splitFileIntoChunks fs path)"

definition base_name :: "string \<Rightarrow> string" where
  "base_name path = after_last_of [CHR ''/'', CHR 0x5C] path"

definition file_record :: "file_system \<Rightarrow> string \<Rightarrow> file_metadata" where
  "file_record fs path =
     make_metadata fs path (file_chunks fs path) (computeRootHash (map chunk_hash (file_chunks fs path)))"

text \<open>A file the system can carry: not empty, below 32 TB, with a name free of blanks.\<close>

definition carriable :: "file_system \<Rightarrow> string \<Rightarrow> bytes \<Rightarrow> bool" where
  "carriable fs path d \<longleftrightarrow> files fs path = Some d \<and> d \<noteq> [] \<and> length d < 2 ^ 45 \<and>
     is_word (base_name path) \<and> length (base_name path) < 2 ^ 30"

text \<open>No two different chunks of the file have the same SHA-256 digest.\<close>

definition collision_free :: "file_system \<Rightarrow> string \<Rightarrow> bool" where
  "collision_free fs path \<longleftrightarrow> (\<forall>c \<in> set (file_chunks fs path). \<forall>c' \<in> set (file_chunks fs path).
     chunk_hash c = chunk_hash c' \<longrightarrow> chunk_data c = chunk_data c')"


lemma file_chunks_eq:
  assumes carried: "carriable fs path d"
  shows "file_chunks fs path = map hashChunk (read_chunks 0 d)"
  using carried by (simp add: file_chunks_def carriable_def splitFileIntoChunks_def hashAllChunks_map)

lemma file_chunks_nonempty:
  assumes carried: "carriable fs path d"
  shows "file_chunks fs path \<noteq> []"
  using carried by (simp add: file_chunks_eq [OF carried] carriable_def)

lemma file_chunks_count:
  assumes carried: "carriable fs path d"
  shows "length (file_chunks fs path) \<le> 2 ^ 25"
proof -
  have "length d + CHUNK_SIZE - 1 < Suc (2 ^ 25) * CHUNK_SIZE" using carried by (simp add: carriable_def CHUNK_SIZE_def)
  then have "(length d + CHUNK_SIZE - 1) div CHUNK_SIZE < Suc (2 ^ 25)" by (rule less_mult_imp_div_less)
  then show ?thesis by (simp add: file_chunks_eq [OF carried] read_chunks_count)
qed

lemma file_chunk_good:
  assumes carried: "carriable fs path d" and mem: "c \<in> set (file_chunks fs path)"
  shows "good_chunk c" and "good_hash (chunk_hash c)" and "CHR '','' \<notin> set (chunk_hash c)"
proof -
  obtain b where b: "b \<in> set (read_chunks 0 d)" "c = hashChunk b" using mem by (auto simp: file_chunks_eq [OF carried])
  have s: "chunk_size b = int (length (chunk_data b))" "0 < chunk_size b" "chunk_size b \<le> int CHUNK_SIZE"
    using read_chunks_sizes [OF b(1)] by blast+
  have "0 < length (chunk_data b)" using s(1,2) by linarith
  then have "chunk_data b \<noteq> []" by (rule length_greater_0_conv [THEN iffD1])
  then show "good_chunk c" using b(2) s sha256_word sha256_length by (auto simp: good_chunk_def CHUNK_SIZE_def)
  show "good_hash (chunk_hash c)" using b(2) sha256_word sha256_length by (simp add: good_hash_def)
  show "CHR '','' \<notin> set (chunk_hash c)" using b(2) sha256_no_comma by simp
qed

lemma file_chunks_data:
  assumes carried: "carriable fs path d"
  shows "concat (map chunk_data (file_chunks fs path)) = d"
proof -
  have "map chunk_data (read_chunks 0 d) = map valid_data (read_chunks 0 d)"
    using read_chunks_sizes [of _ 0 d] by (auto simp: valid_data_def)
  moreover have "map chunk_data (file_chunks fs path) = map chunk_data (read_chunks 0 d)"
    by (simp add: file_chunks_eq [OF carried])
  ultimately show ?thesis using read_chunks_concat [of 0 d] by metis
qed

lemma file_record_simps:
  "meta_filename (file_record fs path) = base_name path"
  "meta_chunkHashes (file_record fs path) = map chunk_hash (file_chunks fs path)"
  by (simp_all add: file_record_def make_metadata_def base_name_def)

lemma file_record_wf:
  assumes carried: "carriable fs path d"
  shows "wf_metadata (file_record fs path)"
proof -
  have "getFileSize fs path = int (length d)" using carried by (simp add: getFileSize_def carriable_def)
  moreover have "length d < 2 ^ 45" "is_word (base_name path)" using carried by (simp_all add: carriable_def)
  moreover have "is_word (computeRootHash hs)" for hs using sha256_word by (simp add: computeRootHash_eq)
  moreover have "\<forall>c \<in> set (file_chunks fs path). is_word (chunk_hash c) \<and> CHR '','' \<notin> set (chunk_hash c)"
    using file_chunk_good [OF carried] by (auto simp: good_hash_def)
  ultimately show ?thesis
    using to_i32_range [of "length (file_chunks fs path)"] file_chunks_nonempty [OF carried]
    by (simp add: wf_metadata_def file_record_def make_metadata_def base_name_def CHUNK_SIZE_def)
qed

lemma file_record_length:
  assumes carried: "carriable fs path d"
  shows "length (put_message (file_record fs path)) < 2 ^ 32"
proof -
  let ?m = "file_record fs path"
  have num: "length (to_string i) \<le> 20" if "INT64_MIN \<le> i" "i \<le> INT64_MAX" for i
    using that by (intro to_string_length) simp
  have "length (to_string (meta_fileSize ?m)) \<le> 20" "length (to_string (meta_chunkSize ?m)) \<le> 20"
    "length (to_string (meta_totalChunks ?m)) \<le> 20"
    using file_record_wf [OF carried] by (auto simp: wf_metadata_def intro!: num)
  moreover have "length (meta_rootHash ?m) = 64"
    using sha256_length by (simp add: file_record_def make_metadata_def computeRootHash_eq)
  moreover have "\<forall>h \<in> set (meta_chunkHashes ?m). length h = 64"
    using file_chunk_good(1) [OF carried] by (auto simp: file_record_simps good_chunk_def)
  then have "length (join_with CHR '','' (meta_chunkHashes ?m)) \<le> 65 * length (meta_chunkHashes ?m)"
    using length_join [of "meta_chunkHashes ?m" 64 "CHR '',''"] by simp
  then have "length (join_with CHR '','' (meta_chunkHashes ?m)) \<le> 65 * 2 ^ 25"
    using file_chunks_count [OF carried] by (simp add: file_record_simps)
  moreover have "length (meta_filename ?m) < 2 ^ 30" using carried by (simp add: file_record_simps carriable_def)
  ultimately show ?thesis by (simp add: put_message_def)
qed

section \<open>Metadata calls\<close>

lemma parse_found_message:
  assumes "wf_metadata m"
  shows "parse_found (meta_filename m) (found_message m) = m"
proof -
  let ?body = "to_string (meta_fileSize m) @ '' '' @ to_string (meta_chunkSize m) @ '' '' @ to_string (meta_totalChunks m)
     @ '' '' @ meta_rootHash m @ '' '' @ join_with CHR '','' (meta_chunkHashes m)"
  have m: "found_message m = ''FOUND '' @ ?body" by (simp add: found_message_def)
  have w: "is_word (meta_rootHash m)" "is_word (join_with CHR '','' (meta_chunkHashes m))"
    using assms is_word_hashes by (auto simp: wf_metadata_def)
  have "6 < length (found_message m)" "take 6 (found_message m) = ''FOUND ''" "drop 6 (found_message m) = ?body"
    unfolding m by (simp_all add: is_word_def)
  then have "parse_found (meta_filename m) (found_message m) =
    \<lparr>meta_filename = meta_filename m, meta_rootHash = meta_rootHash m, meta_fileSize = meta_fileSize m,
      meta_chunkSize = meta_chunkSize m, meta_totalChunks = meta_totalChunks m,
      meta_chunkHashes = parse_hashes (join_with CHR '','' (meta_chunkHashes m))\<rparr>"
    using assms w by (simp add: parse_found_def open_stream_def no_metadata_def text_simps wf_metadata_def)
  then show ?thesis using assms by (simp add: wf_metadata_def text_simps)
qed

text \<open>The head of the chain is the node the client writes to first.\<close>

lemma putMetadata_head:
  assumes "addr_ep net a = Some e" and "linked net (e # es)" and "distinct (e # es)"
    and "metadata_at (last (e # es)) net = Some t" and "\<not> forwards t" and "length es \<le> fuel"
    and "wf_metadata (make_metadata fs path cs root)" and "length (put_message (make_metadata fs path cs root)) < 2 ^ 32"
  shows "putMetadataToNode fuel fs a path cs root net = (Ret True, write_all (make_metadata fs path cs root) (e # es) net)"
proof -
  let ?m = "make_metadata fs path cs root"
  have "up_at net e" using linked_hd [OF assms(2)] by (auto simp: up_at_def metadata_at_host)
  moreover have "serve fuel e AwaitCommand (bytes_of_string (put_message ?m)) net =
      (AwaitCommand, [bytes_of_string ''ACK''], write_all ?m (e # es) net)"
    by (rule chain_put [OF assms(2-5) parse_put_message [OF assms(7)] put_message_word assms(8,6)])
  then obtain c c' where "sendMessage (serve fuel) (put_message ?m) (fresh e) net = (c, write_all ?m (e # es) net)"
      "recvMessage c = (Ret ''ACK'', c')"
    using request_reply [OF assms(8), of "''ACK''" "serve fuel" e net] by auto
  ultimately show ?thesis
    by (simp add: putMetadataToNode_def with_connection_eq [OF assms(1)])
qed

lemma getMetadata_reply:
  assumes "addr_ep net a = Some t" and "metadata_at t net = Some n" and "meta_running n"
    and "is_word f" and "length f < 2 ^ 31" and "length (handleGet f n) < 2 ^ 32"
  shows "getMetadataFromNode fuel a f net = (Ret (parse_found f (handleGet f n)), net)"
proof -
  have "up_at net t" using assms(2,3) by (simp add: up_at_def metadata_at_host)
  moreover have "length (''GET '' @ f) < 2 ^ 32" using assms(5) by simp
  then obtain c c' where "sendMessage (serve fuel) (''GET '' @ f) (fresh t) net = (c, net)" "recvMessage c = (Ret (handleGet f n), c')"
    using request_reply [OF _ assms(6), of "''GET '' @ f" "serve fuel" t net net] serve_get [OF assms(2-4), of fuel] by blast
  ultimately show ?thesis by (simp add: getMetadataFromNode_def with_connection_eq [OF assms(1)])
qed

section \<open>The healthy cluster\<close>

text \<open>
  At least two storage nodes, all up, at different endpoints; the client's metadata
  addresses lead to a linked chain, head first, whose last node is its tail.
\<close>

definition healthy :: "network \<Rightarrow> client \<Rightarrow> endpoint list \<Rightarrow> bool" where
  "healthy net cl es \<longleftrightarrow> ring_inv (dht_of cl) \<and> 2 \<le> length (getAllNodes (dht_of cl)) \<and>
     distinct (map (addr_ep net) (getAllNodes (dht_of cl))) \<and>
     (\<forall>a \<in> set (getAllNodes (dht_of cl)). \<exists>e. addr_ep net a = Some e \<and> storage_place net e \<and> up_at net e) \<and>
     map (addr_ep net) (metadataNodes cl) = map Some es \<and> linked net es \<and> distinct es \<and>
     (\<exists>t. metadata_at (last es) net = Some t \<and> (role_of t = TAIL \<or> role_of t = SINGLE))"

definition crash :: "endpoint \<Rightarrow> network \<Rightarrow> network" where
  "crash x net = net\<lparr>hosts := (hosts net)(x := None)\<rparr>"

definition replica_eps :: "network \<Rightarrow> client \<Rightarrow> string \<Rightarrow> endpoint list" where
  "replica_eps net cl h = map (\<lambda>a. the (addr_ep net a)) (projr (getNodesForKey (dht_of cl) h 2))"

text \<open>The same cluster, of which one storage server may be gone.\<close>

definition usable :: "endpoint \<Rightarrow> network \<Rightarrow> client \<Rightarrow> endpoint list \<Rightarrow> bool" where
  "usable x net cl es \<longleftrightarrow> ring_inv (dht_of cl) \<and> 2 \<le> length (getAllNodes (dht_of cl)) \<and>
     distinct (map (addr_ep net) (getAllNodes (dht_of cl))) \<and>
     (\<forall>a \<in> set (getAllNodes (dht_of cl)). \<exists>e. addr_ep net a = Some e \<and> storage_place net e \<and> (e \<noteq> x \<longrightarrow> up_at net e)) \<and>
     map (addr_ep net) (metadataNodes cl) = map Some es \<and> linked net es \<and> distinct es \<and>
     (\<exists>t. metadata_at (last es) net = Some t \<and> (role_of t = TAIL \<or> role_of t = SINGLE))"

lemma healthy_usable: "healthy net cl es \<Longrightarrow> usable x net cl es"
  unfolding healthy_def usable_def by blast

lemma usable_replicas:
  assumes "usable x net cl es"
  shows "placed_at net (dht_of cl) h (replica_eps net cl h)"
    and "e \<in> set (replica_eps net cl h) \<Longrightarrow> storage_place net e \<and> (e \<noteq> x \<longrightarrow> up_at net e)"
    and "\<exists>e \<in> set (replica_eps net cl h). e \<noteq> x"
proof -
  let ?M = "set (getAllNodes (dht_of cl))"
  have d: "distinct (map (addr_ep net) (getAllNodes (dht_of cl)))" and inv: "ring_inv (dht_of cl)"
    using assms by (simp_all add: usable_def)
  have inj: "inj_on (addr_ep net) ?M" using d by (simp add: distinct_map)
  have card: "2 \<le> card ?M" using assms d by (simp add: usable_def distinct_map distinct_card)
  obtain as where as: "getNodesForKey (dht_of cl) h 2 = Inr as" "set as \<subseteq> ?M" "\<exists>a \<in> set as. addr_ep net a \<noteq> Some x"
    using dht.survivor [OF inv card inj] by blast
  have reps: "replica_eps net cl h = map (\<lambda>a. the (addr_ep net a)) as" using as(1) by (simp add: replica_eps_def)
  have ok: "\<forall>a \<in> set as. \<exists>e. addr_ep net a = Some e \<and> storage_place net e \<and> (e \<noteq> x \<longrightarrow> up_at net e)"
    using assms as(2) by (auto simp: usable_def)
  then show r: "e \<in> set (replica_eps net cl h) \<Longrightarrow> storage_place net e \<and> (e \<noteq> x \<longrightarrow> up_at net e)" for e
    by (auto simp: reps)
  have "leads_to net as (replica_eps net cl h)" using ok by (auto simp: leads_to_def reps)
  then show "placed_at net (dht_of cl) h (replica_eps net cl h)" using as(1) by (auto simp: placed_at_def)
  show "\<exists>e \<in> set (replica_eps net cl h). e \<noteq> x" using as(3) ok by (force simp: reps)
qed

lemma healthy_replicas:
  assumes "healthy net cl es"
  shows "placed_at net (dht_of cl) h (replica_eps net cl h)" and "\<forall>e \<in> set (replica_eps net cl h). up_at net e \<and> storage_place net e"
    and "\<exists>e \<in> set (replica_eps net cl h). e \<noteq> x"
proof -
  note u = usable_replicas [OF healthy_usable [OF assms], where h = h]
  show "placed_at net (dht_of cl) h (replica_eps net cl h)" "\<exists>e \<in> set (replica_eps net cl h). e \<noteq> x" by (rule u)+
  show "\<forall>e \<in> set (replica_eps net cl h). up_at net e \<and> storage_place net e"
  proof
    fix e assume e: "e \<in> set (replica_eps net cl h)"
    have "e \<noteq> (fst e + 1, snd e)" by (cases e) simp
    then show "up_at net e \<and> storage_place net e" using u(2) [OF e] by blast
  qed
qed

text \<open>The network after a complete upload.\<close>

definition after_upload :: "network \<Rightarrow> client \<Rightarrow> file_system \<Rightarrow> string \<Rightarrow> endpoint list \<Rightarrow> network" where
  "after_upload net cl fs path es =
     write_all (file_record fs path) es
       (store_all (pairs (map (\<lambda>c. (c, replica_eps net cl (chunk_hash c))) (file_chunks fs path))) net)"

lemma linked_cong:
  "endpoint_of net' = endpoint_of net \<Longrightarrow> (\<And>f. metadata_at f net' = metadata_at f net) \<Longrightarrow> linked net' es = linked net es"
  by (induction net es rule: linked.induct) (simp_all split: option.splits)

lemma addr_ep_cong: "endpoint_of net' = endpoint_of net \<Longrightarrow> addr_ep net' = addr_ep net"
  by (rule ext) (simp add: addr_ep_def split: option.splits sum.splits)

lemma addr_ep_write_all [simp]: "addr_ep (write_all m es net) = addr_ep net"
  by (rule addr_ep_cong) simp

lemma chunk_at_write_to [simp]: "chunk_at e h (write_to m f net) = chunk_at e h net"
  by (auto simp: chunk_at_def write_to_def metadata_at_host split: option.splits)

lemma storage_place_write_to [simp]: "storage_place (write_to m f net) e = storage_place net e"
  by (auto simp: storage_place_def write_to_def metadata_at_host split: option.splits)

lemma storage_write_all [simp]:
  "chunk_at e h (write_all m es net) = chunk_at e h net" "storage_place (write_all m es net) e = storage_place net e"
  by (induction m es net rule: write_all.induct) simp_all

lemma usable_chain:
  assumes "usable x net cl es"
  obtains e fs a as t where "es = e # fs" and "metadataNodes cl = a # as" and "addr_ep net a = Some e"
    and "linked net (e # fs)" and "distinct (e # fs)" and "metadata_at (last (e # fs)) net = Some t"
    and "role_of t = TAIL \<or> role_of t = SINGLE"
proof -
  obtain e fs where e: "es = e # fs" using assms by (cases es) (auto simp: usable_def)
  moreover obtain a as where "metadataNodes cl = a # as" "addr_ep net a = Some e"
    using assms e by (auto simp: usable_def)
  ultimately show ?thesis using that assms unfolding usable_def by blast
qed

lemmas healthy_chain = usable_chain [OF healthy_usable]

lemma upload_usable:
  assumes "usable x net cl es" and "carriable fs path d" and "length es \<le> Suc fuel"
  shows "uploadFile fuel cl fs path net = (Ret (Uploaded (hd (metadataNodes cl))), after_upload net cl fs path es)"
proof -
  let ?cs = "file_chunks fs path" and ?r = "dht_of cl"
  let ?ps = "map (\<lambda>c. (c, replica_eps net cl (chunk_hash c))) ?cs"
  let ?net = "store_all (pairs ?ps) net"
  obtain e es' a as t where h: "es = e # es'" "metadataNodes cl = a # as" "addr_ep net a = Some e" "linked net (e # es')"
      "distinct (e # es')" "metadata_at (last (e # es')) net = Some t" "role_of t = TAIL \<or> role_of t = SINGLE"
    using assms(1) by (rule usable_chain)
  have "\<forall>(c, rs) \<in> set ?ps. good_chunk c \<and> placed_at net ?r (chunk_hash c) rs \<and> (\<exists>e \<in> set rs. up_at net e)"
    using usable_replicas [OF assms(1)] file_chunk_good(1) [OF assms(2)] by fastforce
  then have "upload_chunks fuel ?r (map fst ?ps) net = (Ret None, ?net)" by (rule upload_chunks_effect)
  then have chunks: "upload_chunks fuel ?r ?cs net = (Ret None, ?net)" by (simp add: comp_def)
  have "linked ?net (e # es')" using h(4) linked_cong [of ?net net "e # es'"] by simp
  then have meta: "putMetadataToNode fuel fs a path ?cs (computeRootHash (map chunk_hash ?cs)) ?net =
      (Ret True, after_upload net cl fs path es)"
    using putMetadata_head [of ?net a e es' t fuel fs path ?cs] h assms(3) file_record_wf [OF assms(2)]
      file_record_length [OF assms(2)] by (auto simp: file_record_def after_upload_def forwards_def)
  have "splitFileIntoChunks fs path \<noteq> []" using file_chunks_nonempty [OF assms(2)] by (auto simp: file_chunks_def)
  then show ?thesis using chunks meta h(2) by (simp add: uploadFile_def file_chunks_def [symmetric] Let_def)
qed

lemmas upload_healthy = upload_usable [OF healthy_usable]

lemma crash_frame [simp]:
  "addr_ep (crash x net) = addr_ep net" "chunk_at e h (crash x net) = (if e = x then None else chunk_at e h net)"
  "metadata_at e (crash x net) = (if e = x then None else metadata_at e net)"
  by (simp_all add: crash_def addr_ep_def endpoint_of_def chunk_at_def metadata_at_def fun_eq_iff split: option.splits sum.splits)

lemma storage_place_crash: "storage_place net e \<Longrightarrow> storage_place (crash x net) e"
  by (simp add: crash_def storage_place_def)

text \<open>\<open>lost x net net'\<close>: \<open>net'\<close> is \<open>net\<close> without the services of the server at \<open>x\<close>.\<close>

definition lost :: "endpoint \<Rightarrow> network \<Rightarrow> network \<Rightarrow> bool" where
  "lost x net net' \<longleftrightarrow> addr_ep net' = addr_ep net \<and>
     (\<forall>e h. chunk_at e h net' = (if e = x then None else chunk_at e h net)) \<and>
     (\<forall>e. e \<noteq> x \<longrightarrow> metadata_at e net' = metadata_at e net) \<and>
     (\<forall>e. storage_place net e \<longrightarrow> storage_place net' e)"

lemma lost_crash: "lost x net (crash x net)"
  by (simp add: lost_def storage_place_crash)

lemma lostD:
  "lost x net net' \<Longrightarrow> addr_ep net' = addr_ep net"
  "lost x net net' \<Longrightarrow> chunk_at e h net' = (if e = x then None else chunk_at e h net)"
  "lost x net net' \<Longrightarrow> e \<noteq> x \<Longrightarrow> metadata_at e net' = metadata_at e net"
  "lost x net net' \<Longrightarrow> storage_place net e \<Longrightarrow> storage_place net' e"
  unfolding lost_def by blast+

lemma leads_to_lost: "lost x net net' \<Longrightarrow> leads_to net as es \<Longrightarrow> leads_to net' as es"
  by (simp add: leads_to_def lostD(1)) (blast intro: lostD(4))

lemma after_upload_chunks:
  assumes "healthy net cl es" and "collision_free fs path" and "c \<in> set (file_chunks fs path)"
    and "e \<in> set (replica_eps net cl (chunk_hash c))"
  shows "chunk_at e (chunk_hash c) (after_upload net cl fs path es) = Some (chunk_data c)"
proof -
  let ?ps = "pairs (map (\<lambda>c. (c, replica_eps net cl (chunk_hash c))) (file_chunks fs path))"
  note r = healthy_replicas(2) [OF assms(1), of "chunk_hash c"]
  have "chunk_at e (chunk_hash c) (store_all ?ps net) = Some (chunk_data c)"
  proof (rule chunk_at_store_all)
    show "(c, e) \<in> set ?ps" unfolding in_pairs using assms(3,4) by auto
    show "up_at net e" "storage_place net e" using assms(4) r by blast+
    have "c' \<in> set (file_chunks fs path)" if "(c', e') \<in> set ?ps" for c' e'
      using that unfolding in_pairs by auto
    then show "\<forall>(c', e') \<in> set ?ps. chunk_hash c' = chunk_hash c \<longrightarrow> chunk_data c' = chunk_data c"
      using assms(2,3) unfolding collision_free_def by blast
  qed
  then show ?thesis by (simp add: after_upload_def)
qed

lemma after_upload_metadata:
  assumes "healthy net cl es" and "f \<in> set es"
  shows "\<exists>n. metadata_at f net = Some n \<and> meta_running n \<and>
    metadata_at f (after_upload net cl fs path es) = Some (stored (file_record fs path) n)"
proof -
  have "linked net es" "distinct es" using assms(1) by (simp_all add: healthy_def)
  then obtain n where "metadata_at f net = Some n" "meta_running n" using linked_member assms(2) by blast
  then show ?thesis using metadata_at_write_all [OF \<open>distinct es\<close>] assms(2) by (simp add: after_upload_def)
qed

lemma after_upload_serves:
  assumes "healthy net cl es" and "carriable fs path d" and "collision_free fs path" and "c \<in> set (file_chunks fs path)"
    and "lost x (after_upload net cl fs path es) net2"
  shows "serves net2 (dht_of cl) (chunk_hash c) (chunk_data c)"
proof -
  let ?rs = "\<lambda>c. replica_eps net cl (chunk_hash c)" and ?net1 = "after_upload net cl fs path es"
  note r = healthy_replicas [OF assms(1), of "chunk_hash c"]
  note at = after_upload_chunks [OF assms(1,3,4)]
  have "placed_at net2 (dht_of cl) (chunk_hash c) (?rs c)"
  proof -
    obtain as where "getNodesForKey (dht_of cl) (chunk_hash c) 2 = Inr as" "leads_to net as (?rs c)"
      using r(1) by (auto simp: placed_at_def)
    moreover from this have "leads_to ?net1 as (?rs c)" by (simp add: leads_to_def after_upload_def)
    ultimately show ?thesis using leads_to_lost [OF assms(5)] by (auto simp: placed_at_def)
  qed
  moreover have "\<forall>e \<in> set (?rs c). chunk_at e (chunk_hash c) net2 \<in> {None, Some [], Some (chunk_data c)}"
    using at by (simp add: lostD(2) [OF assms(5)])
  moreover obtain e where "e \<in> set (?rs c)" "e \<noteq> x" using r(3) by blast
  then have "chunk_at e (chunk_hash c) net2 = Some (chunk_data c)" using at by (simp add: lostD(2) [OF assms(5)])
  with \<open>e \<in> set (?rs c)\<close> have "\<exists>e \<in> set (?rs c). chunk_at e (chunk_hash c) net2 = Some (chunk_data c)" ..
  ultimately show ?thesis using file_chunk_good [OF assms(2,4)] unfolding serves_def good_chunk_def by blast
qed

text \<open>A download whose chunks are all served, with the record at the last metadata node.\<close>

lemma download_fetches:
  assumes "metadataNodes cl \<noteq> []" and "addr_ep net (last (metadataNodes cl)) = Some t" and "metadata_at t net = Some n"
    and "meta_running n" and "handleGet (meta_filename m) n = found_message m" and "wf_metadata m"
    and "length (put_message m) < 2 ^ 32" and "length (meta_filename m) < 2 ^ 31"
    and "meta_chunkHashes m = map fst ps" and "\<forall>p \<in> set ps. serves net (dht_of cl) (fst p) (snd p)"
  shows "downloadFile fuel cl (meta_filename m) out fs net =
    (case reconstructFile (map2 (\<lambda>j p. fetched j (fst p) (snd p)) [0..<length ps] ps) out fs of
       (done, fs') \<Rightarrow> (Ret (if done then Reconstructed else ReconstructionFailed), fs', net))"
proof -
  have w: "is_word (meta_filename m)" "meta_chunkHashes m \<noteq> []" using assms(6) by (simp_all add: wf_metadata_def)
  have "length (found_message m) < 2 ^ 32" using found_message_length [OF w(1)] assms(7) by linarith
  then have "getMetadataFromNode fuel (last (metadataNodes cl)) (meta_filename m) net = (Ret m, net)"
    using getMetadata_reply [OF assms(2-4) w(1) assms(8), of fuel] parse_found_message [OF assms(6)] assms(5) by simp
  then have found: "find_metadata fuel (meta_filename m) (rev (metadataNodes cl)) net = (Ret (Some m), net)"
    using assms(1) w(2) by (cases "metadataNodes cl" rule: rev_cases) simp_all
  then show ?thesis
    using fetch_chunks_effect [OF assms(10), of fuel 0] assms(9) by (simp add: downloadFile_def)
qed

lemma download_effect:
  assumes "metadataNodes cl \<noteq> []" and "addr_ep net (last (metadataNodes cl)) = Some t" and "metadata_at t net = Some n"
    and "meta_running n" and "handleGet (meta_filename m) n = found_message m" and "wf_metadata m"
    and "length (put_message m) < 2 ^ 32" and "length (meta_filename m) < 2 ^ 31"
    and "meta_chunkHashes m = map fst ps" and "length ps < 2 ^ 31" and "\<forall>p \<in> set ps. serves net (dht_of cl) (fst p) (snd p)"
    and "creatable fs out"
  shows "downloadFile fuel cl (meta_filename m) out fs net =
    (Ret Reconstructed, fs\<lparr>files := (files fs)(out \<mapsto> concat (map snd ps))\<rparr>, net)"
proof -
  have "ps \<noteq> []" using assms(6,9) by (auto simp: wf_metadata_def)
  then show ?thesis
    using download_fetches [OF assms(1-9,11)] reconstruct_fetched [of ps fs out] assms(10-12) by (simp add: serves_def)
qed

text \<open>A download of a file whose record the last metadata node has, with all its chunks served.\<close>

lemma download_recorded:
  assumes ne: "metadataNodes cl \<noteq> []" and a: "addr_ep net (last (metadataNodes cl)) = Some e"
    and t: "metadata_at e net = Some t" "meta_running t" "role_of t = TAIL \<or> role_of t = SINGLE"
    and rec: "metadataStore t (base_name path) = Some (file_record fs' path)" and c: "carriable fs' path d"
    and s: "\<forall>c \<in> set (file_chunks fs' path). serves net (dht_of cl) (chunk_hash c) (chunk_data c)"
  shows "downloadFile fuel cl (base_name path) out fs net =
    (if creatable fs out then (Ret Reconstructed, fs\<lparr>files := (files fs)(out \<mapsto> d)\<rparr>, net)
     else (Ret ReconstructionFailed, fs, net))"
proof -
  let ?m = "file_record fs' path" and ?cs = "file_chunks fs' path"
  let ?ps = "map (\<lambda>c. (chunk_hash c, chunk_data c)) ?cs"
  let ?fetched = "map2 (\<lambda>j p. fetched j (fst p) (snd p)) [0..<length ?ps] ?ps"
  have "handleGet (meta_filename ?m) t = found_message ?m" using t(3) rec by (auto simp: handleGet_def file_record_simps)
  moreover have "length (meta_filename ?m) < 2 ^ 31" using c by (simp add: file_record_simps carriable_def)
  moreover have "meta_chunkHashes ?m = map fst ?ps" by (simp add: file_record_simps comp_def)
  moreover have s': "\<forall>p \<in> set ?ps. serves net (dht_of cl) (fst p) (snd p)" using s by simp
  ultimately have run: "downloadFile fuel cl (base_name path) out fs net =
      (case reconstructFile ?fetched out fs of
         (done, fs') \<Rightarrow> (Ret (if done then Reconstructed else ReconstructionFailed), fs', net))"
    using download_fetches [OF ne a t(1,2) _ file_record_wf [OF c] file_record_length [OF c]] by (simp only: file_record_simps)
  show ?thesis
  proof (cases "creatable fs out")
    case True
    have "length ?ps < 2 ^ 31" using file_chunks_count [OF c] by simp
    moreover have "?ps \<noteq> []" using file_chunks_nonempty [OF c] by simp
    ultimately have "reconstructFile ?fetched out fs = (True, fs\<lparr>files := (files fs)(out \<mapsto> concat (map snd ?ps))\<rparr>)"
      using s' True by (intro reconstruct_fetched) (auto simp: serves_def)
    then show ?thesis using run True file_chunks_data [OF c] by (simp add: comp_def)
  next
    case False
    then have "reconstructFile ?fetched out fs = (False, fs)" by (intro reconstructFile_fail) (simp add: reconstructFile_iff)
    then show ?thesis using run False by simp
  qed
qed

text \<open>Where a client of the cluster asks for records.\<close>

lemma last_metadata_node:
  assumes "map (addr_ep net) ms = map Some es" and "es \<noteq> []"
  shows "ms \<noteq> [] \<and> addr_ep net (last ms) = Some (last es)"
proof -
  have "ms \<noteq> []" using assms by auto
  then show ?thesis using arg_cong [OF assms(1), of last] assms(2) by (simp add: last_map)
qed

lemma download_after_upload:
  assumes "healthy net cl es" and "carriable fs path d" and "collision_free fs path"
    and l: "lost x (after_upload net cl fs path es) net2" and x: "x \<noteq> last es" and out: "creatable fs2 out"
  shows "downloadFile fuel cl (base_name path) out fs2 net2 = (Ret Reconstructed, fs2\<lparr>files := (files fs2)(out \<mapsto> d)\<rparr>, net2)"
proof -
  obtain t where t: "metadata_at (last es) net = Some t" "role_of t = TAIL \<or> role_of t = SINGLE"
    using assms(1) by (auto simp: healthy_def)
  have es: "es \<noteq> []" and ms: "map (addr_ep net) (metadataNodes cl) = map Some es"
    using assms(1) by (auto simp: healthy_def)
  let ?t = "stored (file_record fs path) t"
  have tail: "metadata_at (last es) net2 = Some ?t" "meta_running ?t"
    using after_upload_metadata [OF assms(1) last_in_set [OF es], of fs path] t(1) lostD(3) [OF l] x by auto
  have "metadataNodes cl \<noteq> []" "addr_ep net2 (last (metadataNodes cl)) = Some (last es)"
    using last_metadata_node [OF ms es] by (simp_all add: lostD(1) [OF l] after_upload_def)
  moreover have "metadataStore ?t (base_name path) = Some (file_record fs path)" by (simp add: file_record_simps)
  moreover have "\<forall>c \<in> set (file_chunks fs path). serves net2 (dht_of cl) (chunk_hash c) (chunk_data c)"
    using after_upload_serves [OF assms(1-3) _ l] by blast
  ultimately show ?thesis using download_recorded [OF _ _ tail _ _ assms(2)] t(2) out by simp
qed

lemma upload_then_download:
  assumes "healthy net cl es" and "carriable fs path d" and "collision_free fs path" and "length es \<le> Suc fuel"
  shows "\<exists>net1. uploadFile fuel cl fs path net = (Ret (Uploaded (hd (metadataNodes cl))), net1) \<and>
    (\<forall>x net2 fs2 out. lost x net1 net2 \<and> x \<noteq> last es \<and> creatable fs2 out \<longrightarrow>
      downloadFile fuel cl (base_name path) out fs2 net2 =
        (Ret Reconstructed, fs2\<lparr>files := (files fs2)(out \<mapsto> d)\<rparr>, net2))"
  using upload_healthy [OF assms(1,2,4)] download_after_upload [OF assms(1-3)] by blast

section \<open>Properties\<close>

text \<open>
  C1: A file survives the failure of any one server. On a healthy cluster an upload of a
  carriable file whose chunks do not collide under SHA-256 returns with the report
  \<open>Uploaded\<close>; when after that any one server except the tail of the metadata chain goes
  down, a client with the same configuration downloads the file on any machine and writes
  exactly the original bytes, and neither file system nor network changes otherwise.
\<close>
theorem upload_survives_one_failure:
  assumes "healthy net cl es" and "carriable fs path d" and "collision_free fs path" and "length es \<le> Suc fuel"
  shows "\<exists>net1. uploadFile fuel cl fs path net = (Ret (Uploaded (hd (metadataNodes cl))), net1) \<and>
    (\<forall>x fs2 out. x \<noteq> last es \<and> creatable fs2 out \<longrightarrow>
      downloadFile fuel cl (base_name path) out fs2 (crash x net1) =
        (Ret Reconstructed, fs2\<lparr>files := (files fs2)(out \<mapsto> d)\<rparr>, crash x net1))"
  using upload_then_download [OF assms] lost_crash by meson

definition wit_client :: client where
  "wit_client = new_client [''127.0.0.1:8001'', ''127.0.0.1:8002'']
     [''127.0.0.1:9001'', ''127.0.0.1:9002'', ''127.0.0.1:9003'']"

lemma wit_client_ring: "dht_of wit_client = wit_ring"
  by (simp add: wit_client_def new_client_def wit_ring_def)

lemma wit_addresses:
  "parse_address ''127.0.0.1:8001'' = Some (Inr (''127.0.0.1'', 8001))"
  "parse_address ''127.0.0.1:8002'' = Some (Inr (''127.0.0.1'', 8002))"
  "parse_address ''127.0.0.1:9001'' = Some (Inr (''127.0.0.1'', 9001))"
  "parse_address ''127.0.0.1:9002'' = Some (Inr (''127.0.0.1'', 9002))"
  "parse_address ''127.0.0.1:9003'' = Some (Inr (''127.0.0.1'', 9003))"
  by (simp_all add: parse_address_def split_first_def stoi_def split_sign_def is_space_def is_digit_def
      digits_val_def digit_val_def)

lemma healthy_local: "healthy startCluster wit_client local_chain"
proof -
  have "ring_inv (dht_of wit_client)" by (simp add: wit_client_ring)
  moreover have nodes: "getAllNodes (dht_of wit_client) = [''127.0.0.1:8001'', ''127.0.0.1:8002'']"
    by (simp add: wit_client_ring getAllNodes_def wit_ring_eq)
  moreover have "metadata_at (last local_chain) startCluster = Some (new_metadata_node [] (-1) 9003)"
    by (simp add: local_defs)
  moreover have "map (addr_ep startCluster) (metadataNodes wit_client) = map Some local_chain"
    by (simp add: wit_client_def new_client_def addr_ep_def wit_addresses local_defs)
  moreover have "distinct (map (addr_ep startCluster) [''127.0.0.1:8001'', ''127.0.0.1:8002''])"
    "\<forall>a \<in> set [''127.0.0.1:8001'', ''127.0.0.1:8002'']. \<exists>e. addr_ep startCluster a = Some e \<and>
       storage_place startCluster e \<and> up_at startCluster e"
    by (simp_all add: addr_ep_def wit_addresses local_defs storage_place_def up_at_def)
  ultimately show ?thesis
    using local_linked local_distinct unfolding healthy_def nodes by (simp add: new_metadata_node_def)
qed

lemma wit_file: "carriable wit_fs ''a.txt'' [1, 2, 3]" "collision_free wit_fs ''a.txt''"
proof -
  show c: "carriable wit_fs ''a.txt'' [1, 2, 3]"
    by (simp add: carriable_def wit_fs_def base_name_def after_last_of_def is_word_def is_space_def)
  have "length (file_chunks wit_fs ''a.txt'') = 1"
    by (simp add: file_chunks_eq [OF c] read_chunks_count CHUNK_SIZE_def)
  then obtain b where "file_chunks wit_fs ''a.txt'' = [b]" by (auto simp: length_Suc_conv)
  then show "collision_free wit_fs ''a.txt''" by (simp add: collision_free_def)
qed

theorem upload_survives_one_failure_witness:
  "\<exists>net1. uploadFile 2 wit_client wit_fs ''a.txt'' startCluster = (Ret (Uploaded (hd (metadataNodes wit_client))), net1) \<and>
     downloadFile 2 wit_client (base_name ''a.txt'') ''out'' wit_fs (crash (local_ep 8001) net1) =
       (Ret Reconstructed, wit_fs\<lparr>files := (files wit_fs)(''out'' \<mapsto> [1, 2, 3])\<rparr>, crash (local_ep 8001) net1)"
proof -
  have "length local_chain \<le> Suc 2" "local_ep 8001 \<noteq> last local_chain" by (simp_all add: local_chain_def)
  moreover have "creatable wit_fs ''out''" by (simp add: wit_fs_def)
  ultimately show ?thesis using upload_survives_one_failure [OF healthy_local wit_file, of 2] by blast
qed

end
