(* ===== verification/Client_Behaviour.thy ===== *)
theory Client_Behaviour
  imports End_To_End
begin

text \<open>
  More of what \<^verbatim>\<open>src/src/client/client.cpp\<close> does: where an upload leaves the data, what a
  download trusts, and the error branches (no replica reachable, a file name the text
  protocol cannot carry, addresses that do not parse).
\<close>

section \<open>A name with a blank\<close>

lemma read_int_word:
  assumes "c \<notin> {CHR ''-'', CHR ''+''}" and "\<not> is_digit c" and "\<not> is_space c"
  shows "failed (snd (read_int lo hi old \<lparr>rest = CHR '' '' # c # t, failed = False\<rparr>))"
  using assms by (simp add: read_int_def split_sign_def)

lemma failed_chain:
  "failed i \<Longrightarrow> failed (snd (read_int lo hi old i))" "failed i \<Longrightarrow> failed (snd (read_word w i))"
  using read_int_failed read_word_failed by blast+

lemma parse_put_blank_name:
  assumes "is_word v" and "c \<notin> {CHR ''-'', CHR ''+''}" and "\<not> is_digit c" and "\<not> is_space c"
    and "meta_filename m = v @ CHR '' '' # c # w"
  shows "parse_put (put_message m) = None"
proof -
  obtain t where t: "put_message m = ''PUT '' @ v @ CHR '' '' # c # t"
    by (simp add: put_message_def assms(5))
  have f: "failed (snd (read_i64 0 \<lparr>rest = CHR '' '' # c # t, failed = False\<rparr>))"
    using assms(2-4) by (rule read_int_word)
  have "read_word [] \<lparr>rest = CHR '' '' # v @ CHR '' '' # c # t, failed = False\<rparr> =
      (v, \<lparr>rest = CHR '' '' # c # t, failed = False\<rparr>)"
    using assms(1) by (simp add: text_simps)
  then show ?thesis
    using read_word_PUT [of "[]" "v @ CHR '' '' # c # t"] f
    by (auto simp: parse_put_def t split_beta failed_chain)
qed

lemma serve_bad_put:
  assumes "metadata_at e net = Some n" and "meta_running n" and "parse_put cmd = None"
    and "fst (read_word [] (open_stream cmd)) = ''PUT''"
  shows "serve fuel e AwaitCommand (bytes_of_string cmd) net = (AwaitCommand, [bytes_of_string ''ERROR_ARGS''], net)"
  using serve_put [OF assms(1,2,4), of "forwardPut fuel" "''ERROR_ARGS''" net]
    nw.rejected_put_changes_nothing [OF assms(3), of _ "forwardPut fuel" n net] by (simp add: serve_def)

section \<open>Properties\<close>

text \<open>
  Where an upload leaves the data. On a healthy cluster every replica of every chunk
  holds that chunk under its digest, every node of the metadata chain holds the record of
  the file, and no server is lost or gained.
\<close>
theorem upload_replicates:
  assumes "healthy net cl es" and "carriable fs path d" and "collision_free fs path" and "length es \<le> Suc fuel"
  shows "\<exists>net1. uploadFile fuel cl fs path net = (Ret (Uploaded (hd (metadataNodes cl))), net1) \<and>
    (\<forall>c \<in> set (file_chunks fs path). \<forall>e \<in> set (replica_eps net cl (chunk_hash c)).
       chunk_at e (chunk_hash c) net1 = Some (chunk_data c)) \<and>
    (\<forall>e \<in> set es. \<exists>n. metadata_at e net1 = Some n \<and> metadataStore n (base_name path) = Some (file_record fs path))"
proof -
  let ?net1 = "after_upload net cl fs path es"
  have "\<forall>e \<in> set es. \<exists>n. metadata_at e ?net1 = Some n \<and> metadataStore n (base_name path) = Some (file_record fs path)"
    using after_upload_metadata [OF assms(1)] by (fastforce simp: file_record_simps)
  then show ?thesis
    using upload_healthy [OF assms(1,2,4)] after_upload_chunks [OF assms(1,3)] by blast
qed

theorem upload_replicates_witness:
  "\<exists>net1. uploadFile 2 wit_client wit_fs ''a.txt'' startCluster = (Ret (Uploaded (hd (metadataNodes wit_client))), net1) \<and>
    (\<forall>e \<in> set local_chain. \<exists>n. metadata_at e net1 = Some n \<and>
       metadataStore n (base_name ''a.txt'') = Some (file_record wit_fs ''a.txt''))"
proof -
  have "length local_chain \<le> Suc 2" by (simp add: local_chain_def)
  then show ?thesis using upload_replicates [OF healthy_local wit_file, of 2] by blast
qed

text \<open>
  C33: A download returns what the replicas hold, whatever that is. With the record of the
  file at the last metadata node, the file written is the concatenation of the data found
  at the replicas of each hash, and the report is \<open>Reconstructed\<close>: the data need not have
  that hash, since the client compares nothing.
\<close>
theorem download_trusts_replicas:
  assumes "metadataNodes cl \<noteq> []" and "addr_ep net (last (metadataNodes cl)) = Some t" and "metadata_at t net = Some n"
    and "meta_running n" and "role_of n = TAIL \<or> role_of n = SINGLE" and "metadataStore n (meta_filename m) = Some m"
    and "wf_metadata m" and "length (put_message m) < 2 ^ 32" and "length (meta_filename m) < 2 ^ 31"
    and "length (meta_chunkHashes m) < 2 ^ 31"
    and "\<forall>h \<in> set (meta_chunkHashes m). serves net (dht_of cl) h (D h)" and "creatable fs out"
  shows "downloadFile fuel cl (meta_filename m) out fs net =
    (Ret Reconstructed, fs\<lparr>files := (files fs)(out \<mapsto> concat (map D (meta_chunkHashes m)))\<rparr>, net)"
proof -
  let ?ps = "map (\<lambda>h. (h, D h)) (meta_chunkHashes m)"
  have g: "handleGet (meta_filename m) n = found_message m" using assms(5,6) by (auto simp: handleGet_def)
  have h: "meta_chunkHashes m = map fst ?ps" by (simp add: comp_def)
  have l: "length ?ps < 2 ^ 31" using assms(10) by simp
  have v: "\<forall>p \<in> set ?ps. serves net (dht_of cl) (fst p) (snd p)" using assms(11) by simp
  have "map snd ?ps = map D (meta_chunkHashes m)" by (simp add: comp_def)
  then show ?thesis using download_effect [OF assms(1-4) g assms(7-9) h l v assms(12), of fuel] by (simp del: map_map)
qed

definition corrupted :: network where
  "corrupted = \<lparr>resolve = local_resolve, hosts =
     [local_ep 8001 \<mapsto> StorageServer (new_storage_node\<lparr>storage := [''h0'' \<mapsto> [0xBA, 0xD0]]\<rparr>),
      local_ep 9003 \<mapsto> MetadataServer (stored wit_meta (new_metadata_node [] (-1) 9003))]\<rparr>"

lemma wit_replicas: "getNodesForKey wit_ring h 2 = Inr ns \<Longrightarrow> set ns = {''127.0.0.1:8001'', ''127.0.0.1:8002''}"
  using getNodesForKey_eq [of wit_ring 2 h] set_walk [of "ring wit_ring" "hashKey h"]
    length_walk [of "ring wit_ring" "hashKey h"] by (simp add: wit_ring_eq)

lemma wit_serves: "serves corrupted wit_ring ''h0'' [0xBA, 0xD0]"
proof -
  have a: "addr_ep corrupted ''127.0.0.1:8001'' = Some (local_ep 8001)" "addr_ep corrupted ''127.0.0.1:8002'' = Some (local_ep 8002)"
    by (simp_all add: addr_ep_def wit_addresses corrupted_def endpoint_of_def local_resolve_def)
  obtain as where as: "getNodesForKey wit_ring ''h0'' 2 = Inr as"
    using getNodesForKey_eq [of wit_ring 2 "''h0''"] by simp
  define es where "es = map (\<lambda>a. the (addr_ep corrupted a)) as"
  have s: "set es = {local_ep 8001, local_ep 8002}" using wit_replicas [OF as] a by (simp add: es_def)
  have "leads_to corrupted as es"
    using wit_replicas [OF as] a by (auto simp: leads_to_def es_def storage_place_def corrupted_def)
  moreover have "chunk_at (local_ep 8001) ''h0'' corrupted = Some [0xBA, 0xD0]" "chunk_at (local_ep 8002) ''h0'' corrupted = None"
    by (simp_all add: chunk_at_def corrupted_def new_storage_node_def)
  moreover have "good_hash ''h0''" by (simp add: good_hash_def is_word_def is_space_def)
  ultimately show ?thesis using as s unfolding serves_def placed_at_def by (intro conjI exI [of _ es]) auto
qed

theorem download_trusts_replicas_witness:
  "downloadFile 0 wit_client ''a.txt'' ''out'' wit_fs corrupted =
    (Ret Reconstructed, wit_fs\<lparr>files := (files wit_fs)(''out'' \<mapsto> [0xBA, 0xD0])\<rparr>, corrupted)"
proof -
  have "metadataNodes wit_client \<noteq> []" "addr_ep corrupted (last (metadataNodes wit_client)) = Some (local_ep 9003)"
    "metadata_at (local_ep 9003) corrupted = Some (stored wit_meta (new_metadata_node [] (-1) 9003))"
    by (simp_all add: wit_client_def new_client_def addr_ep_def wit_addresses corrupted_def endpoint_of_def
        local_resolve_def metadata_at_def)
  moreover have "meta_running (stored wit_meta (new_metadata_node [] (-1) 9003))"
    "role_of (stored wit_meta (new_metadata_node [] (-1) 9003)) = TAIL"
    "metadataStore (stored wit_meta (new_metadata_node [] (-1) 9003)) (meta_filename wit_meta) = Some wit_meta"
    by (simp_all add: new_metadata_node_def)
  moreover have w: "meta_chunkHashes wit_meta = [''h0'']" "meta_filename wit_meta = ''a.txt''" by (simp_all add: wit_meta_def)
  moreover have "\<forall>h \<in> set (meta_chunkHashes wit_meta). serves corrupted (dht_of wit_client) h ((\<lambda>h. [0xBA, 0xD0]) h)"
    using wit_serves by (simp add: w wit_client_ring)
  moreover have "creatable wit_fs ''out''" by (simp add: wit_fs_def)
  ultimately show ?thesis
    using download_trusts_replicas [of wit_client corrupted "local_ep 9003" "stored wit_meta (new_metadata_node [] (-1) 9003)"
        wit_meta "\<lambda>h. [0xBA, 0xD0]" wit_fs "''out''" 0] wit_meta_wf wit_meta_length by simp
qed

text \<open>
  A chunk that no replica takes ends the upload. When the replicas of some chunk are all
  down and those of the chunks before it are not, the upload stops there with that chunk's
  index; the earlier chunks stay on their nodes, and no metadata node learns of the file.
\<close>
theorem upload_stops_at_lost_chunk:
  assumes "file_chunks fs path = map fst ps @ b # later"
    and "\<forall>(c, es) \<in> set ps. good_chunk c \<and> placed_at net (dht_of cl) (chunk_hash c) es \<and> (\<exists>e \<in> set es. up_at net e)"
    and "good_chunk b" and "placed_at net (dht_of cl) (chunk_hash b) fs'" and "\<forall>e \<in> set fs'. \<not> up_at net e"
  shows "\<exists>net1. uploadFile fuel cl fs path net = (Ret (ChunkNotStored (chunk_index b)), net1) \<and>
    (\<forall>f. metadata_at f net1 = metadata_at f net)"
proof -
  have "splitFileIntoChunks fs path \<noteq> []" using assms(1) by (auto simp: file_chunks_def)
  then show ?thesis
    using upload_chunks_stops [OF assms(2-5), of fuel later] assms(1)
    by (simp add: uploadFile_def file_chunks_def Let_def)
qed

definition no_storage :: network where
  "no_storage = crash (local_ep 8002) (crash (local_ep 8001) startCluster)"

lemma no_storage_placed: "\<exists>es. placed_at no_storage wit_ring h es \<and> (\<forall>e \<in> set es. \<not> up_at no_storage e)"
proof -
  have a: "addr_ep no_storage ''127.0.0.1:8001'' = Some (local_ep 8001)" "addr_ep no_storage ''127.0.0.1:8002'' = Some (local_ep 8002)"
    by (simp_all add: no_storage_def addr_ep_def wit_addresses local_defs)
  obtain as where as: "getNodesForKey wit_ring h 2 = Inr as"
    using getNodesForKey_eq [of wit_ring 2 h] by simp
  define es where "es = map (\<lambda>a. the (addr_ep no_storage a)) as"
  have "leads_to no_storage as es" "\<forall>e \<in> set es. \<not> up_at no_storage e"
    using wit_replicas [OF as] a
    by (auto simp: leads_to_def es_def storage_place_def up_at_def no_storage_def crash_def)
  then show ?thesis using as by (auto simp: placed_at_def)
qed

theorem upload_stops_at_lost_chunk_witness:
  "\<exists>i net1. uploadFile 2 wit_client wit_fs ''a.txt'' no_storage = (Ret (ChunkNotStored i), net1)"
proof -
  obtain b later where b: "file_chunks wit_fs ''a.txt'' = b # later"
    using file_chunks_nonempty [OF wit_file(1)] by (cases "file_chunks wit_fs ''a.txt''") auto
  then have "good_chunk b" using file_chunk_good(1) [OF wit_file(1), of b] by simp
  moreover obtain es where "placed_at no_storage wit_ring (chunk_hash b) es" "\<forall>e \<in> set es. \<not> up_at no_storage e"
    using no_storage_placed by blast
  ultimately show ?thesis
    using upload_stops_at_lost_chunk [of wit_fs "''a.txt''" "[]" b later no_storage wit_client es 2] b
    by (auto simp: wit_client_ring)
qed



text \<open>
  Bad addresses. An address without a colon makes every remote call of the client return
  its failure value without touching the network; an address whose port does not start with
  a number makes \<open>std::stoi\<close> throw out of the call.
\<close>
theorem address_errors:
  assumes "CHR '':'' \<notin> set ip" and "p = [] \<or> hd p \<notin> {CHR ''-'', CHR ''+''} \<and> \<not> is_digit (hd p) \<and> \<not> is_space (hd p)"
  shows "uploadChunkToNode fuel c ip net = (Ret False, net) \<and>
    downloadChunkFromNode fuel h ip net = (Ret [], net) \<and>
    putMetadataToNode fuel fs ip path cs root net = (Ret False, net) \<and>
    getMetadataFromNode fuel ip f net = (Ret no_metadata, net) \<and>
    uploadChunkToNode fuel c (ip @ '':'' @ p) net = (Throw Invalid_argument, net) \<and>
    downloadChunkFromNode fuel h (ip @ '':'' @ p) net = (Throw Invalid_argument, net) \<and>
    putMetadataToNode fuel fs (ip @ '':'' @ p) path cs root net = (Throw Invalid_argument, net) \<and>
    getMetadataFromNode fuel (ip @ '':'' @ p) f net = (Throw Invalid_argument, net)"
proof -
  have n: "parse_address ip = None" using assms(1) by (simp add: parse_address_def split_first_def)
  have "stoi p = Inl Invalid_argument"
    using assms(2) by (cases p) (auto simp: stoi_def split_sign_def)
  then have e: "parse_address (ip @ '':'' @ p) = Some (Inl Invalid_argument)"
    using assms(1) by (simp add: parse_address_def text_simps)
  note defs = uploadChunkToNode_def downloadChunkFromNode_def putMetadataToNode_def getMetadataFromNode_def with_connection_def
  show ?thesis unfolding defs e n by simp
qed

theorem address_errors_witness:
  "\<forall>c net f. uploadChunkToNode 0 c ''localhost'' net = (Ret False, net) \<and>
     getMetadataFromNode 0 (''localhost'' @ '':'' @ ''http'') f net = (Throw Invalid_argument, net)"
  using address_errors [of "''localhost''" "''http''" 0] by (simp add: is_digit_def is_space_def)

end
