(* ===== verification/Programs.thy ===== *)
theory Programs
  imports Node_Config Client_Behaviour
begin

text \<open>
  The programs under \<^verbatim>\<open>src/apps/\<close>: \<open>metadata_main\<close> (\<^verbatim>\<open>main_metadata_node.cpp\<close>),
  \<open>storage_main\<close> (\<^verbatim>\<open>main_storage_node.cpp\<close>), \<open>client_main\<close> (\<^verbatim>\<open>main_client.cpp\<close>) and
  \<open>verify_main\<close> (\<^verbatim>\<open>main_verify_files.cpp\<close>). \<open>argv\<close> includes the program name. A server
  program ends in \<open>Exit\<close> or goes on to run a node on a port; console output is not
  modelled. \<open>std::sort\<close> on the node list is the stable sort; identifiers that repeat leave
  the order of the original unspecified, and the properties ask for distinct ones.
\<close>

section \<open>The programs\<close>

datatype 'n started = Exit int | Run 'n int

text \<open>The search for the successor of node \<open>i\<close> in the sorted list of metadata nodes.\<close>

fun next_of :: "int \<Rightarrow> node_info list \<Rightarrow> string \<times> int" where
  "next_of i [] = ([], -1)"
| "next_of i (n # ns) =
     (if node_id n = i then (case ns of [] \<Rightarrow> ([], -1) | m # ms \<Rightarrow> (node_host m, node_port m)) else next_of i ns)"

definition metadata_chain :: "node_info list \<Rightarrow> node_info list" where
  "metadata_chain nodes = sort_key node_id (filter (\<lambda>n. 11 \<le> node_id n) nodes)"

definition metadata_main :: "file_system \<Rightarrow> string list \<Rightarrow> exn + metadata_node started" where
  "metadata_main fs argv =
     (if length argv \<noteq> 3 then Inr (Exit 1)
      else case stoi (argv ! 2) of
             Inl e \<Rightarrow> Inl e
           | Inr nodeId \<Rightarrow>
               let config = new_node_config fs (argv ! 1) nodeId; myNode = getMyNode config in
               if node_port myNode = 0 \<and> node_host myNode = [] then Inr (Exit 1)
               else
                 let (nextIp, nextPort) = next_of nodeId (metadata_chain (getAllNodes_config config))
                 in Inr (Run (new_metadata_node nextIp nextPort (node_port myNode)) (node_port myNode)))"

definition storage_main :: "file_system \<Rightarrow> string list \<Rightarrow> exn + storage_node started" where
  "storage_main fs argv =
     (if length argv \<noteq> 3 then Inr (Exit 1)
      else case stoi (argv ! 2) of
             Inl e \<Rightarrow> Inl e
           | Inr nodeId \<Rightarrow>
               let myNode = getMyNode (new_node_config fs (argv ! 1) nodeId) in
               if node_port myNode = 0 \<and> node_host myNode = [] then Inr (Exit 1)
               else Inr (Run new_storage_node (node_port myNode)))"

text \<open>
  The client program: the value is the exit status. It is \<open>0\<close> whenever the call returns,
  whatever the call reported on the console.
\<close>

definition client_main :: "nat \<Rightarrow> file_system \<Rightarrow> string list \<Rightarrow> network \<Rightarrow> int outcome \<times> file_system \<times> network" where
  "client_main fuel fs argv net =
     (if length argv < 3 then (Ret 1, fs, net)
      else
        let cl = new_client [''127.0.0.1:8001'', ''127.0.0.1:8002'']
                   [''127.0.0.1:9001'', ''127.0.0.1:9002'', ''127.0.0.1:9003''];
            command = argv ! 1; arg1 = argv ! 2
        in
        if command = ''upload'' then
          (case uploadFile fuel cl fs arg1 net of
             (Ret report, net) \<Rightarrow> (Ret 0, fs, net)
           | (Throw e, net) \<Rightarrow> (Throw e, fs, net)
           | (Hang, net) \<Rightarrow> (Hang, fs, net))
        else if command = ''download'' then
          if length argv < 4 then (Ret 1, fs, net)
          else
            (case downloadFile fuel cl arg1 (argv ! 3) fs net of
               (Ret report, fs, net) \<Rightarrow> (Ret 0, fs, net)
             | (Throw e, fs, net) \<Rightarrow> (Throw e, fs, net)
             | (Hang, fs, net) \<Rightarrow> (Hang, fs, net))
        else (Ret 1, fs, net))"

definition verify_main :: "file_system \<Rightarrow> string list \<Rightarrow> int" where
  "verify_main fs argv =
     (if length argv \<noteq> 3 then 1
      else
        let originalCID = computeCID fs (argv ! 1) in
        if originalCID = [] then 1
        else
          let reconstructedCID = computeCID fs (argv ! 2) in
          if reconstructedCID = [] then 1
          else if originalCID = reconstructedCID then 0 else 1)"

section \<open>The chain of a configuration\<close>

lemma next_of_split:
  "distinct (map node_id (pre @ n # post)) \<Longrightarrow>
   next_of (node_id n) (pre @ n # post) = (case post of [] \<Rightarrow> ([], -1) | m # ms \<Rightarrow> (node_host m, node_port m))"
  by (induction pre) auto

lemma metadata_chain_distinct: "distinct (map node_id ns) \<Longrightarrow> distinct (map node_id (metadata_chain ns))"
proof -
  assume "distinct (map node_id ns)"
  then have "distinct (map node_id (filter (\<lambda>n. 11 \<le> node_id n) ns))" by (rule distinct_map_filter)
  moreover have "mset (map node_id (metadata_chain ns)) = mset (map node_id (filter (\<lambda>n. 11 \<le> node_id n) ns))"
    by (simp add: metadata_chain_def)
  ultimately show ?thesis using mset_eq_imp_distinct_iff by blast
qed

lemma set_metadata_chain [simp]: "set (metadata_chain ns) = {n \<in> set ns. 11 \<le> node_id n}"
  by (simp add: metadata_chain_def)

lemma metadata_main_eq:
  assumes "config_nodes (new_node_config fs path (node_id n)) = ns" and "myNodeId (new_node_config fs path (node_id n)) = node_id n"
    and "distinct (map node_id ns)" and "n \<in> set ns" and "wf_node n"
  shows "metadata_main fs [prog, path, to_string (node_id n)] =
    (let (ip, port) = next_of (node_id n) (metadata_chain ns)
     in Inr (Run (new_metadata_node ip port (node_port n)) (node_port n)))"
proof -
  have "stoi (to_string (node_id n)) = Inr (node_id n)" using assms(5) by (simp add: wf_node_def text_simps)
  moreover have "getMyNode (new_node_config fs path (node_id n)) = n"
    using first_with_unique [OF assms(3,4)] assms(1,2) by (simp add: getMyNode_def)
  moreover have "node_host n \<noteq> []" using assms(5) by (auto simp: wf_node_def is_word_def)
  ultimately show ?thesis using assms(1) by (simp add: metadata_main_def getAllNodes_config_def)
qed

lemma linked_suffix:
  assumes "distinct (map node_id ms)" and "ms = pre @ n # post"
    and "\<And>m. m \<in> set ms \<Longrightarrow> endpoint_of net (node_host m) (node_port m) = Some (ep m) \<and> node_port m \<noteq> -1"
    and "\<And>m. m \<in> set ms \<Longrightarrow> metadata_at (ep m) net =
        (let (ip, port) = next_of (node_id m) ms in Some (new_metadata_node ip port (node_port m)))"
  shows "linked net (map ep (n # post)) \<and>
    (\<exists>t. metadata_at (last (map ep (n # post))) net = Some t \<and> role_of t = TAIL)"
  using assms(2)
proof (induction post arbitrary: pre n)
  case Nil
  then have "next_of (node_id n) ms = ([], -1)" using next_of_split [of pre n "[]"] assms(1) by simp
  moreover have "n \<in> set ms" using Nil by simp
  ultimately have "metadata_at (ep n) net = Some (new_metadata_node [] (-1) (node_port n))" using assms(4) by fastforce
  then show ?case by (simp add: new_metadata_node_def)
next
  case (Cons m post)
  have mem: "n \<in> set ms" "m \<in> set ms" using Cons.prems by simp_all
  have "next_of (node_id n) ms = (node_host m, node_port m)"
    using next_of_split [of pre n "m # post"] assms(1) Cons.prems by simp
  then have n: "metadata_at (ep n) net = Some (new_metadata_node (node_host m) (node_port m) (node_port n))"
    using assms(4) [OF mem(1)] by simp
  have "ms = (pre @ [n]) @ m # post" using Cons.prems by simp
  from Cons.IH [OF this] show ?case
    using n assms(3) [OF mem(2)] by (simp add: new_metadata_node_def forwards_def)
qed

section \<open>Properties\<close>

text \<open>
  C25: A deployment started from one configuration file is a replication chain. When every
  metadata node of the file (identifier 11 or more) runs the node that \<open>metadata_main\<close>
  starts for its identifier, at its own address, the nodes in the order of their identifiers
  form a linked chain whose last node, and only it, is the tail; \<open>chain_put\<close> applies to it.
\<close>
theorem configured_chain_linked:
  assumes "\<forall>n. Inl n \<in> set es \<longrightarrow> wf_node n" and "\<forall>s. Inr s \<in> set es \<longrightarrow> newline \<notin> set s"
    and "files fs path = Some (bytes_of_string (config_text es))" and "distinct (map node_id (node_entries es))"
    and "ms = metadata_chain (node_entries es)" and "ms \<noteq> []"
    and "\<forall>n \<in> set ms. endpoint_of net (node_host n) (node_port n) = Some (ep n) \<and> node_port n \<noteq> -1"
    and "\<forall>n \<in> set ms. \<exists>node. metadata_main fs [prog, path, to_string (node_id n)] = Inr (Run node (node_port n)) \<and>
           metadata_at (ep n) net = Some node"
  shows "linked net (map ep ms) \<and> (\<exists>t. metadata_at (last (map ep ms)) net = Some t \<and> role_of t = TAIL)"
proof -
  obtain n post where ms: "ms = n # post" using assms(6) by (cases ms) auto
  have "distinct (map node_id ms)" unfolding assms(5) using assms(4) by (rule metadata_chain_distinct)
  moreover have "metadata_at (ep m) net = (let (ip, port) = next_of (node_id m) ms in Some (new_metadata_node ip port (node_port m)))"
    if m: "m \<in> set ms" for m
  proof -
    have mem: "m \<in> set (node_entries es)" using m assms(5) by simp
    have "wf_node m" using mem assms(1) by (simp add: in_node_entries)
    moreover have "myNodeId (new_node_config fs path (node_id m)) = node_id m"
      using assms(3) by (simp add: new_node_config_def loadConfig_def)
    ultimately have "metadata_main fs [prog, path, to_string (node_id m)] =
        (let (ip, port) = next_of (node_id m) ms in Inr (Run (new_metadata_node ip port (node_port m)) (node_port m)))"
      using metadata_main_eq [OF load_config_text [OF assms(1-3)] _ assms(4) mem] by (simp add: assms(5))
    then show ?thesis using assms(8) m by (auto simp: Let_def split: prod.splits)
  qed
  ultimately show ?thesis
    using linked_suffix [of ms "[]" n post net ep] ms assms(7) by auto
qed

definition wit_tail :: node_info where
  "wit_tail = \<lparr>node_id = 12, node_host = ''127.0.0.1'', node_port = 9002\<rparr>"

definition two_nodes :: network where
  "two_nodes = \<lparr>resolve = local_resolve, hosts =
     [local_ep 9001 \<mapsto> MetadataServer (new_metadata_node ''127.0.0.1'' 9002 9001),
      local_ep 9002 \<mapsto> MetadataServer (new_metadata_node [] (-1) 9002)]\<rparr>"

abbreviation two_lines :: "(node_info + string) list" where
  "two_lines \<equiv> [Inl wit_tail, Inr '' the chain'', Inl wit_node]"

lemma two_lines_facts:
  "\<forall>n. Inl n \<in> set two_lines \<longrightarrow> wf_node n" "\<forall>s. Inr s \<in> set two_lines \<longrightarrow> newline \<notin> set s"
  "files (config_fs two_lines) ''nodes.conf'' = Some (bytes_of_string (config_text two_lines))"
  "distinct (map node_id (node_entries two_lines))" "metadata_chain (node_entries two_lines) = [wit_node, wit_tail]"
  by (simp_all add: wit_node_def wit_tail_def wf_node_def is_word_def is_space_def config_fs_def metadata_chain_def)

lemma two_lines_main:
  assumes "n = wit_node \<or> n = wit_tail"
  shows "metadata_main (config_fs two_lines) [''prog'', ''nodes.conf'', to_string (node_id n)] =
    (let (ip, port) = next_of (node_id n) [wit_node, wit_tail] in Inr (Run (new_metadata_node ip port (node_port n)) (node_port n)))"
proof -
  have "config_nodes (new_node_config (config_fs two_lines) ''nodes.conf'' (node_id n)) = node_entries two_lines"
    by (rule load_config_text [OF two_lines_facts(1-3)])
  moreover have "myNodeId (new_node_config (config_fs two_lines) ''nodes.conf'' (node_id n)) = node_id n"
    by (simp add: new_node_config_def loadConfig_def config_fs_def)
  moreover have "n \<in> set (node_entries two_lines)" "wf_node n"
    using assms two_lines_facts(1) by auto
  ultimately show ?thesis using metadata_main_eq [OF _ _ two_lines_facts(4)] two_lines_facts(5) by metis
qed

theorem configured_chain_linked_witness:
  "linked two_nodes [local_ep 9001, local_ep 9002]"
proof -
  let ?ep = "\<lambda>n. local_ep (word_of_int (node_port n))"
  have "linked two_nodes (map ?ep [wit_node, wit_tail]) \<and>
    (\<exists>t. metadata_at (last (map ?ep [wit_node, wit_tail])) two_nodes = Some t \<and> role_of t = TAIL)"
  proof (rule configured_chain_linked [OF two_lines_facts(1-4) two_lines_facts(5) [symmetric], where prog = "''prog''"])
    show "\<forall>n \<in> set [wit_node, wit_tail]. endpoint_of two_nodes (node_host n) (node_port n) = Some (?ep n) \<and> node_port n \<noteq> -1"
      by (simp add: wit_node_def wit_tail_def endpoint_of_def two_nodes_def local_resolve_def)
    show "\<forall>n \<in> set [wit_node, wit_tail]. \<exists>node.
        metadata_main (config_fs two_lines) [''prog'', ''nodes.conf'', to_string (node_id n)] = Inr (Run node (node_port n)) \<and>
        metadata_at (?ep n) two_nodes = Some node"
      using two_lines_main [of wit_node] two_lines_main [of wit_tail]
      by (simp add: wit_node_def wit_tail_def metadata_at_def two_nodes_def)
  qed simp
  then show ?thesis by (simp add: wit_node_def wit_tail_def)
qed

text \<open>
  C26: The command line round trip. On a healthy cluster at the addresses built into
  \<open>client_main\<close>, uploading a carriable file exits with \<open>0\<close>; after any one server except the
  tail has gone down, downloading it on the same machine exits with \<open>0\<close> and
  \<open>verify_main\<close>, given the original and the downloaded file, exits with \<open>0\<close>
  (\<^verbatim>\<open>VERIFIED\<close>).
\<close>
theorem cli_round_trip:
  assumes "healthy net wit_client es" and "carriable fs path d" and "collision_free fs path" and "length es \<le> Suc fuel"
  shows "\<exists>net1. client_main fuel fs [prog, ''upload'', path] net = (Ret 0, fs, net1) \<and>
    (\<forall>x out. x \<noteq> last es \<and> creatable fs out \<longrightarrow>
      (\<exists>fs'. client_main fuel fs [prog, ''download'', base_name path, out] (crash x net1) = (Ret 0, fs', crash x net1) \<and>
        files fs' out = Some d \<and> verify_main fs' [prog', path, out] = 0))"
proof -
  obtain net1 where up: "uploadFile fuel wit_client fs path net = (Ret (Uploaded (hd (metadataNodes wit_client))), net1)"
    and down: "\<And>x fs2 out. x \<noteq> last es \<Longrightarrow> creatable fs2 out \<Longrightarrow>
      downloadFile fuel wit_client (base_name path) out fs2 (crash x net1) =
        (Ret Reconstructed, fs2\<lparr>files := (files fs2)(out \<mapsto> d)\<rparr>, crash x net1)"
    using upload_then_download [OF assms] lost_crash by meson
  have "client_main fuel fs [prog, ''upload'', path] net = (Ret 0, fs, net1)"
    using up by (simp add: client_main_def wit_client_def)
  moreover have "\<exists>fs'. client_main fuel fs [prog, ''download'', base_name path, out] (crash x net1) = (Ret 0, fs', crash x net1) \<and>
        files fs' out = Some d \<and> verify_main fs' [prog', path, out] = 0"
    if x: "x \<noteq> last es" and out: "creatable fs out" for x out
  proof -
    let ?fs = "fs\<lparr>files := (files fs)(out \<mapsto> d)\<rparr>"
    have f: "files ?fs path = Some d" "files ?fs out = Some d" "d \<noteq> []" using assms(2) by (auto simp: carriable_def)
    then have "computeCID ?fs path = computeCID ?fs out" by (intro computeCID_cong) simp
    moreover have "computeCID ?fs out \<noteq> []" using f by (simp add: computeCID_empty)
    ultimately have "verify_main ?fs [prog', path, out] = 0" by (simp add: verify_main_def)
    then show ?thesis using down [OF x out] f(2) by (simp add: client_main_def wit_client_def)
  qed
  ultimately show ?thesis by blast
qed

theorem cli_round_trip_witness:
  "\<exists>net1 fs'. client_main 2 wit_fs [''client'', ''upload'', ''a.txt''] startCluster = (Ret 0, wit_fs, net1) \<and>
     verify_main fs' [''verify'', ''a.txt'', ''out''] = 0"
proof -
  have "length local_chain \<le> Suc 2" "local_ep 8001 \<noteq> last local_chain" by (simp_all add: local_chain_def)
  moreover have "creatable wit_fs ''out''" by (simp add: wit_fs_def)
  ultimately show ?thesis using cli_round_trip [OF healthy_local wit_file, of 2 "''client''" "''verify''"] by blast
qed

end
