(* ===== verification/System_Tests.thy ===== *)
theory System_Tests
  imports Programs Chain_Register
begin

text \<open>
  The scenarios of \<^verbatim>\<open>src/apps/main_system_tests.cpp\<close> and the cluster control of
  \<^verbatim>\<open>src/apps/main_performance_experiments.cpp\<close>: stopping nodes by \<open>DIE\<close>, the storage
  failure test and the binary file test, run to their verdicts. The concurrent client test
  is in \<open>Concurrent_Clients\<close>, the program that runs all three in \<open>Test_Suite\<close> and the
  measurements in \<open>Performance\<close>. A test that removes its files does so here too; a removed
  file is one that is no longer readable.
\<close>

section \<open>Stopping nodes\<close>

definition killNode :: "nat \<Rightarrow> int \<Rightarrow> network \<Rightarrow> network" where
  "killNode fuel port net =
     (case connect net ''127.0.0.1'' port of
        None \<Rightarrow> net
      | Some client \<Rightarrow> snd (sendMessage (serve fuel) ''DIE'' client net))"

definition kill_nodes :: "nat \<Rightarrow> int list \<Rightarrow> network \<Rightarrow> network" where
  "kill_nodes fuel ports net = foldl (\<lambda>net port. killNode fuel port net) net ports"

section \<open>Starting nodes\<close>

text \<open>
  The helpers of the test programs: a thread that makes a node and runs its \<open>start\<close>. In
  the network this is a new server at the port of the local machine.
\<close>

definition startStorageNode :: "int \<Rightarrow> network \<Rightarrow> network" where
  "startStorageNode port net = set_host (local_ep (word_of_int port)) (StorageServer new_storage_node) net"

definition startMetadataNode :: "int \<Rightarrow> string \<Rightarrow> int \<Rightarrow> network \<Rightarrow> network" where
  "startMetadataNode port nextIp nextPort net =
     set_host (local_ep (word_of_int port)) (MetadataServer (new_metadata_node nextIp nextPort port)) net"

text \<open>\<open>startCluster(storageCount)\<close> and \<open>stopCluster(storageCount)\<close> of the experiments.\<close>

fun start_storage :: "nat \<Rightarrow> network \<Rightarrow> network" where
  "start_storage 0 net = net"
| "start_storage (Suc i) net = startStorageNode (8000 + int (Suc i)) (start_storage i net)"

definition startCluster_of :: "nat \<Rightarrow> network" where
  "startCluster_of storageCount =
     (let net = start_storage storageCount \<lparr>resolve = local_resolve, hosts = Map.empty\<rparr>;
          net = startMetadataNode 9003 [] (-1) net;
          net = startMetadataNode 9002 ''127.0.0.1'' 9003 net
      in startMetadataNode 9001 ''127.0.0.1'' 9002 net)"

text \<open>The fixed cluster of \<open>Cluster\<close> is what the other two programs start, node by node.\<close>

lemma startCluster_node_by_node:
  "startMetadataNode 9001 ''127.0.0.1'' 9002 (startMetadataNode 9002 ''127.0.0.1'' 9003 (startMetadataNode 9003 [] (-1)
     (startStorageNode 8002 (startStorageNode 8001 \<lparr>resolve = local_resolve, hosts = Map.empty\<rparr>)))) = startCluster"
  by (simp add: startMetadataNode_def startStorageNode_def startCluster_def set_host_def)

lemma startStorageNode_nat: "startStorageNode (int n) = set_host (local_ep (word_of_nat n)) (StorageServer new_storage_node)"
  by (simp add: startStorageNode_def fun_eq_iff)

lemma start_storage_Suc [simp]:
  "start_storage (Suc i) net =
     set_host (local_ep (word_of_nat (8000 + Suc i))) (StorageServer new_storage_node) (start_storage i net)"
  using startStorageNode_nat [of "8000 + Suc i"] by simp

declare start_storage.simps(2) [simp del] startMetadataNode_def [simp]

definition stopCluster :: "nat \<Rightarrow> nat \<Rightarrow> network \<Rightarrow> network" where
  "stopCluster fuel storageCount net =
     kill_nodes fuel (map (\<lambda>i. 8000 + int i) [1..<Suc storageCount] @ [9001, 9002, 9003]) net"

section \<open>The tests\<close>

definition remove_file :: "string \<Rightarrow> file_system \<Rightarrow> file_system" where
  "remove_file path fs = fs\<lparr>files := (files fs)(path := None)\<rparr>"

definition write_file :: "string \<Rightarrow> bytes \<Rightarrow> file_system \<Rightarrow> file_system" where
  "write_file path d fs = (if creatable fs path then fs\<lparr>files := (files fs)(path \<mapsto> d)\<rparr> else fs)"

definition test_client :: client where
  "test_client = new_client [''127.0.0.1:8001'', ''127.0.0.1:8002'']
     [''127.0.0.1:9001'', ''127.0.0.1:9002'', ''127.0.0.1:9003'']"

text \<open>The value is the verdict: \<open>True\<close> for \<^verbatim>\<open>[PASS]\<close>.\<close>

definition testStorageFailure :: "nat \<Rightarrow> file_system \<Rightarrow> bool outcome \<times> file_system \<times> network" where
  "testStorageFailure fuel fs =
     (let net = startCluster; filename = ''test_storage_fail.txt'';
          fs = write_file filename (bytes_of_string ''Data that should survive storage node failure.'') fs
      in
      case uploadFile fuel test_client fs filename net of
        (Ret report, net) \<Rightarrow>
          (let net = killNode fuel 8001 net; outFilename = ''test_storage_fail_out.txt'' in
           case downloadFile fuel test_client filename outFilename fs net of
             (Ret report, fs, net) \<Rightarrow>
               let verdict = (computeCID fs filename = computeCID fs outFilename);
                   net = kill_nodes fuel [8002, 9001, 9002, 9003] net
               in (Ret verdict, remove_file outFilename (remove_file filename fs), net)
           | (Throw e, fs, net) \<Rightarrow> (Throw e, fs, net)
           | (Hang, fs, net) \<Rightarrow> (Hang, fs, net))
      | (Throw e, net) \<Rightarrow> (Throw e, fs, net)
      | (Hang, net) \<Rightarrow> (Hang, fs, net))"

text \<open>The loop of the binary file test; a file that cannot be read is skipped.\<close>

fun test_files :: "nat \<Rightarrow> string list \<Rightarrow> file_system \<Rightarrow> network \<Rightarrow> (string \<times> bool) list outcome \<times> file_system \<times> network" where
  "test_files fuel [] fs net = (Ret [], fs, net)"
| "test_files fuel (filename # others) fs net =
     (if files fs filename = None then test_files fuel others fs net
      else
        case uploadFile fuel test_client fs filename net of
          (Ret report, net) \<Rightarrow>
            (let outFilename = ''restored_'' @ filename in
             case downloadFile fuel test_client filename outFilename fs net of
               (Ret report, fs, net) \<Rightarrow>
                 (let verdict = (computeCID fs filename = computeCID fs outFilename) in
                  case test_files fuel others (remove_file outFilename fs) net of
                    (Ret vs, fs, net) \<Rightarrow> (Ret ((filename, verdict) # vs), fs, net)
                  | (Throw e, fs, net) \<Rightarrow> (Throw e, fs, net)
                  | (Hang, fs, net) \<Rightarrow> (Hang, fs, net))
             | (Throw e, fs, net) \<Rightarrow> (Throw e, fs, net)
             | (Hang, fs, net) \<Rightarrow> (Hang, fs, net))
        | (Throw e, net) \<Rightarrow> (Throw e, fs, net)
        | (Hang, net) \<Rightarrow> (Hang, fs, net))"

definition testBinaryFiles :: "nat \<Rightarrow> file_system \<Rightarrow> (string \<times> bool) list outcome \<times> file_system \<times> network" where
  "testBinaryFiles fuel fs =
     (case test_files fuel [''test_image.jpg'', ''test_pdf.pdf''] fs startCluster of
        (Ret vs, fs, net) \<Rightarrow> (Ret vs, fs, kill_nodes fuel [8001, 8002, 9001, 9002, 9003] net)
      | (Throw e, fs, net) \<Rightarrow> (Throw e, fs, net)
      | (Hang, fs, net) \<Rightarrow> (Hang, fs, net))"

section \<open>The effect of DIE\<close>

definition shut :: "endpoint \<Rightarrow> network \<Rightarrow> network" where
  "shut e net = (if up_at net e then
      (case hosts net e of
         None \<Rightarrow> net
       | Some (StorageServer n) \<Rightarrow> set_host e (StorageServer (n\<lparr>storage_running := False\<rparr>)) net
       | Some (MetadataServer n) \<Rightarrow> set_host e (MetadataServer (n\<lparr>meta_running := False\<rparr>)) net)
    else net)"

lemma serve_DIE:
  assumes "up_at net e"
  shows "serve fuel e AwaitCommand (bytes_of_string ''DIE'') net = (Closed, [], shut e net)"
proof -
  have w: "read_word [] (open_stream ''DIE'') = (''DIE'', \<lparr>rest = [], failed = False\<rparr>)" by (rule read_word_bare) simp
  show ?thesis
  proof (cases "the (hosts net e)")
    case (StorageServer n)
    then show ?thesis using assms w
      by (auto simp: up_at_def serve_def serve_with_def storage_step_def storage_command_def shut_def split: option.splits)
  next
    case (MetadataServer n)
    then show ?thesis using assms w
      by (auto simp: up_at_def serve_def serve_with_def metadata_step_def metadata_command_def shut_def split: option.splits)
  qed
qed

lemma killNode_eq:
  assumes "endpoint_of net ''127.0.0.1'' port = Some e"
  shows "killNode fuel port net = shut e net"
proof (cases "up_at net e")
  case True
  then have "connect net ''127.0.0.1'' port = Some (fresh e)" using assms by (auto simp: connect_def up_at_def split: option.splits)
  moreover have "sendMessage (serve fuel) ''DIE'' (fresh e) net =
      ((fresh e)\<lparr>ctl := Closed, to_client := to_client (fresh e) @ concat (map frame [])\<rparr>, shut e net)"
    using serve_DIE [OF True, of fuel] unfolding sendMessage_def by (intro sendData_once) (simp_all add: fresh_def)
  ultimately show ?thesis by (simp add: killNode_def)
next
  case False
  then have "connect net ''127.0.0.1'' port = None" using assms by (auto simp: connect_def up_at_def split: option.splits)
  then show ?thesis using False by (simp add: killNode_def shut_def)
qed

lemma shut_frame [simp]:
  "endpoint_of (shut e net) = endpoint_of net" "up_at (shut e net) f = (up_at net f \<and> f \<noteq> e)"
  "f \<noteq> e \<Longrightarrow> hosts (shut e net) f = hosts net f"
  by (auto simp: shut_def up_at_def split: option.splits server.splits)

lemma lost_shut: "lost e net (shut e net)"
proof -
  have "addr_ep (shut e net) = addr_ep net" by (rule addr_ep_cong) simp
  moreover have "chunk_at f h (shut e net) = (if f = e then None else chunk_at f h net)" for f h
    by (cases "f = e") (auto simp: chunk_at_def shut_def up_at_def split: option.splits server.splits)
  moreover have "metadata_at f (shut e net) = metadata_at f net" if "f \<noteq> e" for f using that by (simp add: metadata_at_def)
  moreover have "storage_place (shut e net) f" if "storage_place net f" for f
    using that by (cases "f = e") (auto simp: storage_place_def shut_def split: option.splits server.splits)
  ultimately show ?thesis unfolding lost_def by blast
qed

lemma kill_nodes_eq:
  assumes "\<forall>p \<in> set ps. endpoint_of net ''127.0.0.1'' p = Some (ep p)"
  shows "kill_nodes fuel ps net = foldl (\<lambda>net p. shut (ep p) net) net ps"
  using assms by (induction ps arbitrary: net) (simp_all add: kill_nodes_def killNode_eq)

lemma up_at_shuts: "up_at (foldl (\<lambda>net p. shut (ep p) net) net ps) f \<longleftrightarrow> up_at net f \<and> f \<notin> ep ` set ps"
  by (induction ps arbitrary: net) auto

text \<open>After killing ports \<open>ps\<close> of the local cluster what is up is what was up elsewhere.\<close>

lemma endpoint_of_local: "endpoint_of startCluster ''127.0.0.1'' p = Some (local_ep (word_of_int p))"
  by (simp add: endpoint_of_def startCluster_def local_resolve_def)

lemma up_at_kill_nodes:
  assumes "endpoint_of net = endpoint_of startCluster"
  shows "up_at (kill_nodes fuel ps net) f \<longleftrightarrow> up_at net f \<and> f \<notin> (\<lambda>p. local_ep (word_of_int p)) ` set ps"
  using kill_nodes_eq [of ps net "\<lambda>p. local_ep (word_of_int p)" fuel] up_at_shuts assms endpoint_of_local by simp

section \<open>Upload after upload\<close>

lemma up_at_write_to [simp]: "up_at (write_to m e net) f = up_at net f"
  by (auto simp: up_at_def write_to_def metadata_at_host split: option.splits)

lemma up_at_write_all [simp]: "up_at (write_all m es net) f = up_at net f"
  by (induction m es net rule: write_all.induct) simp_all

lemma after_upload_frame [simp]:
  "endpoint_of (after_upload net cl fs path es) = endpoint_of net" "addr_ep (after_upload net cl fs path es) = addr_ep net"
  "up_at (after_upload net cl fs path es) f = up_at net f" "storage_place (after_upload net cl fs path es) f = storage_place net f"
  by (simp_all add: after_upload_def)

lemma healthy_after_upload:
  assumes "healthy net cl es" shows "healthy (after_upload net cl fs path es) cl es"
proof -
  obtain e es' t where h: "es = e # es'" "linked net es" "distinct es" "metadata_at (last es) net = Some t" "role_of t = TAIL \<or> role_of t = SINGLE"
    using assms by (cases es) (auto simp: healthy_def)
  have "metadata_at f (after_upload net cl fs path es) = (if f \<in> set es then map_option (stored (file_record fs path)) (metadata_at f net)
      else metadata_at f net)" for f
    using metadata_at_write_all [OF h(3)] by (simp add: after_upload_def)
  moreover have "linked (after_upload net cl fs path es) es"
    using linked_write_all_self [of _ es es] linked_cong [of "store_all _ net" net es] h(2,3) by (simp add: after_upload_def)
  moreover have "last es \<in> set es" using h(1) by simp
  ultimately show ?thesis using assms h(4,5) by (simp add: healthy_def)
qed

lemma hosts_put_chunk_None: "hosts net x = None \<Longrightarrow> hosts (put_chunk c e net) x = None"
  by (auto simp: put_chunk_def split: option.splits server.splits)

lemma hosts_store_all_None: "hosts net x = None \<Longrightarrow> hosts (store_all ps net) x = None"
  by (induction ps arbitrary: net) (simp_all add: hosts_put_chunk_None)

lemma hosts_after_upload_None:
  assumes "healthy net cl es" and "hosts net x = None"
  shows "hosts (after_upload net cl fs path es) x = None" and "x \<noteq> last es"
proof -
  have "\<exists>n. metadata_at f net = Some n" if "f \<in> set es" for f
    using linked_member that assms(1) by (fastforce simp: healthy_def)
  then have x: "x \<notin> set es" using assms(2) by (metis metadata_at_host option.distinct(1))
  then show "hosts (after_upload net cl fs path es) x = None"
    using hosts_store_all_None [OF assms(2)] by (simp add: after_upload_def hosts_write_all)
  show "x \<noteq> last es" using assms by (auto simp: healthy_def metadata_at_host)
qed

lemma crash_nobody: "hosts net x = None \<Longrightarrow> crash x net = net"
  by (simp add: crash_def fun_upd_idem)

lemma upload_download_same:
  assumes "healthy net cl es" and "hosts net x = None" and "carriable fs path d" and "collision_free fs path"
    and "length es \<le> Suc fuel" and "creatable fs2 out"
  shows "uploadFile fuel cl fs path net = (Ret (Uploaded (hd (metadataNodes cl))), after_upload net cl fs path es) \<and>
    downloadFile fuel cl (base_name path) out fs2 (after_upload net cl fs path es) =
      (Ret Reconstructed, fs2\<lparr>files := (files fs2)(out \<mapsto> d)\<rparr>, after_upload net cl fs path es)"
proof -
  note up = upload_healthy [OF assms(1,3,5)]
  note x = hosts_after_upload_None [OF assms(1,2)]
  have "lost x (after_upload net cl fs path es) (after_upload net cl fs path es)"
    using lost_crash [of x "after_upload net cl fs path es"] crash_nobody [OF x(1)] by simp
  from download_after_upload [OF assms(1,3,4) this x(2) assms(6)] up show ?thesis by blast
qed

lemma test_client_eq: "test_client = wit_client"
  by (simp add: test_client_def wit_client_def)

lemma up_startCluster: "up_at startCluster e \<Longrightarrow> e \<in> local_ep ` {8001, 8002, 9001, 9002, 9003}"
  by (auto simp: up_at_def startCluster_def split: option.splits if_splits)

section \<open>The tests pass\<close>

text \<open>
  The storage failure test passes. On any machine where its two files can be created,
  the upload, the death of the storage node on port 8001, the download and the comparison of
  the content identifiers run through with the verdict \<^verbatim>\<open>[PASS]\<close>; afterwards every server
  is down and both files are gone.
\<close>
theorem storage_failure_test_passes:
  assumes "creatable fs ''test_storage_fail.txt''" and "creatable fs ''test_storage_fail_out.txt''" and "2 \<le> fuel"
  shows "\<exists>fs' net'. testStorageFailure fuel fs = (Ret True, fs', net') \<and> (\<forall>e. \<not> up_at net' e) \<and>
    fs' = fs\<lparr>files := (files fs)(''test_storage_fail.txt'' := None, ''test_storage_fail_out.txt'' := None)\<rparr>"
proof -
  define f where "f = ''test_storage_fail.txt''"
  define out where "out = ''test_storage_fail_out.txt''"
  define d where "d = bytes_of_string ''Data that should survive storage node failure.''"
  have names: "f \<noteq> out" "base_name f = f" "is_word f" "length f = 21"
    by (simp_all add: f_def out_def base_name_def after_last_of_def is_word_def is_space_def)
  have len: "length d = 46" "d \<noteq> []" by (simp_all add: d_def)
  define fs1 where "fs1 = fs\<lparr>files := (files fs)(f \<mapsto> d)\<rparr>"
  have w: "write_file f d fs = fs1" using assms(1) by (simp add: write_file_def fs1_def f_def)
  have c: "carriable fs1 f d" using names len by (simp add: carriable_def fs1_def)
  have "length (file_chunks fs1 f) = 1" using len by (simp add: file_chunks_eq [OF c] read_chunks_count CHUNK_SIZE_def)
  then obtain b where "file_chunks fs1 f = [b]" by (auto simp: length_Suc_conv)
  then have free: "collision_free fs1 f" by (simp add: collision_free_def)
  have lc: "length local_chain \<le> Suc fuel" "local_ep 8001 \<noteq> last local_chain" using assms(3) by (simp_all add: local_chain_def)
  let ?net1 = "after_upload startCluster wit_client fs1 f local_chain"
  have kill: "killNode fuel 8001 ?net1 = shut (local_ep 8001) ?net1"
    using endpoint_of_local [of 8001] by (intro killNode_eq) simp
  have up: "uploadFile fuel wit_client fs1 f startCluster = (Ret (Uploaded (hd (metadataNodes wit_client))), ?net1)"
    by (rule upload_healthy [OF healthy_local c lc(1)])
  have "creatable fs1 out" using assms(2) by (simp add: fs1_def out_def)
  then have down: "downloadFile fuel wit_client f out fs1 (shut (local_ep 8001) ?net1) =
      (Ret Reconstructed, fs1\<lparr>files := (files fs1)(out \<mapsto> d)\<rparr>, shut (local_ep 8001) ?net1)"
    using download_after_upload [OF healthy_local c free lost_shut lc(2), of fs1 out fuel] names(2) by simp
  have "computeCID (fs1\<lparr>files := (files fs1)(out \<mapsto> d)\<rparr>) f = computeCID (fs1\<lparr>files := (files fs1)(out \<mapsto> d)\<rparr>) out"
    by (rule computeCID_cong) (simp add: fs1_def)
  then have "testStorageFailure fuel fs = (Ret True, remove_file out (remove_file f (fs1\<lparr>files := (files fs1)(out \<mapsto> d)\<rparr>)),
      kill_nodes fuel [8002, 9001, 9002, 9003] (shut (local_ep 8001) ?net1))"
    using w up kill down
    by (simp add: testStorageFailure_def test_client_eq Let_def f_def [symmetric] out_def [symmetric] d_def [symmetric])
  moreover have "\<not> up_at (kill_nodes fuel [8002, 9001, 9002, 9003] (shut (local_ep 8001) ?net1)) e" for e
    using up_startCluster [of e] by (auto simp: up_at_kill_nodes)
  moreover have "remove_file out (remove_file f (fs1\<lparr>files := (files fs1)(out \<mapsto> d)\<rparr>)) = fs\<lparr>files := (files fs)(f := None, out := None)\<rparr>"
    using names(1) by (auto simp: remove_file_def fs1_def fun_eq_iff)
  ultimately show ?thesis unfolding f_def out_def by blast
qed

theorem storage_failure_test_passes_witness:
  "fst (testStorageFailure 2 wit_fs) = Ret True"
  using storage_failure_test_passes [of wit_fs 2] by (auto simp: wit_fs_def)

lemma test_files_pass:
  assumes "healthy net test_client es" and "hosts net x = None" and "length es \<le> Suc fuel"
    and "\<forall>f \<in> set names. files fs f = None \<or> (\<exists>d. carriable fs f d \<and> collision_free fs f \<and> base_name f = f)"
    and "\<forall>f \<in> set names. creatable fs (''restored_'' @ f) \<and> (\<forall>g \<in> set names. g \<noteq> ''restored_'' @ f)"
  shows "\<exists>fs' net'. test_files fuel names fs net = (Ret (map (\<lambda>f. (f, True)) (filter (\<lambda>f. files fs f \<noteq> None) names)), fs', net') \<and>
    endpoint_of net' = endpoint_of net \<and> up_at net' = up_at net \<and> creatable fs' = creatable fs \<and>
    (\<forall>p. p \<notin> (@) ''restored_'' ` set names \<longrightarrow> files fs' p = files fs p)"
  using assms(1,2,4,5)
proof (induction names arbitrary: fs net)
  case (Cons f names)
  show ?case
  proof (cases "files fs f")
    case None
    then show ?thesis using Cons.IH [of net fs] Cons.prems by auto
  next
    case (Some d0)
    then obtain d where d: "carriable fs f d" "collision_free fs f" "base_name f = f" using Cons.prems(3) by auto
    let ?out = "''restored_'' @ f" and ?net = "after_upload net test_client fs f es"
    let ?fs = "fs\<lparr>files := (files fs)(?out \<mapsto> d)\<rparr>"
    have "creatable fs ?out" using Cons.prems(4) by simp
    then have run: "uploadFile fuel test_client fs f net = (Ret (Uploaded (hd (metadataNodes test_client))), ?net)"
        "downloadFile fuel test_client f ?out fs ?net = (Ret Reconstructed, ?fs, ?net)"
      using upload_download_same [OF Cons.prems(1,2) d(1,2) assms(3), of fs ?out] d(3) by simp_all
    have cid: "computeCID ?fs f = computeCID ?fs ?out"
      using d(1) by (intro computeCID_cong) (simp add: carriable_def)
    let ?fs' = "remove_file ?out ?fs"
    have fs': "files ?fs' = (files fs)(?out := None)" "creatable ?fs' = creatable fs" by (simp_all add: remove_file_def)
    have other: "files ?fs' g = files fs g" if "g \<in> set names" for g using that Cons.prems(4) fs' by auto
    then have same: "carriable ?fs' g e \<longleftrightarrow> carriable fs g e" "collision_free ?fs' g \<longleftrightarrow> collision_free fs g"
      if "g \<in> set names" for g e
      using that by (simp_all add: carriable_def collision_free_def file_chunks_def splitFileIntoChunks_def)
    have "\<exists>fs'' net'. test_files fuel names ?fs' ?net = (Ret (map (\<lambda>f. (f, True)) (filter (\<lambda>f. files ?fs' f \<noteq> None) names)), fs'', net') \<and>
        endpoint_of net' = endpoint_of ?net \<and> up_at net' = up_at ?net \<and> creatable fs'' = creatable ?fs' \<and>
        (\<forall>p. p \<notin> (@) ''restored_'' ` set names \<longrightarrow> files fs'' p = files ?fs' p)"
    proof (rule Cons.IH)
      show "healthy ?net test_client es" using Cons.prems(1) by (rule healthy_after_upload)
      show "hosts ?net x = None" using hosts_after_upload_None [OF Cons.prems(1,2)] by blast
      show "\<forall>g \<in> set names. files ?fs' g = None \<or> (\<exists>d. carriable ?fs' g d \<and> collision_free ?fs' g \<and> base_name g = g)"
        using Cons.prems(3) other same by auto
      show "\<forall>f \<in> set names. creatable ?fs' (''restored_'' @ f) \<and> (\<forall>g \<in> set names. g \<noteq> ''restored_'' @ f)"
        using Cons.prems(4) fs'(2) by auto
    qed
    moreover have "filter (\<lambda>f. files ?fs' f \<noteq> None) names = filter (\<lambda>f. files fs f \<noteq> None) names"
      using other by (intro filter_cong) simp_all
    moreover have "up_at ?net = up_at net" by (rule ext) simp
    ultimately show ?thesis using run cid Some fs' by auto
  qed
qed simp

text \<open>
  The binary file test passes. Where its two input files exist and the system can carry
  them, and the restored copies can be created, the test reports \<^verbatim>\<open>[PASS]\<close> for each file
  that exists, skips the others, and leaves every server down.
\<close>
theorem binary_file_test_passes:
  assumes "\<forall>f \<in> {''test_image.jpg'', ''test_pdf.pdf''}. (files fs f = None \<or> (\<exists>d. carriable fs f d \<and> collision_free fs f)) \<and>
      creatable fs (''restored_'' @ f)" and "2 \<le> fuel"
  shows "\<exists>fs' net'. testBinaryFiles fuel fs =
      (Ret (map (\<lambda>f. (f, True)) (filter (\<lambda>f. files fs f \<noteq> None) [''test_image.jpg'', ''test_pdf.pdf''])), fs', net') \<and>
    (\<forall>e. \<not> up_at net' e) \<and> creatable fs' = creatable fs \<and>
    (\<forall>p. p \<notin> {''restored_test_image.jpg'', ''restored_test_pdf.pdf''} \<longrightarrow> files fs' p = files fs p)"
proof -
  let ?names = "[''test_image.jpg'', ''test_pdf.pdf'']"
  have h: "healthy startCluster test_client local_chain" using healthy_local by (simp add: test_client_eq)
  have b: "base_name ''test_image.jpg'' = ''test_image.jpg''" "base_name ''test_pdf.pdf'' = ''test_pdf.pdf''"
    by (simp_all add: base_name_def after_last_of_def)
  have x: "hosts startCluster (local_ep 1) = None" by (simp add: startCluster_def)
  have len: "length local_chain \<le> Suc fuel" using assms(2) by (simp add: local_chain_def)
  have f: "\<forall>f \<in> set ?names. files fs f = None \<or> (\<exists>d. carriable fs f d \<and> collision_free fs f \<and> base_name f = f)"
    using assms(1) b by auto
  have c: "\<forall>f \<in> set ?names. creatable fs (''restored_'' @ f) \<and> (\<forall>g \<in> set ?names. g \<noteq> ''restored_'' @ f)"
    using assms(1) by simp
  obtain fs' net' where run: "test_files fuel ?names fs startCluster =
      (Ret (map (\<lambda>f. (f, True)) (filter (\<lambda>f. files fs f \<noteq> None) ?names)), fs', net')"
    and ep: "endpoint_of net' = endpoint_of startCluster" "up_at net' = up_at startCluster" "creatable fs' = creatable fs"
      "\<forall>p. p \<notin> (@) ''restored_'' ` set ?names \<longrightarrow> files fs' p = files fs p"
    using test_files_pass [OF h x len f c] by blast
  have "testBinaryFiles fuel fs = (Ret (map (\<lambda>f. (f, True)) (filter (\<lambda>f. files fs f \<noteq> None) ?names)), fs',
      kill_nodes fuel [8001, 8002, 9001, 9002, 9003] net')"
    unfolding testBinaryFiles_def run by simp
  moreover have "\<not> up_at (kill_nodes fuel [8001, 8002, 9001, 9002, 9003] net') e" for e
    using up_startCluster [of e] ep(1,2) by (auto simp: up_at_kill_nodes)
  moreover have "\<forall>p. p \<notin> {''restored_test_image.jpg'', ''restored_test_pdf.pdf''} \<longrightarrow> files fs' p = files fs p"
    using ep(4) by simp
  ultimately show ?thesis using ep(3) by blast
qed

definition image_fs :: file_system where
  "image_fs = \<lparr>files = [''test_image.jpg'' \<mapsto> [0xFF, 0xD8]], creatable = (\<lambda>p. True)\<rparr>"

theorem binary_file_test_passes_witness:
  "fst (testBinaryFiles 2 image_fs) = Ret [(''test_image.jpg'', True)]"
proof -
  have c: "carriable image_fs ''test_image.jpg'' [0xFF, 0xD8]"
    by (simp add: carriable_def image_fs_def base_name_def after_last_of_def is_word_def is_space_def)
  have "length (file_chunks image_fs ''test_image.jpg'') = 1"
    by (simp add: file_chunks_eq [OF c] read_chunks_count CHUNK_SIZE_def)
  then obtain b where "file_chunks image_fs ''test_image.jpg'' = [b]" by (auto simp: length_Suc_conv)
  then have "collision_free image_fs ''test_image.jpg''" by (simp add: collision_free_def)
  then have "\<forall>f \<in> {''test_image.jpg'', ''test_pdf.pdf''}. (files image_fs f = None \<or> (\<exists>d. carriable image_fs f d \<and> collision_free image_fs f)) \<and>
      creatable image_fs (''restored_'' @ f)"
    using c by (auto simp: image_fs_def)
  from binary_file_test_passes [OF this, of 2] show ?thesis by (auto simp: image_fs_def)
qed

lemma endpoint_of_start_storage: "endpoint_of (start_storage n net) = endpoint_of net"
  by (induction n) simp_all

lemma endpoint_of_startCluster_of: "endpoint_of (startCluster_of n) = endpoint_of startCluster"
proof -
  have "resolve (startCluster_of n) = local_resolve"
  proof -
    have "resolve (start_storage n net) = resolve net" for net by (induction n) simp_all
    then show ?thesis by (simp add: startCluster_of_def Let_def)
  qed
  then show ?thesis by (simp add: endpoint_of_def startCluster_def fun_eq_iff)
qed

lemma up_start_storage:
  "up_at (start_storage n net) e \<Longrightarrow> up_at net e \<or> (\<exists>i. 1 \<le> i \<and> i \<le> n \<and> e = local_ep (word_of_nat (8000 + i)))"
proof (induction n)
  case (Suc n)
  show ?case
  proof (cases "e = local_ep (word_of_nat (8000 + Suc n))")
    case True
    then show ?thesis by (intro disjI2 exI [of _ "Suc n"]) simp
  next
    case False
    then have "up_at (start_storage n net) e" using Suc.prems by (simp add: up_at_def)
    then show ?thesis using Suc.IH by (auto intro: le_SucI)
  qed
qed simp

text \<open>
  Stopping a cluster stops all of it. For any number of storage nodes, after
  \<open>stopCluster\<close> no server that \<open>startCluster\<close> started accepts a connection any more; and
  with two storage nodes \<open>startCluster\<close> of the experiments is the cluster of the
  evaluation and of the tests.
\<close>
theorem stopped_cluster_is_down:
  "\<not> up_at (stopCluster fuel n (startCluster_of n)) e \<and> hosts (startCluster_of 2) = hosts startCluster"
proof
  have ports: "(\<lambda>p. local_ep (word_of_int p)) ` set (map (\<lambda>i. 8000 + int i) [1..<Suc n] @ [9001, 9002, 9003]) =
      {local_ep 9001, local_ep 9002, local_ep 9003} \<union> (\<lambda>i. local_ep (word_of_int (8000 + int i))) ` {1..n}"
    by (auto simp: image_Un image_comp atLeastLessThanSuc_atLeastAtMost)
  have w: "word_of_nat (8000 + i) = (word_of_int (8000 + int i) :: 16 word)" for i by simp
  have "e \<in> {local_ep 9001, local_ep 9002, local_ep 9003} \<union> (\<lambda>i. local_ep (word_of_int (8000 + int i))) ` {1..n}"
    if "up_at (startCluster_of n) e"
  proof (cases "e \<in> {local_ep 9001, local_ep 9002, local_ep 9003}")
    case False
    then have "up_at (start_storage n \<lparr>resolve = local_resolve, hosts = Map.empty\<rparr>) e"
      using that by (auto simp: startCluster_of_def up_at_def Let_def split: if_splits)
    then show ?thesis using up_start_storage [of n _ e] unfolding w by (fastforce simp: up_at_def)
  qed blast
  then show "\<not> up_at (stopCluster fuel n (startCluster_of n)) e"
    unfolding stopCluster_def up_at_kill_nodes [OF endpoint_of_startCluster_of] ports by blast
  show "hosts (startCluster_of 2) = hosts startCluster"
    by (rule ext) (simp add: startCluster_of_def startCluster_def numeral_2_eq_2 Let_def)
qed

end
