(* ===== verification/Client_Pool.thy ===== *)
theory Client_Pool
  imports Client_Tasks System_Tests
begin

text \<open>
  Clients that share one file system and one cluster, each working on files of its own. The
  proofs rest on what a client needs of the others (\<open>client_rely\<close>) and does to them
  (\<open>client_guar\<close>): the others leave its two files alone, and whatever they store on the
  cluster is a chunk of the pool under its digest or a record of the pool under its name.
  \<open>upload_yields\<close> and \<open>download_yields\<close> say what an upload and a download achieve in
  such company.
\<close>

section \<open>Jobs\<close>

text \<open>A file a client writes and uploads, and the name it is downloaded to.\<close>

record job =
  job_path :: string
  job_data :: bytes
  job_out :: string

section \<open>The pool\<close>

text \<open>What a set of clients works with: the cluster as it was, and all they will ever store.\<close>

record pool =
  pool_client :: client
  pool_chain :: "endpoint list"
  pool_net :: network
  pool_chunks :: "chunk set"
  pool_records :: "file_metadata set"

definition pool_ok :: "pool \<Rightarrow> bool" where
  "pool_ok w \<longleftrightarrow> healthy (pool_net w) (pool_client w) (pool_chain w) \<and>
     (\<forall>c \<in> pool_chunks w. good_chunk c) \<and>
     (\<forall>c \<in> pool_chunks w. \<forall>d \<in> pool_chunks w. chunk_hash c = chunk_hash d \<longrightarrow> chunk_data c = chunk_data d) \<and>
     (\<forall>c \<in> pool_chunks w. \<forall>e. chunk_at e (chunk_hash c) (pool_net w) \<in> {None, Some (chunk_data c)}) \<and>
     inj_on meta_filename (pool_records w)"

definition net_act :: "pool \<Rightarrow> network \<Rightarrow> network \<Rightarrow> bool" where
  "net_act w n n' \<longleftrightarrow> n' = n \<or> (\<exists>c \<in> pool_chunks w. \<exists>e. n' = put_chunk c e n) \<or>
     (\<exists>m \<in> pool_records w. n' = write_all m (pool_chain w) n)"

definition own_files :: "job \<Rightarrow> string set" where
  "own_files j = {job_path j, job_out j}"

definition client_rely :: "pool \<Rightarrow> job \<Rightarrow> world \<Rightarrow> world \<Rightarrow> bool" where
  "client_rely w j s t \<longleftrightarrow> net_act w (snd s) (snd t) \<and> creatable (fst t) = creatable (fst s) \<and>
     (\<forall>p \<in> own_files j. files (fst t) p = files (fst s) p)"

definition client_guar :: "pool \<Rightarrow> job \<Rightarrow> world \<Rightarrow> world \<Rightarrow> bool" where
  "client_guar w j s t \<longleftrightarrow> net_act w (snd s) (snd t) \<and> creatable (fst t) = creatable (fst s) \<and>
     (\<forall>p. p \<notin> own_files j \<longrightarrow> files (fst t) p = files (fst s) p)"

text \<open>Threads that name their files apart do not disturb one another.\<close>

locale separate_files =
  fixes jobs :: "nat \<Rightarrow> job"
  assumes apart: "i \<noteq> k \<Longrightarrow> own_files (jobs i) \<inter> own_files (jobs k) = {}"
    and two_files: "job_path (jobs i) \<noteq> job_out (jobs i)"

sublocale separate_files \<subseteq> clients: interference "\<lambda>i. client_rely w (jobs i)" "\<lambda>i. client_guar w (jobs i)" for w
proof
  fix i j s t assume "i \<noteq> j" "client_guar w (jobs j) s t"
  then show "client_rely w (jobs i) s t" using apart [of i j] by (auto simp: client_rely_def client_guar_def)
qed

text \<open>A run of threads changes nothing on the disk but their own files.\<close>

definition disk_kept :: "file_system \<Rightarrow> string set \<Rightarrow> world \<Rightarrow> bool" where
  "disk_kept fs A s \<longleftrightarrow> creatable (fst s) = creatable fs \<and> (\<forall>p. p \<notin> A \<longrightarrow> files (fst s) p = files fs p)"

lemma disk_kept_guar: "own_files j \<subseteq> A \<Longrightarrow> disk_kept fs A s \<Longrightarrow> client_guar w j s t \<Longrightarrow> disk_kept fs A t"
  by (auto simp: disk_kept_def client_guar_def)

section \<open>What stays true\<close>

abbreviation reps :: "pool \<Rightarrow> string \<Rightarrow> endpoint list" where
  "reps w h \<equiv> replica_eps (pool_net w) (pool_client w) h"

text \<open>The cluster in any state of the pool.\<close>

definition net_base :: "pool \<Rightarrow> network \<Rightarrow> bool" where
  "net_base w n \<longleftrightarrow> endpoint_of n = endpoint_of (pool_net w) \<and> addr_ep n = addr_ep (pool_net w) \<and>
     up_at n = up_at (pool_net w) \<and> storage_place n = storage_place (pool_net w) \<and>
     linked n (pool_chain w) \<and> (\<exists>t. metadata_at (last (pool_chain w)) n = Some t \<and> (role_of t = TAIL \<or> role_of t = SINGLE)) \<and>
     (\<forall>c \<in> pool_chunks w. \<forall>e. chunk_at e (chunk_hash c) n \<in> {None, Some (chunk_data c)})"

definition held :: "pool \<Rightarrow> chunk \<Rightarrow> endpoint \<Rightarrow> network \<Rightarrow> bool" where
  "held w c e n \<longleftrightarrow> chunk_at e (chunk_hash c) n = Some (chunk_data c)"

definition recorded :: "pool \<Rightarrow> file_metadata \<Rightarrow> network \<Rightarrow> bool" where
  "recorded w m n \<longleftrightarrow> (\<exists>t. metadata_at (last (pool_chain w)) n = Some t \<and> metadataStore t (meta_filename m) = Some m)"

lemma pool_okD:
  assumes "pool_ok w"
  shows "healthy (pool_net w) (pool_client w) (pool_chain w)"
    and "c \<in> pool_chunks w \<Longrightarrow> good_chunk c"
    and "c \<in> pool_chunks w \<Longrightarrow> d \<in> pool_chunks w \<Longrightarrow> chunk_hash c = chunk_hash d \<Longrightarrow> chunk_data c = chunk_data d"
    and "c \<in> pool_chunks w \<Longrightarrow> chunk_at e (chunk_hash c) (pool_net w) \<in> {None, Some (chunk_data c)}"
    and "m \<in> pool_records w \<Longrightarrow> m' \<in> pool_records w \<Longrightarrow> meta_filename m' = meta_filename m \<Longrightarrow> m' = m"
  using assms unfolding pool_ok_def inj_on_def by (blast, blast, blast, blast, blast)

lemma pool_chain_facts:
  assumes "pool_ok w"
  shows "pool_chain w \<noteq> []" "distinct (pool_chain w)"
  using pool_okD(1) [OF assms] unfolding healthy_def by (auto simp only: linked.simps)

lemma net_baseI:
  assumes "endpoint_of n = endpoint_of (pool_net w)" and "addr_ep n = addr_ep (pool_net w)"
    and "up_at n = up_at (pool_net w)" and "storage_place n = storage_place (pool_net w)" and "linked n (pool_chain w)"
    and "metadata_at (last (pool_chain w)) n = Some t" and "role_of t = TAIL \<or> role_of t = SINGLE"
    and "\<And>c e. c \<in> pool_chunks w \<Longrightarrow> chunk_at e (chunk_hash c) n \<in> {None, Some (chunk_data c)}"
  shows "net_base w n"
  using assms unfolding net_base_def by blast

lemma net_baseD:
  assumes "net_base w n"
  shows "endpoint_of n = endpoint_of (pool_net w)" and "addr_ep n = addr_ep (pool_net w)"
    and "up_at n = up_at (pool_net w)" and "storage_place n = storage_place (pool_net w)" and "linked n (pool_chain w)"
    and "\<exists>t. metadata_at (last (pool_chain w)) n = Some t \<and> (role_of t = TAIL \<or> role_of t = SINGLE)"
    and "c \<in> pool_chunks w \<Longrightarrow> chunk_at e (chunk_hash c) n \<in> {None, Some (chunk_data c)}"
  using assms unfolding net_base_def by blast+

lemma net_act_cases:
  assumes "net_act w n n'"
  obtains "n' = n" | c e where "c \<in> pool_chunks w" "n' = put_chunk c e n"
    | m where "m \<in> pool_records w" "n' = write_all m (pool_chain w) n"
  using assms unfolding net_act_def by blast

lemma net_base_start:
  assumes "pool_ok w" shows "net_base w (pool_net w)"
proof -
  have h: "healthy (pool_net w) (pool_client w) (pool_chain w)" by (rule pool_okD(1) [OF assms])
  obtain t where "metadata_at (last (pool_chain w)) (pool_net w) = Some t" "role_of t = TAIL \<or> role_of t = SINGLE"
    using h unfolding healthy_def by blast
  moreover have "linked (pool_net w) (pool_chain w)" using h unfolding healthy_def by blast
  ultimately show ?thesis using pool_okD(4) [OF assms] by (intro net_baseI) (rule refl | assumption)+
qed

lemma net_base_act:
  assumes "pool_ok w" and "net_base w n" and "net_act w n n'"
  shows "net_base w n'"
  using assms(3)
proof (cases rule: net_act_cases)
  case (2 c e)
  note b = net_baseD [OF assms(2)]
  obtain t where t: "metadata_at (last (pool_chain w)) n = Some t" "role_of t = TAIL \<or> role_of t = SINGLE" using b(6) by blast
  show ?thesis
  proof (rule net_baseI)
    show "linked n' (pool_chain w)" using b(5) linked_cong [of n' n] 2(2) by simp
    show "metadata_at (last (pool_chain w)) n' = Some t" "role_of t = TAIL \<or> role_of t = SINGLE" using t 2(2) by simp_all
    show "chunk_at f (chunk_hash d) n' \<in> {None, Some (chunk_data d)}" if d: "d \<in> pool_chunks w" for d f
      using b(7) [OF d, of f] pool_okD(3) [OF assms(1) d 2(1)] 2(2) by (simp add: chunk_at_put_chunk)
  qed (use 2(2) b in simp_all)
next
  case (3 m)
  note b = net_baseD [OF assms(2)] and ch = pool_chain_facts [OF assms(1)]
  obtain t where t: "metadata_at (last (pool_chain w)) n = Some t" "role_of t = TAIL \<or> role_of t = SINGLE" using b(6) by blast
  show ?thesis
  proof (rule net_baseI)
    show "linked n' (pool_chain w)" using b(5) ch 3(2) linked_write_all_self by simp
    show "metadata_at (last (pool_chain w)) n' = Some (stored m t)" using t(1) ch 3(2) by (simp add: metadata_at_write_all)
    show "role_of (stored m t) = TAIL \<or> role_of (stored m t) = SINGLE" using t(2) by simp
    show "up_at n' = up_at (pool_net w)" "storage_place n' = storage_place (pool_net w)"
      using b(3,4) 3(2) up_at_write_all storage_write_all(2) by presburger+
    show "chunk_at f (chunk_hash d) n' \<in> {None, Some (chunk_data d)}" if d: "d \<in> pool_chunks w" for d f
      using b(7) [OF d, of f] 3(2) by simp
  qed (use 3(2) b in simp_all)
qed (use assms(2) in simp)

lemma held_act:
  assumes "pool_ok w" and "c \<in> pool_chunks w" and "held w c e n" and "net_act w n n'"
  shows "held w c e n'"
  using assms(4)
proof (cases rule: net_act_cases)
  case (2 d f)
  then show ?thesis using assms(3) pool_okD(3) [OF assms(1,2) 2(1)] by (simp add: held_def chunk_at_put_chunk)
qed (use assms(3) in \<open>simp_all add: held_def\<close>)

lemma recorded_act:
  assumes "pool_ok w" and "m \<in> pool_records w" and "recorded w m n" and "net_act w n n'"
  shows "recorded w m n'"
  using assms(4)
proof (cases rule: net_act_cases)
  case (3 m')
  obtain t where "metadata_at (last (pool_chain w)) n = Some t" "metadataStore t (meta_filename m) = Some m"
    using assms(3) by (auto simp: recorded_def)
  then show ?thesis
    using 3 pool_chain_facts [OF assms(1)] pool_okD(5) [OF assms(1,2) 3(1)]
    by (auto simp: recorded_def metadata_at_write_all)
qed (use assms(3) in \<open>simp_all add: recorded_def\<close>)

text \<open>An assertion on the cluster alone is stable when no act of the pool breaks it.\<close>

lemma stable_net:
  assumes "\<And>n n'. P n \<Longrightarrow> net_act w n n' \<Longrightarrow> P n'"
  shows "stable (client_rely w j) (\<lambda>s. P (snd s))"
  using assms by (auto simp: stable_def client_rely_def)

lemma stable_conj: "stable R P \<Longrightarrow> stable R Q \<Longrightarrow> stable R (\<lambda>s. P s \<and> Q s)"
  by (auto simp: stable_def)

lemma stable_const [simp, intro]: "stable R (\<lambda>s. b)"
  by (simp add: stable_def)

lemma stable_all: "(\<And>x. x \<in> A \<Longrightarrow> stable R (P x)) \<Longrightarrow> stable R (\<lambda>s. \<forall>x \<in> A. P x s)"
  unfolding stable_def by blast

lemma stable_own_file: "p \<in> own_files j \<Longrightarrow> stable (client_rely w j) (\<lambda>s. files (fst s) p = v)"
  by (simp add: stable_def client_rely_def)

lemma stable_creatable: "stable (client_rely w j) (\<lambda>s. creatable (fst s) p)"
  by (simp add: stable_def client_rely_def)

lemma stable_base: "pool_ok w \<Longrightarrow> stable (client_rely w j) (\<lambda>s. net_base w (snd s))"
  by (rule stable_net) (rule net_base_act)

lemma stable_held: "pool_ok w \<Longrightarrow> c \<in> pool_chunks w \<Longrightarrow> stable (client_rely w j) (\<lambda>s. held w c e (snd s))"
  by (rule stable_net) (rule held_act)

lemma stable_recorded: "pool_ok w \<Longrightarrow> m \<in> pool_records w \<Longrightarrow> stable (client_rely w j) (\<lambda>s. recorded w m (snd s))"
  by (rule stable_net) (rule recorded_act)

lemmas stable_intros = stable_conj stable_const stable_all stable_own_file stable_creatable stable_base stable_held stable_recorded

section \<open>Triples of the client's actions\<close>

text \<open>
  A remote call: whatever was known stays known, since an act of one's own on the cluster
  is as good as one of the others.
\<close>

lemma yields_remotely:
  assumes "stable (client_rely w j) P" and "\<And>x. stable (client_rely w j) (Q x)"
    and "\<And>fs n. P (fs, n) \<Longrightarrow> \<exists>x n'. call fs n = (Ret x, n') \<and> net_act w n n' \<and> Q x (fs, n')"
  shows "yields (client_rely w j) (client_guar w j) P (remotely call) (\<lambda>x s. P s \<and> Q x s)"
  unfolding remotely_def
proof (rule yields_atomically)
  show "stable (client_rely w j) P" by fact
  show "stable (client_rely w j) (\<lambda>s. P s \<and> Q x s)" for x by (rule stable_conj [OF assms(1,2)])
  fix s assume P: "P s"
  obtain fs n where s: "s = (fs, n)" by fastforce
  then obtain x n' where x: "call fs n = (Ret x, n')" "net_act w n n'" "Q x (fs, n')" using assms(3) P by blast
  have "client_rely w j (fs, n) (fs, n')" "client_guar w j (fs, n) (fs, n')"
    using x(2) by (simp_all add: client_rely_def client_guar_def)
  then show "\<exists>x. fst ((\<lambda>(fs, net). case call fs net of (r, net) \<Rightarrow> (r, fs, net)) s) = Ret x \<and>
      client_guar w j s (snd ((\<lambda>(fs, net). case call fs net of (r, net) \<Rightarrow> (r, fs, net)) s)) \<and>
      P (snd ((\<lambda>(fs, net). case call fs net of (r, net) \<Rightarrow> (r, fs, net)) s)) \<and>
      Q x (snd ((\<lambda>(fs, net). case call fs net of (r, net) \<Rightarrow> (r, fs, net)) s))"
    using x P s assms(1) by (auto simp: stable_def)
qed

lemma yields_locally:
  assumes "stable (client_rely w j) P" and "\<And>x. stable (client_rely w j) (Q x)"
    and "\<And>fs n. P (fs, n) \<Longrightarrow> \<exists>x fs'. g fs = (x, fs') \<and> creatable fs' = creatable fs \<and>
      (\<forall>p. p \<notin> own_files j \<longrightarrow> files fs' p = files fs p) \<and> Q x (fs', n)"
  shows "yields (client_rely w j) (client_guar w j) P (locally g) Q"
  unfolding locally_def
proof (rule yields_atomically [OF assms(1,2)])
  fix s assume "P s"
  moreover obtain fs n where s: "s = (fs, n)" by fastforce
  ultimately obtain x fs' where "g fs = (x, fs')" "creatable fs' = creatable fs"
    "\<forall>p. p \<notin> own_files j \<longrightarrow> files fs' p = files fs p" "Q x (fs', n)" using assms(3) by blast
  then show "\<exists>x. fst ((\<lambda>(fs, net). case g fs of (x, fs) \<Rightarrow> (Ret x, fs, net)) s) = Ret x \<and>
      client_guar w j s (snd ((\<lambda>(fs, net). case g fs of (x, fs) \<Rightarrow> (Ret x, fs, net)) s)) \<and>
      Q x (snd ((\<lambda>(fs, net). case g fs of (x, fs) \<Rightarrow> (Ret x, fs, net)) s))"
    by (simp add: s client_guar_def net_act_def)
qed

lemma yields_if_never: "(\<And>s. \<not> P s) \<Longrightarrow> yields R G P p Q"
  by (simp add: yields_def)

section \<open>Uploading in company\<close>

text \<open>Assertions a client may carry along: stable, and about a cluster of the pool.\<close>

definition carried :: "pool \<Rightarrow> job \<Rightarrow> (world \<Rightarrow> bool) \<Rightarrow> bool" where
  "carried w j P \<longleftrightarrow> stable (client_rely w j) P \<and> (\<forall>s. P s \<longrightarrow> net_base w (snd s))"

lemma carriedD:
  "carried w j P \<Longrightarrow> stable (client_rely w j) P" "carried w j P \<Longrightarrow> P s \<Longrightarrow> net_base w (snd s)"
  unfolding carried_def by blast+

lemma carried_conj: "carried w j P \<Longrightarrow> stable (client_rely w j) Q \<Longrightarrow> carried w j (\<lambda>s. P s \<and> Q s)"
  unfolding carried_def using stable_conj by blast

lemma leads_to_base: "net_base w n \<Longrightarrow> leads_to (pool_net w) = leads_to n"
  by (intro ext) (simp only: leads_to_def net_baseD(2,4))

lemma upload_act:
  assumes "pool_ok w" and "c \<in> pool_chunks w" and "net_base w n"
    and "addr_ep (pool_net w) a = Some e" and "storage_place (pool_net w) e" and "up_at (pool_net w) e"
  shows "\<exists>n'. uploadChunkToNode fuel c a n = (Ret True, n') \<and> net_act w n n' \<and> held w c e n'"
proof -
  have e: "addr_ep n a = Some e" "storage_place n e" "up_at n e" using assms(4-6) net_baseD(2-4) [OF assms(3)] by simp_all
  have "uploadChunkToNode fuel c a n = (Ret True, put_chunk c e n)"
    using uploadChunk_effect [OF e(1,2) pool_okD(2) [OF assms(1,2)]] e(3) by simp
  moreover have "net_act w n (put_chunk c e n)" using assms(2) unfolding net_act_def by blast
  moreover have "held w c e (put_chunk c e n)" using e by (simp add: held_def chunk_at_put_chunk)
  ultimately show ?thesis by blast
qed

lemma nodes_yields:
  assumes w: "pool_ok w" and c: "c \<in> pool_chunks w"
    and "carried w j P" and "leads_to (pool_net w) as es" and "\<forall>e \<in> set es. up_at (pool_net w) e"
  shows "yields (client_rely w j) (client_guar w j) P (nodes_task fuel c as k)
    (\<lambda>m s. (P s \<and> (\<forall>e \<in> set es. held w c e (snd s))) \<and> m = k + length as)"
  using assms(3-)
proof (induction as arbitrary: P es k)
  case Nil
  then show ?case by (auto simp: leads_to_def intro!: yields_finish stable_conj carriedD(1))
next
  case (Cons a as)
  then obtain e fs where e: "es = e # fs" "addr_ep (pool_net w) a = Some e" "storage_place (pool_net w) e" "leads_to (pool_net w) as fs"
    by (auto simp: leads_to_Cons)
  have up: "up_at (pool_net w) e" "\<forall>e \<in> set fs. up_at (pool_net w) e" using Cons.prems(3) e(1) by auto
  have st: "stable (client_rely w j) (\<lambda>s. b \<and> held w c e (snd s))" for b
    by (intro stable_intros w c)
  show ?case unfolding nodes_task.simps
  proof (rule yields_bind)
    show "yields (client_rely w j) (client_guar w j) P (remotely (\<lambda>fs. uploadChunkToNode fuel c a))
        (\<lambda>b s. P s \<and> b \<and> held w c e (snd s))"
    proof (rule yields_remotely [OF carriedD(1) [OF Cons.prems(1)] st])
      fix fs n assume "P (fs, n)"
      then have "net_base w n" using carriedD(2) [OF Cons.prems(1)] by fastforce
      from upload_act [OF w c this e(2,3) up(1), of fuel]
      show "\<exists>x n'. uploadChunkToNode fuel c a n = (Ret x, n') \<and> net_act w n n' \<and> x \<and> held w c e (snd (fs, n'))" by auto
    qed
    fix b
    show "yields (client_rely w j) (client_guar w j) (\<lambda>s. P s \<and> b \<and> held w c e (snd s))
        (nodes_task fuel c as (if b then Suc k else k))
        (\<lambda>m s. (P s \<and> (\<forall>e \<in> set es. held w c e (snd s))) \<and> m = k + length (a # as))"
    proof (cases b)
      case True
      have "carried w j (\<lambda>s. P s \<and> b \<and> held w c e (snd s))" by (rule carried_conj [OF Cons.prems(1) st])
      from Cons.IH [OF this e(4) up(2)] show ?thesis by (rule yields_post) (use True e(1) in auto)
    qed (simp add: yields_if_never)
  qed
qed

definition stored_chunk :: "pool \<Rightarrow> chunk \<Rightarrow> world \<Rightarrow> bool" where
  "stored_chunk w c s \<longleftrightarrow> (\<forall>e \<in> set (reps w (chunk_hash c)). held w c e (snd s))"

lemma stable_stored_chunk: "pool_ok w \<Longrightarrow> c \<in> pool_chunks w \<Longrightarrow> stable (client_rely w j) (stored_chunk w c)"
  unfolding stored_chunk_def by (intro stable_intros)

lemma stable_stored_chunks:
  "pool_ok w \<Longrightarrow> A \<subseteq> pool_chunks w \<Longrightarrow> stable (client_rely w j) (\<lambda>s. \<forall>c \<in> A. stored_chunk w c s)"
  by (intro stable_all stable_stored_chunk) blast+

text \<open>The replicas of a hash, all up.\<close>

lemma replicas:
  assumes "pool_ok w"
  obtains a as where "getNodesForKey (dht_of (pool_client w)) h 2 = Inr (a # as)"
    and "leads_to (pool_net w) (a # as) (reps w h)" and "\<forall>e \<in> set (reps w h). up_at (pool_net w) e"
proof -
  note r = healthy_replicas [OF pool_okD(1) [OF assms], of h]
  obtain as where as: "getNodesForKey (dht_of (pool_client w)) h 2 = Inr as" "leads_to (pool_net w) as (reps w h)"
    using r(1) by (auto simp: placed_at_def)
  have "reps w h \<noteq> []" using r(3) by fastforce
  then have "as \<noteq> []" using as(2) by (auto simp: leads_to_def)
  then show ?thesis using that as r(2) by (cases as) auto
qed

lemma chunks_yields:
  assumes w: "pool_ok w" and "carried w j P" and "set cs \<subseteq> pool_chunks w"
  shows "yields (client_rely w j) (client_guar w j) P (chunks_task fuel (dht_of (pool_client w)) cs)
    (\<lambda>x s. (P s \<and> (\<forall>c \<in> set cs. stored_chunk w c s)) \<and> x = None)"
  using assms(2,3)
proof (induction cs arbitrary: P)
  case Nil
  then show ?case by (auto intro!: yields_finish stable_conj carriedD(1))
next
  case (Cons c cs)
  have c: "c \<in> pool_chunks w" "set cs \<subseteq> pool_chunks w" using Cons.prems(2) by auto
  obtain a as where as: "getNodesForKey (dht_of (pool_client w)) (chunk_hash c) 2 = Inr (a # as)"
      "leads_to (pool_net w) (a # as) (reps w (chunk_hash c))" "\<forall>e \<in> set (reps w (chunk_hash c)). up_at (pool_net w) e"
    by (rule replicas [OF w])
  show ?case unfolding chunks_task.simps as(1) sum.case
  proof (rule yields_bind [OF nodes_yields [OF w c(1) Cons.prems(1) as(2,3)]])
    fix m
    have "carried w j (\<lambda>s. P s \<and> stored_chunk w c s)"
      by (rule carried_conj [OF Cons.prems(1) stable_stored_chunk [OF w c(1)]])
    note IH = Cons.IH [OF this c(2)]
    show "yields (client_rely w j) (client_guar w j)
        (\<lambda>s. (P s \<and> (\<forall>e \<in> set (reps w (chunk_hash c)). held w c e (snd s))) \<and> m = 0 + length (a # as))
        (if m = 0 then Finish (Ret (Some (chunk_index c))) else chunks_task fuel (dht_of (pool_client w)) cs)
        (\<lambda>x s. (P s \<and> (\<forall>c \<in> set (c # cs). stored_chunk w c s)) \<and> x = None)"
    proof (cases "m = 0")
      case False
      show ?thesis unfolding if_not_P [OF False]
        by (rule yields_post [OF yields_pre [OF IH]]) (auto simp: stored_chunk_def)
    qed (simp add: yields_if_never)
  qed
qed

text \<open>A job of the pool: a file the system can carry, its chunks and its record.\<close>

definition job_fs :: "job \<Rightarrow> file_system" where
  "job_fs j = \<lparr>files = [job_path j \<mapsto> job_data j], creatable = (\<lambda>p. True)\<rparr>"

definition job_chunks :: "job \<Rightarrow> chunk list" where
  "job_chunks j = file_chunks (job_fs j) (job_path j)"

definition job_record :: "job \<Rightarrow> file_metadata" where
  "job_record j = file_record (job_fs j) (job_path j)"

definition job_ok :: "pool \<Rightarrow> nat \<Rightarrow> job \<Rightarrow> bool" where
  "job_ok w fuel j \<longleftrightarrow> carriable (job_fs j) (job_path j) (job_data j) \<and> base_name (job_path j) = job_path j \<and>
     set (job_chunks j) \<subseteq> pool_chunks w \<and> job_record j \<in> pool_records w \<and> length (pool_chain w) \<le> Suc fuel \<and>
     job_path j \<noteq> job_out j"

lemma job_okD:
  assumes "job_ok w fuel j"
  shows "carriable (job_fs j) (job_path j) (job_data j)" and "base_name (job_path j) = job_path j"
    and "set (job_chunks j) \<subseteq> pool_chunks w" and "job_record j \<in> pool_records w" and "length (pool_chain w) \<le> Suc fuel"
    and "job_path j \<noteq> job_out j"
  using assms unfolding job_ok_def by blast+

lemma same_file:
  assumes "files fs (job_path j) = Some (job_data j)"
  shows "splitFileIntoChunks fs (job_path j) = splitFileIntoChunks (job_fs j) (job_path j)"
    and "make_metadata fs (job_path j) cs root = make_metadata (job_fs j) (job_path j) cs root"
  using assms by (simp_all add: splitFileIntoChunks_def make_metadata_def getFileSize_def job_fs_def)

lemma metadata_act:
  assumes w: "pool_ok w" and j: "job_ok w fuel j" and b: "net_base w n" and f: "files fs (job_path j) = Some (job_data j)"
    and "metadataNodes (pool_client w) = a # as"
  shows "\<exists>n'. putMetadataToNode fuel fs a (job_path j) (job_chunks j) (computeRootHash (map chunk_hash (job_chunks j))) n = (Ret True, n') \<and>
    net_act w n n' \<and> recorded w (job_record j) n'"
proof -
  let ?m = "job_record j"
  obtain e es a' as' t' where h: "pool_chain w = e # es" "metadataNodes (pool_client w) = a' # as'" "addr_ep (pool_net w) a' = Some e"
      "distinct (e # es)"
    using pool_okD(1) [OF w] by (rule healthy_chain)
  obtain t where t: "metadata_at (last (e # es)) n = Some t" "role_of t = TAIL \<or> role_of t = SINGLE"
    using net_baseD(6) [OF b] unfolding h(1) by blast
  have a: "addr_ep n a = Some e" using h(2,3) assms(5) net_baseD(2) [OF b] by simp
  have m: "make_metadata fs (job_path j) (job_chunks j) (computeRootHash (map chunk_hash (job_chunks j))) = ?m"
    by (simp add: same_file(2) [OF f] job_record_def file_record_def job_chunks_def)
  have wf: "wf_metadata ?m" "length (put_message ?m) < 2 ^ 32"
    using file_record_wf file_record_length job_okD(1) [OF j] unfolding job_record_def by blast+
  have "putMetadataToNode fuel fs a (job_path j) (job_chunks j) (computeRootHash (map chunk_hash (job_chunks j))) n =
      (Ret True, write_all ?m (e # es) n)"
    using putMetadata_head [OF a _ h(4) t(1), of fuel fs "job_path j" "job_chunks j"
        "computeRootHash (map chunk_hash (job_chunks j))", unfolded m]
      net_baseD(5) [OF b] job_okD(5) [OF j] t(2) wf unfolding h(1) forwards_def by auto
  moreover have "net_act w n (write_all ?m (e # es) n)" using job_okD(4) [OF j] unfolding net_act_def h(1) by blast
  moreover have "recorded w ?m (write_all ?m (e # es) n)"
    using t(1) metadata_at_write_all [OF h(4)] by (auto simp: recorded_def h(1))
  ultimately show ?thesis by blast
qed

lemma metadata_yields:
  assumes w: "pool_ok w" and j: "job_ok w fuel j" and P: "carried w j P"
    and f: "\<And>s. P s \<Longrightarrow> files (fst s) (job_path j) = Some (job_data j)"
  shows "yields (client_rely w j) (client_guar w j) P
    (metadata_task fuel (job_path j) (job_chunks j) (computeRootHash (map chunk_hash (job_chunks j))) (metadataNodes (pool_client w)))
    (\<lambda>x s. (P s \<and> recorded w (job_record j) (snd s)) \<and> x = Some (hd (metadataNodes (pool_client w))))"
proof -
  obtain e es a as t where a: "metadataNodes (pool_client w) = a # as"
    using pool_okD(1) [OF w] by (rule healthy_chain)
  note R = stable_recorded [OF w job_okD(4) [OF j], of j]
  have st: "stable (client_rely w j) (\<lambda>s. b \<and> recorded w (job_record j) (snd s))" for b
    by (intro stable_conj stable_const R)
  show ?thesis unfolding a metadata_task.simps
  proof (rule yields_bind)
    show "yields (client_rely w j) (client_guar w j) P
        (remotely (\<lambda>fs. putMetadataToNode fuel fs a (job_path j) (job_chunks j) (computeRootHash (map chunk_hash (job_chunks j)))))
        (\<lambda>b s. P s \<and> b \<and> recorded w (job_record j) (snd s))"
    proof (rule yields_remotely [OF carriedD(1) [OF P] st])
      fix fs n assume "P (fs, n)"
      then have "net_base w n" "files fs (job_path j) = Some (job_data j)" using carriedD(2) [OF P] f by fastforce+
      from metadata_act [OF w j this a]
      show "\<exists>x n'. putMetadataToNode fuel fs a (job_path j) (job_chunks j) (computeRootHash (map chunk_hash (job_chunks j))) n = (Ret x, n') \<and>
          net_act w n n' \<and> x \<and> recorded w (job_record j) (snd (fs, n'))" by auto
    qed
    fix b
    show "yields (client_rely w j) (client_guar w j) (\<lambda>s. P s \<and> b \<and> recorded w (job_record j) (snd s))
        (if b then Finish (Ret (Some a)) else metadata_task fuel (job_path j) (job_chunks j) (computeRootHash (map chunk_hash (job_chunks j))) as)
        (\<lambda>x s. (P s \<and> recorded w (job_record j) (snd s)) \<and> x = Some (hd (a # as)))"
      by (cases b) (auto simp: yields_if_never intro!: yields_finish stable_conj carriedD(1) [OF P] R)
  qed
qed

definition uploaded :: "pool \<Rightarrow> job \<Rightarrow> world \<Rightarrow> bool" where
  "uploaded w j s \<longleftrightarrow> (\<forall>c \<in> set (job_chunks j). stored_chunk w c s) \<and> recorded w (job_record j) (snd s)"

lemma stable_uploaded: "pool_ok w \<Longrightarrow> job_ok w fuel j \<Longrightarrow> stable (client_rely w j) (uploaded w j)"
  unfolding uploaded_def by (intro stable_conj stable_stored_chunks stable_recorded) (auto dest: job_okD(3,4))

lemma upload_yields:
  assumes w: "pool_ok w" and j: "job_ok w fuel j" and P: "carried w j P"
    and f: "\<And>s. P s \<Longrightarrow> files (fst s) (job_path j) = Some (job_data j)"
  shows "yields (client_rely w j) (client_guar w j) P (upload_task fuel (pool_client w) (job_path j))
    (\<lambda>x s. (P s \<and> uploaded w j s) \<and> x = Uploaded (hd (metadataNodes (pool_client w))))"
  unfolding upload_task_def
proof (rule yields_bind)
  let ?cs = "splitFileIntoChunks (job_fs j) (job_path j)"
  show "yields (client_rely w j) (client_guar w j) P (locally (\<lambda>fs. (splitFileIntoChunks fs (job_path j), fs))) (\<lambda>x s. P s \<and> x = ?cs)"
    using f same_file(1) by (intro yields_locally stable_conj carriedD(1) [OF P]) auto
  fix x
  have hashed: "hashAllChunks ?cs = job_chunks j" by (simp add: job_chunks_def file_chunks_def)
  have ne: "?cs \<noteq> []" using file_chunks_nonempty [OF job_okD(1) [OF j]] by (auto simp: file_chunks_def)
  let ?S = "\<lambda>s. P s \<and> (\<forall>c \<in> set (job_chunks j). stored_chunk w c s)"
  have S: "carried w j ?S" by (rule carried_conj [OF P stable_stored_chunks [OF w job_okD(3) [OF j]]])
  have "yields (client_rely w j) (client_guar w j) P
      (bind_task (chunks_task fuel (dht_of (pool_client w)) (job_chunks j)) (\<lambda>failed_chunk.
       case failed_chunk of
         Some i \<Rightarrow> Finish (Ret (ChunkNotStored i))
       | None \<Rightarrow>
           bind_task (metadata_task fuel (job_path j) (job_chunks j) (computeRootHash (map chunk_hash (job_chunks j))) (metadataNodes (pool_client w)))
             (\<lambda>target. Finish (Ret (case target of Some nodeAddr \<Rightarrow> Uploaded nodeAddr | None \<Rightarrow> MetadataNotStored)))))
      (\<lambda>x s. (P s \<and> uploaded w j s) \<and> x = Uploaded (hd (metadataNodes (pool_client w))))"
  proof (rule yields_bind [OF chunks_yields [OF w P job_okD(3) [OF j]]])
    fix y :: "int option"
    show "yields (client_rely w j) (client_guar w j) (\<lambda>s. ?S s \<and> y = None)
      (case y of
         Some i \<Rightarrow> Finish (Ret (ChunkNotStored i))
       | None \<Rightarrow>
           bind_task (metadata_task fuel (job_path j) (job_chunks j) (computeRootHash (map chunk_hash (job_chunks j))) (metadataNodes (pool_client w)))
             (\<lambda>target. Finish (Ret (case target of Some nodeAddr \<Rightarrow> Uploaded nodeAddr | None \<Rightarrow> MetadataNotStored))))
      (\<lambda>x s. (P s \<and> uploaded w j s) \<and> x = Uploaded (hd (metadataNodes (pool_client w))))"
    proof (cases y)
      case None
      note M = metadata_yields [OF w j S conjunct1 [THEN f]]
      show ?thesis unfolding None option.case
        by (rule yields_bind [OF yields_pre [OF M]])
          (auto simp: uploaded_def intro!: yields_finish stable_conj carriedD(1) [OF P] stable_stored_chunks w job_okD(3) [OF j]
             stable_recorded job_okD(4) [OF j])
    qed (simp add: yields_if_never)
  qed
  then show "yields (client_rely w j) (client_guar w j) (\<lambda>s. P s \<and> x = ?cs)
      (if x = [] then Finish (Ret EmptyOrMissing)
       else let chunks = hashAllChunks x; root = computeRootHash (map chunk_hash chunks) in
         bind_task (chunks_task fuel (dht_of (pool_client w)) chunks) (\<lambda>failed_chunk.
         case failed_chunk of
           Some i \<Rightarrow> Finish (Ret (ChunkNotStored i))
         | None \<Rightarrow> bind_task (metadata_task fuel (job_path j) chunks root (metadataNodes (pool_client w)))
             (\<lambda>target. Finish (Ret (case target of Some nodeAddr \<Rightarrow> Uploaded nodeAddr | None \<Rightarrow> MetadataNotStored)))))
      (\<lambda>x s. (P s \<and> uploaded w j s) \<and> x = Uploaded (hd (metadataNodes (pool_client w))))"
    by (cases "x = ?cs") (simp_all add: yields_if_never ne hashed Let_def)
qed

section \<open>Downloading in company\<close>

lemma lookup_act:
  assumes w: "pool_ok w" and j: "job_ok w fuel j" and b: "net_base w n" and r: "recorded w (job_record j) n"
  shows "getMetadataFromNode fuel (last (metadataNodes (pool_client w))) (job_path j) n = (Ret (job_record j), n)"
proof -
  let ?m = "job_record j"
  have f: "meta_filename ?m = job_path j" using job_okD(2) [OF j] by (simp add: job_record_def file_record_simps)
  obtain t where t: "metadata_at (last (pool_chain w)) n = Some t" "role_of t = TAIL \<or> role_of t = SINGLE"
    using net_baseD(6) [OF b] by blast
  have st: "metadataStore t (meta_filename ?m) = Some ?m" using r t(1) by (simp add: recorded_def)
  have run: "meta_running t"
    using linked_member [OF net_baseD(5) [OF b] last_in_set [OF pool_chain_facts(1) [OF w]]] t(1) by auto
  have ms: "map (addr_ep (pool_net w)) (metadataNodes (pool_client w)) = map Some (pool_chain w)"
    using pool_okD(1) [OF w] unfolding healthy_def by blast
  then have "metadataNodes (pool_client w) \<noteq> []" using pool_chain_facts(1) [OF w] by auto
  then have a: "addr_ep n (last (metadataNodes (pool_client w))) = Some (last (pool_chain w))"
    using arg_cong [OF ms, of last] pool_chain_facts(1) [OF w] by (simp add: last_map net_baseD(2) [OF b])
  have wf: "wf_metadata ?m" "length (put_message ?m) < 2 ^ 32"
    using file_record_wf file_record_length job_okD(1) [OF j] unfolding job_record_def by blast+
  have word: "is_word (job_path j)" "length (job_path j) < 2 ^ 31"
    using job_okD(1,2) [OF j] by (simp_all add: carriable_def)
  have reply: "handleGet (job_path j) t = found_message ?m" using t(2) st f by (auto simp: handleGet_def)
  have "length (found_message ?m) < 2 ^ 32" using found_message_length [of ?m] word(1) wf(2) f by simp
  then show ?thesis
    using getMetadata_reply [OF a t(1) run word, of fuel] parse_found_message [OF wf(1)] f reply by simp
qed

lemma find_yields:
  assumes w: "pool_ok w" and j: "job_ok w fuel j" and P: "carried w j P" and up: "\<And>s. P s \<Longrightarrow> uploaded w j s"
  shows "yields (client_rely w j) (client_guar w j) P (find_task fuel (job_path j) (rev (metadataNodes (pool_client w))))
    (\<lambda>x s. P s \<and> x = Some (job_record j))"
proof -
  have "metadataNodes (pool_client w) \<noteq> []" using pool_okD(1) [OF w] by (rule healthy_chain) simp
  then obtain as where as: "rev (metadataNodes (pool_client w)) = last (metadataNodes (pool_client w)) # as"
    by (metis append_butlast_last_id rev_append rev.simps(2) append.simps(1) append_Cons rev_rev_ident rev_singleton_conv)
  have named: "meta_filename (job_record j) \<noteq> []"
    using job_okD(1,2) [OF j] by (simp add: job_record_def file_record_simps carriable_def is_word_def)
  show ?thesis unfolding as find_task.simps
  proof (rule yields_bind)
    show "yields (client_rely w j) (client_guar w j) P
        (remotely (\<lambda>fs. getMetadataFromNode fuel (last (metadataNodes (pool_client w))) (job_path j))) (\<lambda>x s. P s \<and> x = job_record j)"
    proof (rule yields_remotely [OF carriedD(1) [OF P]])
      fix fs n assume "P (fs, n)"
      then have "net_base w n" "recorded w (job_record j) n" using carriedD(2) [OF P] up by (fastforce simp: uploaded_def)+
      from lookup_act [OF w j this]
      show "\<exists>x n'. getMetadataFromNode fuel (last (metadataNodes (pool_client w))) (job_path j) n = (Ret x, n') \<and> net_act w n n' \<and> x = job_record j"
        by (simp add: net_act_def)
    qed simp
    fix x
    show "yields (client_rely w j) (client_guar w j) (\<lambda>s. P s \<and> x = job_record j)
        (if meta_filename x \<noteq> [] \<or> meta_chunkHashes x \<noteq> [] then Finish (Ret (Some x)) else find_task fuel (job_path j) as)
        (\<lambda>x s. P s \<and> x = Some (job_record j))"
      by (cases "x = job_record j") (auto simp: yields_if_never named intro!: yields_finish stable_conj carriedD(1) [OF P])
  qed
qed

lemma fetch_yields:
  assumes w: "pool_ok w" and P: "carried w j P" and c: "c \<in> pool_chunks w" "good_hash (chunk_hash c)"
    and st: "\<And>s. P s \<Longrightarrow> stored_chunk w c s" and as: "leads_to (pool_net w) (a # as) (reps w (chunk_hash c))"
  shows "yields (client_rely w j) (client_guar w j) P (fetch_task fuel (chunk_hash c) (a # as)) (\<lambda>x s. P s \<and> x = chunk_data c)"
  unfolding fetch_task.simps
proof (rule yields_bind)
  have good: "chunk_data c \<noteq> []" "length (chunk_data c) < 2 ^ 32" using pool_okD(2) [OF w c(1)] by (simp_all add: good_chunk_def)
  obtain e fs where e: "reps w (chunk_hash c) = e # fs" "addr_ep (pool_net w) a = Some e" "storage_place (pool_net w) e"
    using as by (auto simp: leads_to_Cons)
  show "yields (client_rely w j) (client_guar w j) P (remotely (\<lambda>fs. downloadChunkFromNode fuel (chunk_hash c) a)) (\<lambda>x s. P s \<and> x = chunk_data c)"
  proof (rule yields_remotely [OF carriedD(1) [OF P]])
    fix fs n assume "P (fs, n)"
    then have b: "net_base w n" and at: "chunk_at e (chunk_hash c) n = Some (chunk_data c)"
      using carriedD(2) [OF P] st e(1) by (fastforce simp: stored_chunk_def held_def)+
    have "addr_ep n a = Some e" "storage_place n e" using e(2,3) net_baseD(2,4) [OF b] by simp_all
    then have "downloadChunkFromNode fuel (chunk_hash c) a n = (Ret (chunk_data c), n)"
      using downloadChunk_effect [of n a e "chunk_hash c" fuel] c(2) at good(2) by simp
    then show "\<exists>x n'. downloadChunkFromNode fuel (chunk_hash c) a n = (Ret x, n') \<and> net_act w n n' \<and> x = chunk_data c"
      by (simp add: net_act_def)
  qed simp
  fix x
  show "yields (client_rely w j) (client_guar w j) (\<lambda>s. P s \<and> x = chunk_data c)
      (if x \<noteq> [] then Finish (Ret x) else fetch_task fuel (chunk_hash c) as) (\<lambda>x s. P s \<and> x = chunk_data c)"
    by (cases "x = chunk_data c") (auto simp: yields_if_never good intro!: yields_finish stable_conj carriedD(1) [OF P])
qed

abbreviation refetched :: "nat \<Rightarrow> chunk list \<Rightarrow> chunk list" where
  "refetched i cs \<equiv> map2 (\<lambda>k c. fetched k (chunk_hash c) (chunk_data c)) [i..<i + length cs] cs"

lemma fetch_all_yields:
  assumes w: "pool_ok w" and P: "carried w j P"
    and "\<And>c. c \<in> set cs \<Longrightarrow> c \<in> pool_chunks w \<and> good_hash (chunk_hash c)"
    and "\<And>c s. c \<in> set cs \<Longrightarrow> P s \<Longrightarrow> stored_chunk w c s"
  shows "yields (client_rely w j) (client_guar w j) P (fetch_all_task fuel (dht_of (pool_client w)) i (map chunk_hash cs))
    (\<lambda>x s. P s \<and> x = Inr (refetched i cs))"
  using assms(3,4)
proof (induction cs arbitrary: i)
  case Nil
  then show ?case by (auto intro!: yields_finish stable_conj carriedD(1) [OF P])
next
  case (Cons c cs)
  have c: "c \<in> pool_chunks w" "good_hash (chunk_hash c)" using Cons.prems(1) by auto
  have ne: "chunk_data c \<noteq> []" using pool_okD(2) [OF w c(1)] by (simp add: good_chunk_def)
  obtain a as where as: "getNodesForKey (dht_of (pool_client w)) (chunk_hash c) 2 = Inr (a # as)"
      "leads_to (pool_net w) (a # as) (reps w (chunk_hash c))"
    by (rule replicas [OF w])
  have IH: "yields (client_rely w j) (client_guar w j) P (fetch_all_task fuel (dht_of (pool_client w)) (Suc i) (map chunk_hash cs))
      (\<lambda>x s. P s \<and> x = Inr (refetched (Suc i) cs))"
    by (rule Cons.IH) (use Cons.prems in auto)
  have "stored_chunk w c s" if "P s" for s using Cons.prems(2) that by simp
  note first = fetch_yields [OF w P c this as(2)]
  let ?rest = "\<lambda>d. bind_task (fetch_all_task fuel (dht_of (pool_client w)) (Suc i) (map chunk_hash cs)) (\<lambda>later.
      Finish (Ret (case later of
          Inr cs \<Rightarrow> Inr (\<lparr>chunk_index = to_i32 i, chunk_hash = chunk_hash c, chunk_data = d, chunk_size = to_i32 (length d)\<rparr> # cs)
        | Inl j \<Rightarrow> Inl j)))"
  have rest: "yields (client_rely w j) (client_guar w j) P (?rest (chunk_data c)) (\<lambda>x s. P s \<and> x = Inr (refetched i (c # cs)))"
    by (rule yields_bind [OF IH], rule yields_finish)
      (auto simp: fetched_def upt_conv_Cons simp del: upt_Suc intro!: stable_conj carriedD(1) [OF P])
  show ?case unfolding list.map fetch_all_task.simps as(1) sum.case
  proof (rule yields_bind [OF first])
    fix d
    show "yields (client_rely w j) (client_guar w j) (\<lambda>s. P s \<and> d = chunk_data c)
        (if d = [] then Finish (Ret (Inl i)) else ?rest d) (\<lambda>x s. P s \<and> x = Inr (refetched i (c # cs)))"
    proof (cases "d = chunk_data c")
      case True
      show ?thesis unfolding True if_not_P [OF ne] by (rule yields_pre [OF rest]) simp
    qed (simp add: yields_if_never)
  qed
qed

lemma reconstruct_job:
  assumes j: "job_ok w fuel j" and "creatable fs out"
  shows "reconstructFile (refetched 0 (job_chunks j)) out fs = (True, fs\<lparr>files := (files fs)(out \<mapsto> job_data j)\<rparr>)"
proof -
  note c = job_okD(1) [OF j]
  let ?ps = "map (\<lambda>c. (chunk_hash c, chunk_data c)) (job_chunks j)"
  have "refetched 0 (job_chunks j) = map2 (\<lambda>k p. fetched k (fst p) (snd p)) [0..<length ?ps] ?ps"
    by (simp add: zip_map2 comp_def split_beta)
  moreover have "?ps \<noteq> []" "length ?ps < 2 ^ 31" "\<forall>p \<in> set ?ps. length (snd p) < 2 ^ 31"
    using file_chunks_nonempty [OF c] file_chunks_count [OF c] file_chunk_good(1) [OF c] by (auto simp: job_chunks_def good_chunk_def)
  ultimately show ?thesis
    using reconstruct_fetched [of ?ps fs out] assms(2) file_chunks_data [OF c] by (simp add: comp_def job_chunks_def)
qed

lemma download_yields:
  assumes w: "pool_ok w" and j: "job_ok w fuel j" and P: "carried w j P"
    and up: "\<And>s. P s \<Longrightarrow> uploaded w j s" and out: "\<And>s. P s \<Longrightarrow> creatable (fst s) (job_out j)"
    and blind: "\<And>fs n v. P (fs, n) \<Longrightarrow> P (fs\<lparr>files := (files fs)(job_out j \<mapsto> v)\<rparr>, n)"
  shows "yields (client_rely w j) (client_guar w j) P (download_task fuel (pool_client w) (job_path j) (job_out j))
    (\<lambda>x s. (P s \<and> files (fst s) (job_out j) = Some (job_data j)) \<and> x = Reconstructed)"
  unfolding download_task_def
proof (rule yields_bind [OF find_yields [OF w j P up]])
  fix found
  let ?cs = "job_chunks j" and ?Q = "\<lambda>x s. (P s \<and> files (fst s) (job_out j) = Some (job_data j)) \<and> x = Reconstructed"
  have Q: "stable (client_rely w j) (\<lambda>s. P s \<and> files (fst s) (job_out j) = Some (job_data j))"
    by (intro stable_conj carriedD(1) [OF P] stable_own_file) (simp add: own_files_def)
  have hs: "meta_chunkHashes (job_record j) = map chunk_hash ?cs" by (simp add: job_record_def job_chunks_def file_record_simps)
  have cs: "c \<in> pool_chunks w \<and> good_hash (chunk_hash c)" "P s \<Longrightarrow> stored_chunk w c s" if "c \<in> set ?cs" for c s
    using that job_okD(3) [OF j] file_chunk_good(2) [OF job_okD(1) [OF j]] up by (auto simp: job_chunks_def uploaded_def)
  have last_step: "yields (client_rely w j) (client_guar w j) (\<lambda>s. P s \<and> r = Inr (refetched 0 ?cs))
      (case r of Inl i \<Rightarrow> Finish (Ret (ChunkMissing i))
       | Inr chunks \<Rightarrow> bind_task (locally (reconstructFile chunks (job_out j)))
           (\<lambda>done. Finish (Ret (if done then Reconstructed else ReconstructionFailed)))) ?Q" for r
  proof (cases "r = Inr (refetched 0 ?cs)")
    case True
    have get: "yields (client_rely w j) (client_guar w j) P (locally (reconstructFile (refetched 0 ?cs) (job_out j)))
        (\<lambda>done s. (P s \<and> files (fst s) (job_out j) = Some (job_data j)) \<and> done)"
    proof (rule yields_locally [OF carriedD(1) [OF P]])
      fix fs n assume "P (fs, n)"
      then show "\<exists>x fs'. reconstructFile (refetched 0 ?cs) (job_out j) fs = (x, fs') \<and> creatable fs' = creatable fs \<and>
          (\<forall>p. p \<notin> own_files j \<longrightarrow> files fs' p = files fs p) \<and>
          (P (fs', n) \<and> files (fst (fs', n)) (job_out j) = Some (job_data j)) \<and> x"
        using reconstruct_job [OF j, of fs "job_out j"] out [of "(fs, n)"] blind [of fs n] by (auto simp: own_files_def)
    qed (intro stable_conj stable_const Q)
    show ?thesis unfolding True sum.case
    proof (rule yields_pre [OF yields_bind [OF get]])
      fix b
      show "yields (client_rely w j) (client_guar w j) (\<lambda>s. (P s \<and> files (fst s) (job_out j) = Some (job_data j)) \<and> b)
          (Finish (Ret (if b then Reconstructed else ReconstructionFailed))) ?Q"
      proof (cases b)
        case True
        have "stable (client_rely w j) (?Q Reconstructed)" by (rule stable_conj [OF Q stable_const])
        then show ?thesis unfolding if_P [OF True] by (rule yields_finish) blast
      qed (simp add: yields_if_never)
    qed simp
  qed (simp add: yields_if_never)
  show "yields (client_rely w j) (client_guar w j) (\<lambda>s. P s \<and> found = Some (job_record j))
      (case found of None \<Rightarrow> Finish (Ret NotFound)
       | Some meta \<Rightarrow> bind_task (fetch_all_task fuel (dht_of (pool_client w)) 0 (meta_chunkHashes meta)) (\<lambda>fetched.
           case fetched of Inl i \<Rightarrow> Finish (Ret (ChunkMissing i))
           | Inr chunks \<Rightarrow> bind_task (locally (reconstructFile chunks (job_out j)))
               (\<lambda>done. Finish (Ret (if done then Reconstructed else ReconstructionFailed))))) ?Q"
  proof (cases "found = Some (job_record j)")
    case True
    note all = fetch_all_yields [OF w P, of ?cs fuel 0, OF cs(1) cs(2)]
    show ?thesis unfolding True option.case hs
      by (rule yields_bind [OF yields_pre [OF all] last_step]) (assumption | erule conjunct1)+
  qed (simp add: yields_if_never)
qed

end
