(* ===== verification/Concurrent_Clients.thy ===== *)
theory Concurrent_Clients
  imports Client_Pool
begin

text \<open>
  Several clients at once: the threads of \<open>testConcurrentClients\<close>
  (\<^verbatim>\<open>src/apps/main_system_tests.cpp\<close>), each a task of \<open>Client_Tasks\<close> that creates its
  file, uploads it, downloads it under another name, compares the content identifiers and
  removes both. All share one file system and one cluster; any of them may act between two
  actions of another.
\<close>

section \<open>The threads\<close>

definition numbered :: "string \<Rightarrow> nat \<Rightarrow> string \<Rightarrow> string" where
  "numbered stem i ext = stem @ to_string (int i) @ ext"

definition test_job :: "nat \<Rightarrow> job" where
  "test_job i = \<lparr>job_path = numbered ''concurrent_'' i ''.txt'', job_data = bytes_of_string (numbered ''Concurrent data '' i []),
     job_out = numbered ''concurrent_out_'' i ''.txt''\<rparr>"

text \<open>The body of a thread of \<open>testConcurrentClients\<close>; the value is \<open>True\<close> when the identifiers agree.\<close>

definition test_thread :: "nat \<Rightarrow> job \<Rightarrow> bool client_task" where
  "test_thread fuel j =
     bind_task (locally (\<lambda>fs. ((), write_file (job_path j) (job_data j) fs))) (\<lambda>_.
     bind_task (upload_task fuel test_client (job_path j)) (\<lambda>_.
     bind_task (download_task fuel test_client (job_path j) (job_out j)) (\<lambda>_.
     bind_task (locally (\<lambda>fs. (computeCID fs (job_path j), fs))) (\<lambda>originalCID.
     bind_task (locally (\<lambda>fs. (computeCID fs (job_out j), fs))) (\<lambda>downloadedCID.
     bind_task (locally (\<lambda>fs. ((), remove_file (job_path j) fs))) (\<lambda>_.
     bind_task (locally (\<lambda>fs. ((), remove_file (job_out j) fs))) (\<lambda>_.
     Finish (Ret (originalCID = downloadedCID)))))))))"

text \<open>
  The whole test: start the cluster, run the ten threads to their ends in some order, join
  them and stop the cluster. A thread that threw or found different identifiers is a
  failure; the verdict is \<open>True\<close> when there is none. A thread that blocks for ever keeps
  the test from returning.
\<close>

inductive testConcurrentClients :: "nat \<Rightarrow> file_system \<Rightarrow> bool \<Rightarrow> file_system \<Rightarrow> network \<Rightarrow> bool" where
  "par_step\<^sup>*\<^sup>* (map (\<lambda>i. test_thread fuel (test_job i)) [0..<10], fs, startCluster) (map Finish rs, fs', net) \<Longrightarrow>
   Hang \<notin> set rs \<Longrightarrow>
   testConcurrentClients fuel fs (list_all (\<lambda>r. r = Ret True) rs) fs' (kill_nodes fuel [8001, 8002, 9001, 9002, 9003] net)"

inductive_simps testConcurrentClients_iff: "testConcurrentClients fuel fs v fs' net'"

lemma to_string_nat_inj: "to_string (int i) = to_string (int k) \<longleftrightarrow> i = k"
proof -
  have "show_nat i = show_nat k \<longleftrightarrow> i = k" using digits_val_show_nat by (metis of_nat_eq_iff)
  then show ?thesis by (simp add: to_string_def)
qed

lemma to_string_digits: "c \<in> set (to_string (int i)) \<Longrightarrow> is_digit c"
  using show_nat_digits [of i] by (simp add: to_string_def list_all_iff)

lemma to_string_nat_head: "to_string (int i) \<noteq> c # cs" if "\<not> is_digit c"
  using to_string_digits [of c i] that by auto

lemma numbered_inj [simp]: "numbered stem i ext = numbered stem k ext \<longleftrightarrow> i = k"
  by (simp add: numbered_def to_string_nat_inj)

interpretation test: separate_files test_job
proof
  have out: "numbered ''concurrent_'' i e \<noteq> numbered ''concurrent_out_'' k e" for i k e
    using to_string_nat_head [of "CHR ''o''" i] by (auto simp: numbered_def append_eq_Cons_conv is_digit_def)
  note out' = out [symmetric]
  show "i \<noteq> k \<Longrightarrow> own_files (test_job i) \<inter> own_files (test_job k) = {}" for i k
    using out out' by (auto simp: own_files_def test_job_def)
  show "job_path (test_job i) \<noteq> job_out (test_job i)" for i using out by (simp add: test_job_def)
qed

section \<open>A whole thread\<close>

definition ready :: "pool \<Rightarrow> job \<Rightarrow> world \<Rightarrow> bool" where
  "ready w j s \<longleftrightarrow> net_base w (snd s) \<and> creatable (fst s) (job_path j) \<and> creatable (fst s) (job_out j)"

definition cleaned :: "pool \<Rightarrow> job \<Rightarrow> world \<Rightarrow> bool" where
  "cleaned w j s \<longleftrightarrow> net_base w (snd s) \<and> files (fst s) (job_path j) = None \<and> files (fst s) (job_out j) = None"

definition written :: "pool \<Rightarrow> job \<Rightarrow> world \<Rightarrow> bool" where
  "written w j s \<longleftrightarrow> net_base w (snd s) \<and> creatable (fst s) (job_out j) \<and> files (fst s) (job_path j) = Some (job_data j)"

definition restored :: "pool \<Rightarrow> job \<Rightarrow> world \<Rightarrow> bool" where
  "restored w j s \<longleftrightarrow> net_base w (snd s) \<and> files (fst s) (job_path j) = Some (job_data j) \<and> files (fst s) (job_out j) = Some (job_data j)"

lemma own_files [simp]: "job_path j \<in> own_files j" "job_out j \<in> own_files j"
  by (simp_all add: own_files_def)

lemma stable_phases:
  assumes "pool_ok w"
  shows "stable (client_rely w j) (ready w j)" "stable (client_rely w j) (written w j)"
    and "stable (client_rely w j) (restored w j)" "stable (client_rely w j) (cleaned w j)"
  unfolding ready_def written_def restored_def cleaned_def by (intro stable_intros assms own_files)+

lemma session_yields:
  assumes w: "pool_ok w" "pool_client w = test_client" and j: "job_ok w fuel j"
    and k: "yields (client_rely w j) (client_guar w j) (restored w j) (k (Uploaded (hd (metadataNodes test_client))) Reconstructed) Q"
  shows "yields (client_rely w j) (client_guar w j) (ready w j)
    (bind_task (locally (\<lambda>fs. ((), write_file (job_path j) (job_data j) fs))) (\<lambda>_.
     bind_task (upload_task fuel test_client (job_path j)) (\<lambda>up.
     bind_task (download_task fuel test_client (job_path j) (job_out j)) (\<lambda>down. k up down)))) Q"
proof (rule yields_bind)
  note st = stable_phases [OF w(1), of j]
  show "yields (client_rely w j) (client_guar w j) (ready w j) (locally (\<lambda>fs. ((), write_file (job_path j) (job_data j) fs))) (\<lambda>_. written w j)"
    by (rule yields_locally [OF st(1,2)]) (auto simp: ready_def written_def write_file_def own_files_def)
  have W: "carried w j (written w j)" unfolding carried_def using st(2) by (simp add: written_def)
  have f: "files (fst s) (job_path j) = Some (job_data j)" if "written w j s" for s using that by (simp add: written_def)
  note up = upload_yields [OF w(1) j W f, unfolded w(2)]
  show "yields (client_rely w j) (client_guar w j) (written w j)
      (bind_task (upload_task fuel test_client (job_path j)) (\<lambda>up.
       bind_task (download_task fuel test_client (job_path j) (job_out j)) (\<lambda>down. k up down))) Q"
  proof (rule yields_bind [OF up])
    fix u
    let ?P = "\<lambda>s. written w j s \<and> uploaded w j s"
    have P: "carried w j ?P" by (rule carried_conj [OF W stable_uploaded [OF w(1) j]])
    have down: "yields (client_rely w j) (client_guar w j) ?P (download_task fuel test_client (job_path j) (job_out j))
        (\<lambda>x s. (?P s \<and> files (fst s) (job_out j) = Some (job_data j)) \<and> x = Reconstructed)"
    proof (rule download_yields [OF w(1) j P, unfolded w(2)])
      show "?P (fs\<lparr>files := (files fs)(job_out j \<mapsto> v)\<rparr>, n)" if "?P (fs, n)" for fs n v
        using that job_okD(6) [OF j] by (simp add: written_def uploaded_def stored_chunk_def)
    qed (auto simp: written_def)
    show "yields (client_rely w j) (client_guar w j) (\<lambda>s. ?P s \<and> u = Uploaded (hd (metadataNodes test_client)))
        (bind_task (download_task fuel test_client (job_path j) (job_out j)) (\<lambda>down. k u down)) Q"
    proof (cases "u = Uploaded (hd (metadataNodes test_client))")
      case True
      have "yields (client_rely w j) (client_guar w j) ?P (bind_task (download_task fuel test_client (job_path j) (job_out j)) (\<lambda>down. k u down)) Q"
      proof (rule yields_bind [OF down])
        fix d
        show "yields (client_rely w j) (client_guar w j)
            (\<lambda>s. (?P s \<and> files (fst s) (job_out j) = Some (job_data j)) \<and> d = Reconstructed) (k u d) Q"
        proof (cases "d = Reconstructed")
          case r: True
          show ?thesis unfolding r True by (rule yields_pre [OF k]) (simp add: restored_def written_def)
        qed (simp add: yields_if_never)
      qed
      then show ?thesis by (rule yields_pre) (erule conjunct1)
    qed (simp add: yields_if_never)
  qed
qed

lemma cleanup_yields:
  assumes w: "pool_ok w" and j: "job_path j \<noteq> job_out j"
  shows "yields (client_rely w j) (client_guar w j) (restored w j)
    (bind_task (locally (\<lambda>fs. ((), remove_file (job_path j) fs))) (\<lambda>_.
     bind_task (locally (\<lambda>fs. ((), remove_file (job_out j) fs))) (\<lambda>_. Finish (Ret x)))) (\<lambda>y s. cleaned w j s \<and> y = x)"
proof (rule yields_bind)
  note st = stable_phases [OF w, of j]
  let ?M = "\<lambda>s. net_base w (snd s) \<and> files (fst s) (job_path j) = None"
  have M: "stable (client_rely w j) ?M" by (intro stable_intros w own_files)
  show "yields (client_rely w j) (client_guar w j) (restored w j) (locally (\<lambda>fs. ((), remove_file (job_path j) fs))) (\<lambda>_. ?M)"
    by (rule yields_locally [OF st(3) M]) (simp add: restored_def remove_file_def own_files_def)
  show "yields (client_rely w j) (client_guar w j) ?M
      (bind_task (locally (\<lambda>fs. ((), remove_file (job_out j) fs))) (\<lambda>_. Finish (Ret x))) (\<lambda>y s. cleaned w j s \<and> y = x)"
  proof (rule yields_bind)
    show "yields (client_rely w j) (client_guar w j) ?M (locally (\<lambda>fs. ((), remove_file (job_out j) fs))) (\<lambda>_. cleaned w j)"
      by (rule yields_locally [OF M st(4)]) (simp add: cleaned_def remove_file_def own_files_def)
    show "yields (client_rely w j) (client_guar w j) (cleaned w j) (Finish (Ret x)) (\<lambda>y s. cleaned w j s \<and> y = x)"
      by (rule yields_finish) (simp_all add: stable_conj st(4))
  qed
qed

lemma cid_yields:
  assumes w: "pool_ok w" and p: "p = job_path j \<or> p = job_out j"
  shows "yields (client_rely w j) (client_guar w j) (restored w j) (locally (\<lambda>fs. (computeCID fs p, fs)))
    (\<lambda>x s. restored w j s \<and> x = computeCID (job_fs j) (job_path j))"
proof (rule yields_locally)
  show "stable (client_rely w j) (\<lambda>s. restored w j s \<and> x = computeCID (job_fs j) (job_path j))" for x
    by (intro stable_conj stable_const stable_phases w)
  fix fs n assume r: "restored w j (fs, n)"
  then have "files fs p = files (job_fs j) (job_path j)" using p by (auto simp: restored_def job_fs_def)
  then show "\<exists>x fs'. (computeCID fs p, fs) = (x, fs') \<and> creatable fs' = creatable fs \<and>
      (\<forall>p. p \<notin> own_files j \<longrightarrow> files fs' p = files fs p) \<and> restored w j (fs', n) \<and> x = computeCID (job_fs j) (job_path j)"
    using computeCID_cong r by blast
qed (rule stable_phases [OF w])

lemma test_thread_yields:
  assumes w: "pool_ok w" "pool_client w = test_client" and j: "job_ok w fuel j"
  shows "yields (client_rely w j) (client_guar w j) (ready w j) (test_thread fuel j) (\<lambda>x s. cleaned w j s \<and> x)"
  unfolding test_thread_def
proof (rule session_yields [OF w j], rule yields_bind [OF cid_yields [OF w(1) disjI1 [OF refl]]])
  fix x
  let ?cid = "computeCID (job_fs j) (job_path j)"
  note c = cid_yields [OF w(1) disjI2 [OF refl], of j]
  have *: "yields (client_rely w j) (client_guar w j) (\<lambda>s. restored w j s \<and> y = ?cid)
      (bind_task (locally (\<lambda>fs. ((), remove_file (job_path j) fs))) (\<lambda>_.
       bind_task (locally (\<lambda>fs. ((), remove_file (job_out j) fs))) (\<lambda>_. Finish (Ret (?cid = y))))) (\<lambda>x s. cleaned w j s \<and> x)" for y
    by (cases "y = ?cid")
      (use yields_post [OF cleanup_yields [OF w(1) job_okD(6) [OF j], of "?cid = y"]] in \<open>auto simp: yields_if_never elim: yields_pre\<close>)
  show "yields (client_rely w j) (client_guar w j) (\<lambda>s. restored w j s \<and> x = ?cid)
      (bind_task (locally (\<lambda>fs. (computeCID fs (job_out j), fs))) (\<lambda>downloadedCID.
       bind_task (locally (\<lambda>fs. ((), remove_file (job_path j) fs))) (\<lambda>_.
       bind_task (locally (\<lambda>fs. ((), remove_file (job_out j) fs))) (\<lambda>_. Finish (Ret (x = downloadedCID))))))
      (\<lambda>x s. cleaned w j s \<and> x)"
  proof (cases "x = ?cid")
    case True
    show ?thesis unfolding True by (rule yields_pre [OF yields_bind [OF c *]]) (erule conjunct1)
  qed (simp add: yields_if_never)
qed

section \<open>The pool of a program\<close>

definition pool_of :: "job list \<Rightarrow> pool" where
  "pool_of js = \<lparr>pool_client = test_client, pool_chain = local_chain, pool_net = startCluster,
     pool_chunks = (\<Union>j \<in> set js. set (job_chunks j)), pool_records = job_record ` set js\<rparr>"

lemma startCluster_empty: "chunk_at e h startCluster = None"
  by (simp add: chunk_at_def startCluster_def new_storage_node_def split: option.splits)

lemma pool_of_ok:
  assumes carr: "\<And>j. j \<in> set js \<Longrightarrow> carriable (job_fs j) (job_path j) (job_data j) \<and> base_name (job_path j) = job_path j"
    and names: "\<And>j k. j \<in> set js \<Longrightarrow> k \<in> set js \<Longrightarrow> job_path j = job_path k \<Longrightarrow> j = k"
    and free: "\<And>j k c d. j \<in> set js \<Longrightarrow> k \<in> set js \<Longrightarrow> c \<in> set (job_chunks j) \<Longrightarrow> d \<in> set (job_chunks k) \<Longrightarrow>
      chunk_hash c = chunk_hash d \<Longrightarrow> chunk_data c = chunk_data d"
  shows "pool_ok (pool_of js)"
proof -
  have "healthy startCluster test_client local_chain" using healthy_local by (simp add: test_client_eq)
  moreover have "good_chunk c" if "j \<in> set js" "c \<in> set (job_chunks j)" for j c
    using file_chunk_good(1) carr that unfolding job_chunks_def by blast
  moreover have name: "meta_filename (job_record j) = job_path j" if "j \<in> set js" for j
    using carr [OF that] by (simp add: job_record_def file_record_simps)
  have "inj_on meta_filename (job_record ` set js)"
  proof (rule inj_onI)
    fix m m' assume "m \<in> job_record ` set js" "m' \<in> job_record ` set js" and f: "meta_filename m = meta_filename m'"
    then obtain j k where "j \<in> set js" "m = job_record j" "k \<in> set js" "m' = job_record k" by blast
    then show "m = m'" using names name f by metis
  qed
  ultimately show ?thesis unfolding pool_ok_def pool_of_def by (simp add: startCluster_empty) (use free in blast)
qed

lemma job_of_pool:
  assumes "j \<in> set js" and "carriable (job_fs j) (job_path j) (job_data j)" and "base_name (job_path j) = job_path j"
    and "job_path j \<noteq> job_out j" and "2 \<le> fuel"
  shows "job_ok (pool_of js) fuel j"
  using assms by (auto simp: job_ok_def pool_of_def local_chain_def)

text \<open>A file of one chunk.\<close>

lemma one_chunk:
  assumes "carriable (job_fs j) (job_path j) (job_data j)" and "length (job_data j) \<le> CHUNK_SIZE"
  shows "\<exists>c. job_chunks j = [c] \<and> chunk_data c = job_data j \<and> chunk_hash c = sha256 (job_data j)"
proof -
  have "job_data j \<noteq> []" using assms(1) by (simp add: carriable_def)
  then have "length (read_chunks 0 (job_data j)) = 1"
    using assms(2) unfolding read_chunks_count by (intro div_nat_eqI) (simp_all add: CHUNK_SIZE_def Suc_le_eq)
  then obtain b where b: "read_chunks 0 (job_data j) = [b]" by (auto simp: length_Suc_conv)
  then have d: "valid_data b = job_data j" using read_chunks_concat [of 0 "job_data j"] by simp
  have c: "job_chunks j = [hashChunk b]" using b by (simp add: job_chunks_def file_chunks_eq [OF assms(1)])
  then have "chunk_data (hashChunk b) = job_data j"
    using file_chunks_data [OF assms(1)] by (simp add: job_chunks_def)
  then show ?thesis using c d by simp
qed

lemma word_name:
  assumes "list_all (\<lambda>c. \<not> is_space c \<and> c \<noteq> CHR ''/'' \<and> c \<noteq> CHR 0x5C) stem" and "stem \<noteq> []"
    and "list_all (\<lambda>c. \<not> is_space c \<and> c \<noteq> CHR ''/'' \<and> c \<noteq> CHR 0x5C) ext"
  shows "is_word (numbered stem i ext)" and "base_name (numbered stem i ext) = numbered stem i ext"
proof -
  have d: "\<not> is_space c \<and> c \<noteq> CHR ''/'' \<and> c \<noteq> CHR 0x5C" if "c \<in> set (to_string (int i))" for c
    using to_string_digits [OF that] digit_not_space [of c] by (auto simp: is_digit_def)
  then have all: "\<forall>c \<in> set (numbered stem i ext). \<not> is_space c \<and> c \<noteq> CHR ''/'' \<and> c \<noteq> CHR 0x5C"
    using assms(1,3) unfolding list_all_iff numbered_def set_append by blast
  then show "is_word (numbered stem i ext)" using assms(2) by (simp add: is_word_def list_all_iff numbered_def)
  have "set [CHR ''/'', CHR 0x5C] \<inter> set (numbered stem i ext) = {}" using all by auto
  then show "base_name (numbered stem i ext) = numbered stem i ext" unfolding base_name_def by (rule after_last_of_none)
qed

lemma numbered_length: "i < 10 ^ 19 \<Longrightarrow> length (numbered stem i ext) \<le> length stem + 20 + length ext"
  using to_string_length [of "int i"] by (simp add: numbered_def)

lemma test_job_ok:
  assumes "i < 10"
  shows "carriable (job_fs (test_job i)) (job_path (test_job i)) (job_data (test_job i)) \<and>
    base_name (job_path (test_job i)) = job_path (test_job i) \<and> length (job_data (test_job i)) \<le> CHUNK_SIZE"
proof -
  let ?p = "numbered ''concurrent_'' i ''.txt''" and ?d = "numbered ''Concurrent data '' i []"
  have "is_word ?p" "base_name ?p = ?p" by (rule word_name; simp add: is_space_def)+
  moreover have "length ?p \<le> 35" "length ?d \<le> 36"
    using numbered_length [of i "''concurrent_''" "''.txt''"] numbered_length [of i "''Concurrent data ''" "[]"] assms by simp_all
  moreover have "?d \<noteq> []" by (simp add: numbered_def)
  ultimately show ?thesis by (simp add: test_job_def carriable_def job_fs_def CHUNK_SIZE_def)
qed

lemma ready_start:
  "pool_ok (pool_of js) \<Longrightarrow> creatable fs (job_path j) \<Longrightarrow> creatable fs (job_out j) \<Longrightarrow> ready (pool_of js) j (fs, startCluster)"
  using net_base_start [of "pool_of js"] by (simp add: ready_def pool_of_def)

lemma cleaned_up: "cleaned (pool_of js) j s \<Longrightarrow> endpoint_of (snd s) = endpoint_of startCluster \<and> up_at (snd s) = up_at startCluster"
  unfolding cleaned_def using net_baseD(1,3) [of "pool_of js"] by (simp add: pool_of_def)

abbreviation test_jobs :: "job list" where
  "test_jobs \<equiv> map test_job [0..<10]"

definition test_threads :: "nat \<Rightarrow> bool client_task list" where
  "test_threads fuel = map (\<lambda>i. test_thread fuel (test_job i)) [0..<10]"

lemma test_pool_ok:
  assumes "\<And>i k. i < k \<Longrightarrow> k < 10 \<Longrightarrow> sha256 (job_data (test_job i)) \<noteq> sha256 (job_data (test_job k))"
  shows "pool_ok (pool_of test_jobs)"
proof (rule pool_of_ok)
  have num: "\<exists>i < 10. j = test_job i" if "j \<in> set test_jobs" for j using that by auto
  show "carriable (job_fs j) (job_path j) (job_data j) \<and> base_name (job_path j) = job_path j" if "j \<in> set test_jobs" for j
    using num [OF that] test_job_ok by blast
  show "j = k" if "j \<in> set test_jobs" "k \<in> set test_jobs" "job_path j = job_path k" for j k
    using num [OF that(1)] num [OF that(2)] that(3) by (auto simp: test_job_def)
  show "chunk_data c = chunk_data d" if j: "j \<in> set test_jobs" and k: "k \<in> set test_jobs"
      and c: "c \<in> set (job_chunks j)" and d: "d \<in> set (job_chunks k)" and h: "chunk_hash c = chunk_hash d" for j k c d
  proof -
    obtain i l where i: "i < 10" "j = test_job i" and l: "l < 10" "k = test_job l" using num [OF j] num [OF k] by blast
    have "chunk_data c = job_data j" "chunk_hash c = sha256 (job_data j)" "chunk_data d = job_data k" "chunk_hash d = sha256 (job_data k)"
      using one_chunk [of j] one_chunk [of k] test_job_ok [OF i(1)] test_job_ok [OF l(1)] c d unfolding i(2) l(2) by fastforce+
    moreover have "i = l" using assms [of i l] assms [of l i] h calculation(2,4) i l by (metis nat_neq_iff)
    ultimately show ?thesis using i(2) l(2) by simp
  qed
qed

lemma test_threads_return:
  assumes "pool_ok (pool_of test_jobs)" and "2 \<le> fuel"
    and files: "\<forall>i < 10. creatable fs (job_path (test_job i)) \<and> creatable fs (job_out (test_job i))"
    and run: "par_step\<^sup>*\<^sup>* (test_threads fuel, fs, startCluster) (map Finish rs, s)"
  shows "rs = replicate 10 (Ret True)" and "\<forall>i < 10. cleaned (pool_of test_jobs) (test_job i) s"
    and "disk_kept fs (\<Union>i < 10. own_files (test_job i)) s"
proof -
  let ?w = "pool_of test_jobs"
  have y: "yields (client_rely ?w (test_job i)) (client_guar ?w (test_job i)) (ready ?w (test_job i)) (test_threads fuel ! i)
      (\<lambda>x s. cleaned ?w (test_job i) s \<and> x) \<and> ready ?w (test_job i) (fs, startCluster)" if i: "i < length (test_threads fuel)" for i
  proof -
    have i: "i < 10" using i by (simp add: test_threads_def)
    then have "job_ok ?w fuel (test_job i)"
      using job_of_pool [of "test_job i" test_jobs fuel] test_job_ok [OF i] test.two_files [of i] assms(2) by auto
    then show ?thesis
      using test_thread_yields [OF assms(1), of fuel "test_job i"] ready_start [OF assms(1), of fs "test_job i"] files i
      by (simp add: pool_of_def test_threads_def)
  qed
  from test.clients.run_yields [OF run, of ?w, rule_format, OF y]
  have r: "length rs = 10" "\<forall>i < 10. rs ! i = Ret True \<and> cleaned ?w (test_job i) s" by (auto simp: test_threads_def)
  then show "rs = replicate 10 (Ret True)" by (auto intro: nth_equalityI)
  show "\<forall>i < 10. cleaned ?w (test_job i) s" using r(2) by blast
  show "disk_kept fs (\<Union>i < 10. own_files (test_job i)) s"
  proof (rule test.clients.run_yields_invariant [OF run, of ?w "\<lambda>i. ready ?w (test_job i)" "\<lambda>i x s. cleaned ?w (test_job i) s \<and> x"])
    show "disk_kept fs (\<Union>i < 10. own_files (test_job i)) t"
      if "i < length (test_threads fuel)" "disk_kept fs (\<Union>i < 10. own_files (test_job i)) s" "client_guar ?w (test_job i) s t" for i s t
      by (rule disk_kept_guar [OF _ that(2,3)]) (use that(1) in \<open>auto simp: test_threads_def\<close>)
  qed (use y in \<open>simp_all add: disk_kept_def\<close>)
qed

lemma concurrent_result:
  assumes "pool_ok (pool_of test_jobs)" and "2 \<le> fuel"
    and "\<forall>i < 10. creatable fs (job_path (test_job i)) \<and> creatable fs (job_out (test_job i))"
  shows "\<exists>v fs' net'. testConcurrentClients fuel fs v fs' net'"
    and "testConcurrentClients fuel fs v fs' net' \<Longrightarrow> v \<and> (\<forall>e. \<not> up_at net' e) \<and> creatable fs' = creatable fs \<and>
      files fs' = (\<lambda>p. if \<exists>i < 10. p \<in> own_files (test_job i) then None else files fs p)"
proof -
  let ?c = "(test_threads fuel, fs, startCluster)"
  note fin = test_threads_return [OF assms]
  obtain rs s where run: "par_step\<^sup>*\<^sup>* ?c (map Finish rs, s)" using par_finishes [of ?c] by (elim exE)
  then have "Hang \<notin> set rs" using fin(1) [OF run] by simp
  with run show "\<exists>v fs' net'. testConcurrentClients fuel fs v fs' net'"
    unfolding testConcurrentClients_iff test_threads_def [symmetric] by (metis prod.collapse)
next
  let ?c = "(test_threads fuel, fs, startCluster)"
  assume "testConcurrentClients fuel fs v fs' net'"
  then obtain rs net where run: "par_step\<^sup>*\<^sup>* ?c (map Finish rs, fs', net)" and v: "v = list_all (\<lambda>r. r = Ret True) rs"
      and net': "net' = kill_nodes fuel [8001, 8002, 9001, 9002, 9003] net"
    unfolding testConcurrentClients_iff test_threads_def [symmetric] by blast
  note r = test_threads_return [OF assms run]
  have "cleaned (pool_of test_jobs) (test_job 0) (fs', net)" using r(2) by simp
  then have base: "endpoint_of net = endpoint_of startCluster" "up_at net = up_at startCluster" using cleaned_up by fastforce+
  have "\<not> up_at net' e" for e
    using up_startCluster [of e] base by (auto simp: net' up_at_kill_nodes)
  moreover have "files fs' = (\<lambda>p. if \<exists>i < 10. p \<in> own_files (test_job i) then None else files fs p)"
    using r(2,3) by (intro ext) (auto simp: cleaned_def disk_kept_def own_files_def)
  moreover have "creatable fs' = creatable fs" using r(3) by (simp add: disk_kept_def)
  ultimately show "v \<and> (\<forall>e. \<not> up_at net' e) \<and> creatable fs' = creatable fs \<and>
      files fs' = (\<lambda>p. if \<exists>i < 10. p \<in> own_files (test_job i) then None else files fs p)" using r(1) by (simp add: v list_all_iff)
qed

section \<open>Properties\<close>

text \<open>
  C13: The concurrent clients test passes. However the actions of its ten clients interleave,
  no schedule goes on for ever, every thread returns with equal content identifiers, the
  verdict is \<^verbatim>\<open>[PASS]\<close>, all servers are down at the end, the files of all clients are gone
  and no other file has changed; unless two of the ten contents have the same SHA-256 digest.
\<close>
theorem concurrent_clients_pass:
  assumes "2 \<le> fuel" and "\<forall>i < 10. creatable fs (job_path (test_job i)) \<and> creatable fs (job_out (test_job i))"
  shows "(\<exists>i k. i < k \<and> k < 10 \<and> sha256 (job_data (test_job i)) = sha256 (job_data (test_job k))) \<or>
    ((\<nexists>c. c 0 = (test_threads fuel, fs, startCluster) \<and> (\<forall>n. par_step (c n) (c (Suc n)))) \<and>
     (\<forall>ts s. par_step\<^sup>*\<^sup>* (test_threads fuel, fs, startCluster) (ts, s) \<and> (\<nexists>c. par_step (ts, s) c) \<longrightarrow>
        ts = replicate 10 (Finish (Ret True))) \<and>
     (\<exists>v fs' net'. testConcurrentClients fuel fs v fs' net') \<and>
     (\<forall>v fs' net'. testConcurrentClients fuel fs v fs' net' \<longrightarrow> v \<and> (\<forall>e. \<not> up_at net' e) \<and>
        files fs' = (\<lambda>p. if \<exists>i < 10. p \<in> own_files (test_job i) then None else files fs p)))"
proof -
  let ?c = "(test_threads fuel, fs, startCluster)"
  consider (collision) i k where "i < k" "k < 10" "sha256 (job_data (test_job i)) = sha256 (job_data (test_job k))"
    | (free) "pool_ok (pool_of test_jobs)" using test_pool_ok by blast
  then show ?thesis
  proof cases
    case free
    note fin = test_threads_return [OF free assms]
    have stuck: "ts = replicate 10 (Finish (Ret True))" if r: "par_step\<^sup>*\<^sup>* ?c (ts, s)" and no: "\<nexists>d. par_step (ts, s) d" for ts s
    proof -
      obtain rs where ts: "ts = map Finish rs" using iffD1 [OF par_step_stuck no] by (elim exE)
      have "rs = replicate 10 (Ret True)" by (rule fin(1)) (use r in \<open>simp only: ts\<close>)
      then show ?thesis by (simp add: ts)
    qed
    note returns = concurrent_result(1) [OF free assms]
    have verdict: "v \<and> (\<forall>e. \<not> up_at net' e) \<and>
        files fs' = (\<lambda>p. if \<exists>i < 10. p \<in> own_files (test_job i) then None else files fs p)"
      if t: "testConcurrentClients fuel fs v fs' net'" for v fs' net'
      using concurrent_result(2) [OF free assms t] by blast
    have "\<nexists>c. c 0 = ?c \<and> (\<forall>n. par_step (c n) (c (Suc n)))" 
      by (intro notI, elim exE conjE, rule notE [OF no_endless_run])
    moreover have "\<forall>ts s. par_step\<^sup>*\<^sup>* ?c (ts, s) \<and> (\<nexists>d. par_step (ts, s) d) \<longrightarrow> ts = replicate 10 (Finish (Ret True))"
      by (intro allI impI) (elim conjE, rule stuck)
    moreover have "\<forall>v fs' net'. testConcurrentClients fuel fs v fs' net' \<longrightarrow> v \<and> (\<forall>e. \<not> up_at net' e) \<and>
        files fs' = (\<lambda>p. if \<exists>i < 10. p \<in> own_files (test_job i) then None else files fs p)"
      by (intro allI impI) (rule verdict)
    ultimately show ?thesis using returns by (intro disjI2 conjI)
  qed blast
qed

definition open_fs :: file_system where
  "open_fs = \<lparr>files = Map.empty, creatable = (\<lambda>p. True)\<rparr>"

theorem concurrent_clients_pass_witness:
  "(\<exists>i k. i < k \<and> k < 10 \<and> sha256 (job_data (test_job i)) = sha256 (job_data (test_job k))) \<or>
   (\<exists>fs' net'. testConcurrentClients 2 open_fs True fs' net')"
proof -
  have "\<forall>i < 10. creatable open_fs (job_path (test_job i)) \<and> creatable open_fs (job_out (test_job i))" by (simp add: open_fs_def)
  note T = concurrent_clients_pass [OF order_refl this]
  have "\<exists>x y. R True x y" if "A \<and> B \<and> (\<exists>v x y. R v x y) \<and> (\<forall>v x y. R v x y \<longrightarrow> v \<and> S x y)"
    for A B S and R :: "bool \<Rightarrow> file_system \<Rightarrow> network \<Rightarrow> bool" using that by (metis (full_types))
  from disj_forward [OF T _ this] show ?thesis by assumption
qed

end
