(* ===== verification/Test_Suite.thy ===== *)
theory Test_Suite
  imports Concurrent_Clients
begin

text \<open>
  The program of \<^verbatim>\<open>src/apps/main_system_tests.cpp\<close>: the three tests one after the other, each
  on a cluster of its own, on the file system the one before has left. The report holds the
  verdicts printed: of the storage failure test, of the concurrent clients test and, for
  each file that exists, of the binary file test.
\<close>

type_synonym test_report = "bool \<times> bool \<times> (string \<times> bool) list"

inductive system_tests_main :: "nat \<Rightarrow> file_system \<Rightarrow> int \<Rightarrow> test_report option \<Rightarrow> file_system \<Rightarrow> bool" where
  completed: "testStorageFailure fuel fs = (Ret v1, fs1, net1) \<Longrightarrow> testConcurrentClients fuel fs1 v2 fs2 net2 \<Longrightarrow>
    testBinaryFiles fuel fs2 = (Ret vs, fs3, net3) \<Longrightarrow> system_tests_main fuel fs 0 (Some (v1, v2, vs)) fs3"
| storage_threw: "testStorageFailure fuel fs = (Throw e, fs1, net1) \<Longrightarrow> system_tests_main fuel fs 1 None fs1"
| binary_threw: "testStorageFailure fuel fs = (Ret v1, fs1, net1) \<Longrightarrow> testConcurrentClients fuel fs1 v2 fs2 net2 \<Longrightarrow>
    testBinaryFiles fuel fs2 = (Throw e, fs3, net3) \<Longrightarrow> system_tests_main fuel fs 1 None fs3"

inductive_simps system_tests_main_iff: "system_tests_main fuel fs status report fs'"

section \<open>The files of the tests\<close>

abbreviation client_files :: "string set" where
  "client_files \<equiv> \<Union>i < 10. own_files (test_job i)"

abbreviation failure_files :: "string set" where
  "failure_files \<equiv> {''test_storage_fail.txt'', ''test_storage_fail_out.txt''}"

abbreviation restored_files :: "string set" where
  "restored_files \<equiv> {''restored_test_image.jpg'', ''restored_test_pdf.pdf''}"

lemma not_client_file [simp]: "c \<noteq> CHR ''c'' \<Longrightarrow> c # p \<notin> own_files (test_job i)"
  by (simp add: own_files_def test_job_def numbered_def)

lemma carriable_cong:
  assumes "files fs p = files fs' p"
  shows "carriable fs p d = carriable fs' p d" and "collision_free fs p = collision_free fs' p"
  using assms by (simp_all add: carriable_def collision_free_def file_chunks_def splitFileIntoChunks_def)

text \<open>What the binary file test asks of its two files, where they exist.\<close>

definition sendable :: "file_system \<Rightarrow> string \<Rightarrow> bool" where
  "sendable fs f \<longleftrightarrow> files fs f = None \<or> (\<exists>d. carriable fs f d \<and> collision_free fs f)"

lemma sendable_cong: "files fs p = files fs' p \<Longrightarrow> sendable fs p = sendable fs' p"
  using carriable_cong [of fs p fs'] by (simp add: sendable_def)

section \<open>The whole program\<close>

abbreviation after_failure_test :: "file_system \<Rightarrow> file_system" where
  "after_failure_test fs \<equiv> fs\<lparr>files := (files fs)(''test_storage_fail.txt'' := None, ''test_storage_fail_out.txt'' := None)\<rparr>"

definition suite_files :: "file_system \<Rightarrow> file_system \<Rightarrow> bool" where
  "suite_files fs fs' \<longleftrightarrow> (\<forall>p \<in> failure_files \<union> client_files. files fs' p = None) \<and>
     (\<forall>p. p \<notin> failure_files \<union> client_files \<union> restored_files \<longrightarrow> files fs' p = files fs p)"

abbreviation binary_verdicts :: "file_system \<Rightarrow> (string \<times> bool) list" where
  "binary_verdicts fs \<equiv> map (\<lambda>f. (f, True)) (filter (\<lambda>f. files fs f \<noteq> None) [''test_image.jpg'', ''test_pdf.pdf''])"

text \<open>The last two tests, on the disk the first one leaves.\<close>

lemma later_tests:
  assumes "2 \<le> fuel" and "\<forall>p \<in> failure_files \<union> client_files \<union> restored_files. creatable fs p"
    and "\<forall>f \<in> {''test_image.jpg'', ''test_pdf.pdf''}. sendable fs f" and free: "pool_ok (pool_of test_jobs)"
    and conc: "testConcurrentClients fuel (after_failure_test fs) v fs2 net2"
  shows "v \<and> (\<exists>fs3 net3. testBinaryFiles fuel fs2 = (Ret (binary_verdicts fs), fs3, net3) \<and> suite_files fs fs3)"
proof -
  have c: "\<forall>i < 10. creatable (after_failure_test fs) (job_path (test_job i)) \<and> creatable (after_failure_test fs) (job_out (test_job i))"
    using assms(2) by auto
  from concurrent_result(2) [OF free assms(1) c conc] have v: v and cr: "creatable fs2 = creatable fs"
    and f2: "files fs2 = (\<lambda>p. if \<exists>i < 10. p \<in> own_files (test_job i) then None else files (after_failure_test fs) p)" by simp_all
  have same: "files fs2 p = files fs p" if "p \<notin> failure_files \<union> client_files" for p using that f2 by auto
  have gone: "files fs2 p = None" if "p \<in> failure_files \<union> client_files" for p using that f2 by auto
  have img: "files fs2 ''test_image.jpg'' = files fs ''test_image.jpg''" "files fs2 ''test_pdf.pdf'' = files fs ''test_pdf.pdf''"
    by (rule same; simp)+
  have restored: "creatable fs ''restored_test_image.jpg''" "creatable fs ''restored_test_pdf.pdf''" by (rule bspec [OF assms(2)]; simp)+
  have "sendable fs2 ''test_image.jpg''" "sendable fs2 ''test_pdf.pdf''"
    unfolding sendable_cong [OF img(1)] sendable_cong [OF img(2)] by (rule bspec [OF assms(3)]; simp)+
  then have "\<forall>f \<in> {''test_image.jpg'', ''test_pdf.pdf''}. (files fs2 f = None \<or> (\<exists>d. carriable fs2 f d \<and> collision_free fs2 f)) \<and>
      creatable fs2 (''restored_'' @ f)"
    using restored unfolding cr sendable_def [symmetric] by simp
  from binary_file_test_passes [OF this assms(1)] obtain fs3 net3 where
    3: "testBinaryFiles fuel fs2 = (Ret (binary_verdicts fs2), fs3, net3)"
    and f3: "\<forall>p. p \<notin> restored_files \<longrightarrow> files fs3 p = files fs2 p" by (elim exE conjE) (rule that)
  have "files fs3 p = None" if "p \<in> failure_files \<union> client_files" for p
  proof -
    have "p \<notin> restored_files" using that by auto
    then show ?thesis using f3 gone [OF that] by simp
  qed
  moreover have "files fs3 p = files fs p" if "p \<notin> failure_files \<union> client_files \<union> restored_files" for p
    using that f3 same by simp
  ultimately have "suite_files fs fs3" unfolding suite_files_def by (intro conjI ballI allI impI)
  moreover have "binary_verdicts fs2 = binary_verdicts fs" using img by simp
  ultimately show ?thesis using v 3 by simp
qed



end
