(* ===== verification/Performance.thy ===== *)
theory Performance
  imports Concurrent_Clients Complex_Main
begin

text \<open>
  The measuring programs \<^verbatim>\<open>src/apps/main_performance_experiments.cpp\<close> (\<open>runWorkload\<close>, the two
  experiments) and \<^verbatim>\<open>src/apps/main_performance_evaluation.cpp\<close> (\<open>runTest\<close> and its \<open>main\<close>).
  Random data and clock readings are arguments. The averages and the success rate are the
  exact rational values, before they are rounded to a \<^verbatim>\<open>double\<close>. What the programs print
  and the text of their result files are not modelled.
\<close>

section \<open>runWorkload\<close>

text \<open>
  A thread of \<open>runWorkload\<close>, given the random data. Its value is what it pushes to
  \<open>successes\<close>: \<open>True\<close> at the end of the body, \<open>False\<close> in the exception handler.
\<close>

definition work_job :: "bytes \<Rightarrow> nat \<Rightarrow> job" where
  "work_job d i = \<lparr>job_path = numbered ''perf_test_'' i ''.bin'', job_data = d, job_out = numbered ''perf_out_'' i ''.bin''\<rparr>"

definition work_thread :: "nat \<Rightarrow> job \<Rightarrow> (upload_report \<times> download_report) client_task" where
  "work_thread fuel j =
     bind_task (locally (\<lambda>fs. ((), write_file (job_path j) (job_data j) fs))) (\<lambda>_.
     bind_task (upload_task fuel test_client (job_path j)) (\<lambda>up.
     bind_task (download_task fuel test_client (job_path j) (job_out j)) (\<lambda>down.
     bind_task (locally (\<lambda>fs. ((), remove_file (job_path j) fs))) (\<lambda>_.
     bind_task (locally (\<lambda>fs. ((), remove_file (job_out j) fs))) (\<lambda>_.
     Finish (Ret (up, down)))))))"

definition counted_success :: "'a outcome \<Rightarrow> bool" where
  "counted_success r = (case r of Ret x \<Rightarrow> True | Throw e \<Rightarrow> False | Hang \<Rightarrow> False)"

definition work_threads :: "nat \<Rightarrow> bytes \<Rightarrow> nat \<Rightarrow> (upload_report \<times> download_report) client_task list" where
  "work_threads fuel d clientCount = map (\<lambda>i. work_thread fuel (work_job d i)) [0..<clientCount]"

text \<open>
  The threads run to their ends in some order and are joined; \<open>successes\<close> gets one entry
  of each.
\<close>

inductive runWorkload :: "nat \<Rightarrow> bytes \<Rightarrow> nat \<Rightarrow> world \<Rightarrow> bool list \<Rightarrow> world \<Rightarrow> bool" where
  "par_step\<^sup>*\<^sup>* (work_threads fuel d clientCount, s) (map Finish rs, t) \<Longrightarrow> Hang \<notin> set rs \<Longrightarrow>
   runWorkload fuel d clientCount s (map counted_success rs) t"

inductive_cases runWorkloadE: "runWorkload fuel d clientCount s successes t"

record experiment_result =
  avgUpload :: rat
  avgDownload :: rat
  successRate :: rat

definition average :: "int list \<Rightarrow> rat" where
  "average xs = of_int (sum_list xs) / of_nat (length xs)"

definition experiment_result_of :: "nat \<Rightarrow> int list \<Rightarrow> int list \<Rightarrow> bool list \<Rightarrow> experiment_result" where
  "experiment_result_of clientCount uploadLatencies downloadLatencies successes =
     \<lparr>avgUpload = (if uploadLatencies = [] then 0 else average uploadLatencies),
      avgDownload = (if uploadLatencies = [] then 0 else average downloadLatencies),
      successRate = (if 0 < clientCount then 100 * of_nat (length (filter (\<lambda>b. b) successes)) / of_nat clientCount else 0)\<rparr>"

section \<open>The experiments\<close>

text \<open>The runs of \<open>main\<close>: number of clients and size of the file; \<open>rnd k n\<close> are the random bytes of run \<open>k\<close>.\<close>

definition experiment_runs :: "(nat \<times> nat) list" where
  "experiment_runs = map (\<lambda>clients. (clients, 100 * 1024)) [1, 5, 10, 20, 50] @
     map (\<lambda>fileSize. (1, fileSize)) [10 * 1024, 100 * 1024, 1024 * 1024, 10 * 1024 * 1024]"

inductive experiments :: "nat \<Rightarrow> (nat \<Rightarrow> nat \<Rightarrow> bytes) \<Rightarrow> nat \<Rightarrow> (nat \<times> nat) list \<Rightarrow> file_system \<Rightarrow>
    (nat \<times> bool list \<times> network) list \<Rightarrow> file_system \<Rightarrow> bool" where
  ended: "experiments fuel rnd k [] fs [] fs"
| run: "runWorkload fuel (rnd k fileSize) clients (fs, startCluster_of 2) successes (fs', net) \<Longrightarrow>
    experiments fuel rnd (Suc k) runs fs' rows fs'' \<Longrightarrow>
    experiments fuel rnd k ((clients, fileSize) # runs) fs ((clients, successes, stopCluster fuel 2 net) # rows) fs''"

text \<open>\<open>main\<close>: its exit status and the rows of its table.\<close>

inductive experiments_main :: "nat \<Rightarrow> (nat \<Rightarrow> nat \<Rightarrow> bytes) \<Rightarrow> file_system \<Rightarrow> int \<Rightarrow>
    (nat \<times> bool list \<times> network) list \<Rightarrow> file_system \<Rightarrow> bool" where
  no_table: "\<not> creatable fs ''results.csv'' \<Longrightarrow> experiments_main fuel rnd fs 1 [] fs"
| table: "creatable fs ''results.csv'' \<Longrightarrow> experiments fuel rnd 0 experiment_runs fs rows fs' \<Longrightarrow>
    experiments_main fuel rnd fs 0 rows fs'"

inductive_simps experiments_main_iff: "experiments_main fuel rnd fs status rows fs'"
inductive_cases experiments_NilE: "experiments fuel rnd k [] fs rows fs'"
inductive_cases experiments_ConsE: "experiments fuel rnd k (r # runs) fs rows fs'"

section \<open>A workload on the cluster\<close>

interpretation work: separate_files "work_job d" for d
proof
  have out: "numbered ''perf_test_'' i e \<noteq> numbered ''perf_out_'' k e" for i k e by (simp add: numbered_def)
  note out' = out [symmetric]
  show "i \<noteq> k \<Longrightarrow> own_files (work_job d i) \<inter> own_files (work_job d k) = {}" for i k
    using out out' by (auto simp: own_files_def work_job_def)
  show "job_path (work_job d i) \<noteq> job_out (work_job d i)" for i using out by (simp add: work_job_def)
qed

lemma work_thread_yields:
  assumes w: "pool_ok w" "pool_client w = test_client" and j: "job_ok w fuel j"
  shows "yields (client_rely w j) (client_guar w j) (ready w j) (work_thread fuel j)
    (\<lambda>x s. cleaned w j s \<and> x = (Uploaded (hd (metadataNodes test_client)), Reconstructed))"
  unfolding work_thread_def by (rule session_yields [OF w j]) (rule cleanup_yields [OF w(1) job_okD(6) [OF j]])

lemma work_job_ok:
  assumes "d \<noteq> []" and "length d < 2 ^ 31" and "i < 10 ^ 9"
  shows "carriable (job_fs (work_job d i)) (job_path (work_job d i)) (job_data (work_job d i)) \<and>
    base_name (job_path (work_job d i)) = job_path (work_job d i)"
proof -
  let ?p = "numbered ''perf_test_'' i ''.bin''"
  have "is_word ?p" "base_name ?p = ?p" by (rule word_name; simp add: is_space_def)+
  moreover have "length ?p \<le> 34" using numbered_length [of i "''perf_test_''" "''.bin''"] assms(3) by simp
  ultimately show ?thesis using assms by (simp add: work_job_def carriable_def job_fs_def)
qed

lemma startCluster_of_2: "startCluster_of 2 = startCluster"
  by (simp add: startCluster_of_def startCluster_def numeral_2_eq_2 Let_def set_host_def fun_eq_iff)

lemma job_chunks_same: "job_data j = job_data k \<Longrightarrow> job_chunks j = job_chunks k"
  by (simp add: job_chunks_def file_chunks_def splitFileIntoChunks_def job_fs_def)

lemma workload_returns:
  assumes "2 \<le> fuel" and "d \<noteq> []" and "length d < 2 ^ 31" and "clientCount < 10 ^ 9"
    and "collision_free (job_fs (work_job d 0)) (job_path (work_job d 0))"
    and "\<forall>i < clientCount. creatable fs (job_path (work_job d i)) \<and> creatable fs (job_out (work_job d i))"
    and run0: "par_step\<^sup>*\<^sup>* (work_threads fuel d clientCount, fs, startCluster_of 2) (map Finish rs, fs', net)"
  shows "rs = replicate clientCount (Ret (Uploaded (hd (metadataNodes test_client)), Reconstructed)) \<and>
      (\<forall>i < clientCount. cleaned (pool_of (map (work_job d) [0..<clientCount])) (work_job d i) (fs', net)) \<and>
      disk_kept fs (\<Union>i < clientCount. own_files (work_job d i)) (fs', net)"
proof -
  let ?js = "map (work_job d) [0..<clientCount]" and ?w = "pool_of (map (work_job d) [0..<clientCount])"
  have num: "\<exists>i < clientCount. j = work_job d i" if "j \<in> set ?js" for j using that by auto
  have ok: "carriable (job_fs (work_job d i)) (job_path (work_job d i)) (job_data (work_job d i)) \<and>
      base_name (job_path (work_job d i)) = job_path (work_job d i)" if "i < clientCount" for i
    using work_job_ok [OF assms(2,3), of i] that assms(4) by simp
  have chunks: "job_chunks (work_job d i) = job_chunks (work_job d 0)" for i by (rule job_chunks_same) (simp add: work_job_def)
  have w: "pool_ok ?w"
  proof (rule pool_of_ok)
    show "carriable (job_fs j) (job_path j) (job_data j) \<and> base_name (job_path j) = job_path j" if "j \<in> set ?js" for j
      using num [OF that] ok by blast
    show "j = k" if "j \<in> set ?js" "k \<in> set ?js" "job_path j = job_path k" for j k
      using num [OF that(1)] num [OF that(2)] that(3) by (auto simp: work_job_def)
    show "chunk_data c = chunk_data e" if "j \<in> set ?js" "k \<in> set ?js" "c \<in> set (job_chunks j)" "e \<in> set (job_chunks k)"
        "chunk_hash c = chunk_hash e" for j k c e
    proof -
      have "c \<in> set (job_chunks (work_job d 0))" "e \<in> set (job_chunks (work_job d 0))"
        using num [OF that(1)] num [OF that(2)] that(3,4) chunks by metis+
      then show ?thesis using assms(5) that(5) unfolding collision_free_def job_chunks_def by blast
    qed
  qed
  have yields: "yields (client_rely ?w (work_job d i)) (client_guar ?w (work_job d i)) (ready ?w (work_job d i))
      (work_threads fuel d clientCount ! i)
      (\<lambda>x s. cleaned ?w (work_job d i) s \<and> x = (Uploaded (hd (metadataNodes test_client)), Reconstructed)) \<and>
      ready ?w (work_job d i) (fs, startCluster)" if "i < length (work_threads fuel d clientCount)" for i
  proof -
    have i: "i < clientCount" using that by (simp add: work_threads_def)
    then have "job_ok ?w fuel (work_job d i)"
      using job_of_pool [of "work_job d i" ?js fuel] ok [OF i] work.two_files [of d i] assms(1) by auto
    then show ?thesis
      using work_thread_yields [OF w, of fuel "work_job d i"] ready_start [OF w, of fs "work_job d i"] assms(6) i
      by (simp add: pool_of_def work_threads_def)
  qed
  have run: "par_step\<^sup>*\<^sup>* (work_threads fuel d clientCount, fs, startCluster) (map Finish rs, fs', net)"
    using run0 by (simp only: startCluster_of_2)
  from work.clients.run_yields [OF run, of ?w d, rule_format, OF yields]
  have r: "length rs = clientCount" "\<forall>i < clientCount. rs ! i = Ret (Uploaded (hd (metadataNodes test_client)), Reconstructed) \<and>
      cleaned ?w (work_job d i) (fs', net)" by (auto simp: work_threads_def)
  moreover have "disk_kept fs (\<Union>i < clientCount. own_files (work_job d i)) (fs', net)"
  proof (rule work.clients.run_yields_invariant [OF run, of ?w d "\<lambda>i. ready ?w (work_job d i)"
        "\<lambda>i x s. cleaned ?w (work_job d i) s \<and> x = (Uploaded (hd (metadataNodes test_client)), Reconstructed)"])
    show "disk_kept fs (\<Union>i < clientCount. own_files (work_job d i)) t"
      if "i < length (work_threads fuel d clientCount)" "disk_kept fs (\<Union>i < clientCount. own_files (work_job d i)) s"
        "client_guar ?w (work_job d i) s t" for i s t
      by (rule disk_kept_guar [OF _ that(2,3)]) (use that(1) in \<open>auto simp: work_threads_def\<close>)
  qed (use yields in \<open>simp_all add: disk_kept_def\<close>)
  ultimately show ?thesis by (auto intro: nth_equalityI)
qed

definition perf_files :: "nat \<Rightarrow> string set" where
  "perf_files n = (\<Union>i < n. own_files (work_job [] i))"

lemma own_files_work: "own_files (work_job d i) = own_files (work_job [] i)"
  by (simp add: own_files_def work_job_def)

lemma runWorkload_result:
  assumes "2 \<le> fuel" and "d \<noteq> []" and "length d < 2 ^ 31" and "clientCount < 10 ^ 9"
    and "collision_free (job_fs (work_job d 0)) (job_path (work_job d 0))"
    and "\<forall>p \<in> perf_files clientCount. creatable fs p" and "0 < clientCount"
    and "runWorkload fuel d clientCount (fs, startCluster_of 2) successes (fs', net)"
  shows "successes = replicate clientCount True" and "creatable fs' = creatable fs"
    and "files fs' = (\<lambda>p. if p \<in> perf_files clientCount then None else files fs p)"
    and "endpoint_of net = endpoint_of startCluster" and "up_at net = up_at startCluster"
proof -
  have A: "(\<Union>i < clientCount. own_files (work_job d i)) = perf_files clientCount"
    using own_files_work [of d] by (simp add: perf_files_def)
  have c: "\<forall>i < clientCount. creatable fs (job_path (work_job d i)) \<and> creatable fs (job_out (work_job d i))"
    using assms(6) unfolding A [symmetric] by auto
  from assms(8) obtain rs where "par_step\<^sup>*\<^sup>* (work_threads fuel d clientCount, fs, startCluster_of 2) (map Finish rs, fs', net)"
    and ok: "successes = map counted_success rs" by (auto elim!: runWorkloadE)
  from workload_returns [OF assms(1-5) c this(1)]
  have r: "rs = replicate clientCount (Ret (Uploaded (hd (metadataNodes test_client)), Reconstructed))"
    "\<forall>i < clientCount. cleaned (pool_of (map (work_job d) [0..<clientCount])) (work_job d i) (fs', net)"
    "disk_kept fs (perf_files clientCount) (fs', net)" unfolding A by blast+
  show "successes = replicate clientCount True" by (simp add: ok r(1) counted_success_def)
  show "creatable fs' = creatable fs" using r(3) by (simp add: disk_kept_def)
  show "files fs' = (\<lambda>p. if p \<in> perf_files clientCount then None else files fs p)"
    using r(2,3) unfolding A [symmetric] by (intro ext) (auto simp: cleaned_def disk_kept_def own_files_def)
  have "cleaned (pool_of (map (work_job d) [0..<clientCount])) (work_job d 0) (fs', net)" using r(2) assms(7) by blast
  from cleaned_up [OF this] show "endpoint_of net = endpoint_of startCluster" "up_at net = up_at startCluster" by simp_all
qed

lemma runWorkload_returns:
  assumes "2 \<le> fuel" and "d \<noteq> []" and "length d < 2 ^ 31" and "clientCount < 10 ^ 9"
    and "collision_free (job_fs (work_job d 0)) (job_path (work_job d 0))"
    and "\<forall>p \<in> perf_files clientCount. creatable fs p"
  shows "\<exists>successes t. runWorkload fuel d clientCount (fs, startCluster_of 2) successes t"
proof -
  obtain rs t where run: "par_step\<^sup>*\<^sup>* (work_threads fuel d clientCount, fs, startCluster_of 2) (map Finish rs, t)"
    using par_finishes [of "(work_threads fuel d clientCount, fs, startCluster_of 2)"] by (elim exE)
  have "\<forall>i < clientCount. creatable fs (job_path (work_job d i)) \<and> creatable fs (job_out (work_job d i))"
    using assms(6) by (auto simp: perf_files_def own_files_def work_job_def)
  from workload_returns [OF assms(1-5) this, of rs "fst t" "snd t"] run have "Hang \<notin> set rs" by simp
  with run show ?thesis by (blast intro: runWorkload.intros)
qed

section \<open>A workload without servers\<close>

text \<open>With nobody listening every call of the client comes back at once with its failure value.\<close>

definition same_net :: "world \<Rightarrow> world \<Rightarrow> bool" where
  "same_net s t \<longleftrightarrow> snd t = snd s"

abbreviation dead_yields :: "network \<Rightarrow> 'a client_task \<Rightarrow> bool" where
  "dead_yields net p \<equiv> yields same_net same_net (\<lambda>s. snd s = net) p (\<lambda>_ s. snd s = net)"

lemma dead_finish: "dead_yields net (Finish (Ret x))"
  by (rule yields_finish) (simp_all add: stable_def same_net_def)

lemma dead_bind: "dead_yields net p \<Longrightarrow> (\<And>x. dead_yields net (k x)) \<Longrightarrow> dead_yields net (bind_task p k)"
  by (rule yields_bind)

lemma dead_locally: "dead_yields net (locally g)"
  unfolding locally_def by (rule yields_atomically) (auto simp: stable_def same_net_def split: prod.splits)

lemma dead_remotely:
  assumes "\<And>fs. \<exists>x. call fs net = (Ret x, net)" shows "dead_yields net (remotely call)"
  unfolding remotely_def
proof (rule yields_atomically)
  fix s :: world assume "snd s = net"
  then obtain fs x where "s = (fs, net)" "call fs net = (Ret x, net)" using assms by (metis prod.collapse)
  then show "\<exists>x. fst (case s of (fs, net) \<Rightarrow> case call fs net of (r, net) \<Rightarrow> (r, fs, net)) = Ret x \<and>
      same_net s (snd (case s of (fs, net) \<Rightarrow> case call fs net of (r, net) \<Rightarrow> (r, fs, net))) \<and>
      snd (snd (case s of (fs, net) \<Rightarrow> case call fs net of (r, net) \<Rightarrow> (r, fs, net))) = net"
    by (simp add: same_net_def)
qed (simp_all add: stable_def same_net_def)

lemmas dead_intros = dead_finish dead_bind dead_locally

definition unreachable :: "network \<Rightarrow> string \<Rightarrow> bool" where
  "unreachable net a \<longleftrightarrow> (\<exists>e. addr_ep net a = Some e \<and> \<not> up_at net e)"

lemma dead_call: "unreachable net a \<Longrightarrow> with_connection a d body net = (Ret d, net)"
  by (auto simp: unreachable_def with_connection_eq)

lemma dead_nodes: "\<forall>a \<in> set as. unreachable net a \<Longrightarrow> dead_yields net (nodes_task fuel c as k)"
  by (induction as arbitrary: k) (auto simp: uploadChunkToNode_def dead_call intro!: dead_intros dead_remotely)

lemma dead_chunks:
  assumes "\<And>h. \<exists>as. getNodesForKey r h 2 = Inr as \<and> (\<forall>a \<in> set as. unreachable net a)"
  shows "dead_yields net (chunks_task fuel r cs)"
proof (induction cs)
  case (Cons c cs)
  obtain as where "getNodesForKey r (chunk_hash c) 2 = Inr as" "\<forall>a \<in> set as. unreachable net a" using assms by blast
  then show ?case using Cons by (auto intro!: dead_intros dead_nodes)
qed (auto intro: dead_intros)

lemma dead_metadata: "\<forall>a \<in> set as. unreachable net a \<Longrightarrow> dead_yields net (metadata_task fuel path cs rh as)"
  by (induction as) (auto simp: putMetadataToNode_def dead_call intro!: dead_intros dead_remotely)

lemma dead_find: "\<forall>a \<in> set as. unreachable net a \<Longrightarrow> dead_yields net (find_task fuel f as)"
  by (induction as) (auto simp: getMetadataFromNode_def dead_call intro!: dead_intros dead_remotely)

lemma dead_fetch: "\<forall>a \<in> set as. unreachable net a \<Longrightarrow> dead_yields net (fetch_task fuel h as)"
  by (induction as) (auto simp: downloadChunkFromNode_def dead_call intro!: dead_intros dead_remotely)

lemma dead_fetch_all:
  assumes "\<And>h. \<exists>as. getNodesForKey r h 2 = Inr as \<and> (\<forall>a \<in> set as. unreachable net a)"
  shows "dead_yields net (fetch_all_task fuel r i hs)"
proof (induction hs arbitrary: i)
  case (Cons h hs)
  obtain as where "getNodesForKey r h 2 = Inr as" "\<forall>a \<in> set as. unreachable net a" using assms by blast
  then show ?case using Cons by (auto intro!: dead_intros dead_fetch)
qed (auto intro: dead_intros)

lemma dead_upload_download:
  assumes "\<And>h. \<exists>as. getNodesForKey (dht_of cl) h 2 = Inr as \<and> (\<forall>a \<in> set as. unreachable net a)"
    and "\<forall>a \<in> set (metadataNodes cl). unreachable net a"
  shows "dead_yields net (upload_task fuel cl path)" and "dead_yields net (download_task fuel cl f out)"
  unfolding upload_task_def download_task_def Let_def
  using assms(2) by (auto intro!: dead_intros dead_chunks dead_metadata dead_find dead_fetch_all assms(1) split: option.splits sum.splits)

lemma test_client_nodes:
  "\<exists>as. getNodesForKey (dht_of test_client) h 2 = Inr as \<and> set as \<subseteq> {''127.0.0.1:8001'', ''127.0.0.1:8002''}"
proof -
  have inv: "ring_inv (dht_of test_client)" by (simp add: test_client_eq wit_client_ring)
  obtain as where as: "getNodesForKey (dht_of test_client) h 2 = Inr as" "set as \<subseteq> set (getAllNodes (dht_of test_client))"
    using dht.placed [OF inv, of 2 h] by auto
  have "getAllNodes (dht_of test_client) = [''127.0.0.1:8001'', ''127.0.0.1:8002'']"
    by (simp add: test_client_eq wit_client_ring getAllNodes_def wit_ring_eq)
  then show ?thesis using as by auto
qed

lemma local_unreachable:
  assumes "resolve net = local_resolve" and "\<forall>e. \<not> up_at net e"
    and "a \<in> {''127.0.0.1:8001'', ''127.0.0.1:8002'', ''127.0.0.1:9001'', ''127.0.0.1:9002'', ''127.0.0.1:9003''}"
  shows "unreachable net a"
  using assms by (auto simp: unreachable_def addr_ep_def wit_addresses endpoint_of_def local_resolve_def)

lemma dead_work_thread:
  assumes "resolve net = local_resolve" and "\<forall>e. \<not> up_at net e"
  shows "dead_yields net (work_thread fuel j)"
proof -
  note un = local_unreachable [OF assms]
  have "\<exists>as. getNodesForKey (dht_of test_client) h 2 = Inr as \<and> (\<forall>a \<in> set as. unreachable net a)" for h
    using test_client_nodes [of h] un by blast
  moreover have "\<forall>a \<in> set (metadataNodes test_client). unreachable net a"
    using un by (simp add: test_client_def new_client_def)
  ultimately have "dead_yields net (upload_task fuel test_client p)" "dead_yields net (download_task fuel test_client p q)" for p q
    by (rule dead_upload_download)+
  then show ?thesis unfolding work_thread_def by (intro dead_intros)
qed

interpretation dead: interference "\<lambda>_. same_net" "\<lambda>_. same_net"
  by unfold_locales

section \<open>The sequence of experiments\<close>

lemma perf_files_mono: "m \<le> n \<Longrightarrow> perf_files m \<subseteq> perf_files n"
  by (auto simp: perf_files_def intro: less_le_trans)

definition plan_ok :: "(nat \<Rightarrow> nat \<Rightarrow> bytes) \<Rightarrow> file_system \<Rightarrow> (nat \<times> nat) list \<Rightarrow> bool" where
  "plan_ok rnd fs runs \<longleftrightarrow> (\<forall>(n, m) \<in> set runs. 0 < n \<and> n \<le> 50 \<and> 0 < m \<and> m < 2 ^ 31 \<and>
       (\<forall>k. collision_free (job_fs (work_job (rnd k m) 0)) (job_path (work_job (rnd k m) 0)))) \<and>
     (\<forall>k n. length (rnd k n) = n) \<and>
     (\<forall>p \<in> perf_files 50. creatable fs p)"

lemma plan_run:
  assumes "plan_ok rnd fs ((n, m) # runs)" and "2 \<le> fuel"
  shows "\<exists>successes t. runWorkload fuel (rnd k m) n (fs, startCluster_of 2) successes t"
    and "runWorkload fuel (rnd k m) n (fs, startCluster_of 2) successes (fs', net) \<Longrightarrow>
      successes = replicate n True \<and> plan_ok rnd fs' runs \<and>
      files fs' = (\<lambda>p. if p \<in> perf_files n then None else files fs p) \<and> (\<forall>e. \<not> up_at (stopCluster fuel 2 net) e)"
proof -
  have n: "0 < n" "n \<le> 50" "0 < m" "m < 2 ^ 31" and c: "\<forall>p \<in> perf_files 50. creatable fs p"
    and r: "\<forall>(n, m) \<in> set runs. 0 < n \<and> n \<le> 50 \<and> 0 < m \<and> m < 2 ^ 31 \<and>
       (\<forall>k. collision_free (job_fs (work_job (rnd k m) 0)) (job_path (work_job (rnd k m) 0)))"
    and l: "length (rnd k m) = m" "collision_free (job_fs (work_job (rnd k m) 0)) (job_path (work_job (rnd k m) 0))"
    and d: "\<forall>k n. length (rnd k n) = n"
    using assms(1) unfolding plan_ok_def by auto
  have cn: "\<forall>p \<in> perf_files n. creatable fs p" using c perf_files_mono [OF n(2)] by blast
  have a: "rnd k m \<noteq> []" "length (rnd k m) < 2 ^ 31" "n < 10 ^ 9" using l(1) n by auto
  show "\<exists>successes t. runWorkload fuel (rnd k m) n (fs, startCluster_of 2) successes t"
    by (rule runWorkload_returns [OF assms(2) a l(2) cn])
  assume run: "runWorkload fuel (rnd k m) n (fs, startCluster_of 2) successes (fs', net)"
  note res = runWorkload_result [OF assms(2) a l(2) cn n(1) run]
  have "plan_ok rnd fs' runs" using r d c res(2) unfolding plan_ok_def by simp
  moreover have "\<not> up_at (stopCluster fuel 2 net) e" for e
  proof -
    have "map (\<lambda>i. 8000 + int i) [1..<Suc 2] @ [9001, 9002, 9003] = [8001, 8002, 9001, 9002, 9003]" by (simp add: upt_rec)
    then show ?thesis using up_startCluster [of e] res(4,5) unfolding stopCluster_def by (auto simp: up_at_kill_nodes)
  qed
  ultimately show "successes = replicate n True \<and> plan_ok rnd fs' runs \<and>
      files fs' = (\<lambda>p. if p \<in> perf_files n then None else files fs p) \<and> (\<forall>e. \<not> up_at (stopCluster fuel 2 net) e)"
    using res(1,3) by blast
qed

lemma experiments_exist:
  assumes "plan_ok rnd fs runs" and "2 \<le> fuel"
  shows "\<exists>rows fs'. experiments fuel rnd k runs fs rows fs'"
  using assms(1)
proof (induction runs arbitrary: fs k)
  case Nil
  then show ?case by (blast intro: experiments.ended)
next
  case (Cons r runs)
  obtain n m where r: "r = (n, m)" by fastforce
  note p = plan_run [OF Cons.prems [unfolded r] assms(2), of k]
  obtain successes fs1 net where run: "runWorkload fuel (rnd k m) n (fs, startCluster_of 2) successes (fs1, net)"
    using p(1) by auto
  then obtain rows fs' where "experiments fuel rnd (Suc k) runs fs1 rows fs'" using Cons.IH p(2) by blast
  with run show ?case unfolding r by (blast intro: experiments.run)
qed

lemma experiments_result:
  assumes "plan_ok rnd fs runs" and "2 \<le> fuel" and "experiments fuel rnd k runs fs rows fs'"
  shows "map fst rows = map fst runs \<and>
      (\<forall>(clients, successes, net) \<in> set rows. successes = replicate clients True \<and> (\<forall>e. \<not> up_at net e)) \<and>
      files fs' = (\<lambda>p. if p \<in> (\<Union>n \<in> fst ` set runs. perf_files n) then None else files fs p)"
  using assms(1,3)
proof (induction runs arbitrary: fs k rows)
  case Nil
  then show ?case by (auto elim!: experiments_NilE)
next
  case (Cons r runs)
  from Cons.prems(2) obtain n m successes fs1 net rows1 where r: "r = (n, m)"
    and run: "runWorkload fuel (rnd k m) n (fs, startCluster_of 2) successes (fs1, net)"
    and later: "experiments fuel rnd (Suc k) runs fs1 rows1 fs'" and rows: "rows = (n, successes, stopCluster fuel 2 net) # rows1"
    by (auto elim!: experiments_ConsE)
  note p = plan_run(2) [OF Cons.prems(1) [unfolded r] assms(2) run]
  then have "plan_ok rnd fs1 runs" by blast
  from Cons.IH [OF this later] p show ?case unfolding r rows by (auto simp: fun_eq_iff)
qed

section \<open>The evaluation\<close>

definition test_path :: "string \<Rightarrow> string" where
  "test_path filename = ''test_data'' @ ''/'' @ filename"

definition copy_path :: "string \<Rightarrow> string" where
  "copy_path filename = ''test_data'' @ ''/downloaded_'' @ filename"

text \<open>\<open>createDummyFile\<close> with the bytes it draws.\<close>

definition createDummyFile :: "string \<Rightarrow> bytes \<Rightarrow> file_system \<Rightarrow> file_system" where
  "createDummyFile filepath drawn fs = write_file filepath drawn fs"

text \<open>The disk is that of the machine after \<open>mkdir\<close> of the directory \<^verbatim>\<open>test_data\<close>.\<close>

definition runTest :: "nat \<Rightarrow> client \<Rightarrow> string \<Rightarrow> bytes \<Rightarrow> file_system \<Rightarrow> network
    \<Rightarrow> (upload_report \<times> download_report) outcome \<times> file_system \<times> network" where
  "runTest fuel cl filename d fs net =
     (let filepath = test_path filename; fs = createDummyFile filepath d fs in
      case uploadFile fuel cl fs filepath net of
        (Ret up, net) \<Rightarrow>
          (let downloadPath = copy_path filename in
           case downloadFile fuel cl filename downloadPath fs net of
             (Ret down, fs, net) \<Rightarrow> (Ret (up, down), remove_file downloadPath fs, net)
           | (Throw e, fs, net) \<Rightarrow> (Throw e, fs, net)
           | (Hang, fs, net) \<Rightarrow> (Hang, fs, net))
      | (Throw e, net) \<Rightarrow> (Throw e, fs, net)
      | (Hang, net) \<Rightarrow> (Hang, fs, net))"

fun run_tests :: "nat \<Rightarrow> client \<Rightarrow> (string \<times> bytes) list \<Rightarrow> file_system \<Rightarrow> network
    \<Rightarrow> (upload_report \<times> download_report) list outcome \<times> file_system \<times> network" where
  "run_tests fuel cl [] fs net = (Ret [], fs, net)"
| "run_tests fuel cl ((filename, d) # tests) fs net =
     (case runTest fuel cl filename d fs net of
        (Ret r, fs, net) \<Rightarrow>
          (case run_tests fuel cl tests fs net of
             (Ret rs, fs, net) \<Rightarrow> (Ret (r # rs), fs, net)
           | (Throw e, fs, net) \<Rightarrow> (Throw e, fs, net)
           | (Hang, fs, net) \<Rightarrow> (Hang, fs, net))
      | (Throw e, fs, net) \<Rightarrow> (Throw e, fs, net)
      | (Hang, fs, net) \<Rightarrow> (Hang, fs, net))"

text \<open>The exit status of \<open>main\<close> with the reports of its tests; \<open>rnd k n\<close> are the random bytes of test \<open>k\<close>.\<close>

definition evaluation_main :: "nat \<Rightarrow> (nat \<Rightarrow> nat \<Rightarrow> bytes) \<Rightarrow> file_system
    \<Rightarrow> (int \<times> (upload_report \<times> download_report) list) outcome \<times> file_system" where
  "evaluation_main fuel rnd fs =
     (if \<not> creatable fs ''performance_evaluation.txt'' then (Ret (1, []), fs)
      else
        case run_tests fuel test_client
               [(''small_file.dat'', rnd 0 (100 * 1024)), (''medium_file.dat'', rnd 1 (5 * 1024 * 1024)),
                (''large_file.dat'', rnd 2 (20 * 1024 * 1024))] fs startCluster of
          (Ret rs, fs, net) \<Rightarrow> (Ret (0, rs), fs)
        | (Throw e, fs, net) \<Rightarrow> (Throw e, fs)
        | (Hang, fs, net) \<Rightarrow> (Hang, fs))"

definition test_ok :: "file_system \<Rightarrow> string \<times> bytes \<Rightarrow> bool" where
  "test_ok fs t \<longleftrightarrow> (case t of (f, d) \<Rightarrow>
     is_word f \<and> length f < 2 ^ 30 \<and> base_name (test_path f) = f \<and> d \<noteq> [] \<and> length d < 2 ^ 45 \<and>
     creatable fs (test_path f) \<and> creatable fs (copy_path f) \<and>
     collision_free \<lparr>files = [test_path f \<mapsto> d], creatable = (\<lambda>p. True)\<rparr> (test_path f))"

lemma runTest_result:
  assumes "healthy net cl es" and "hosts net x = None" and "length es \<le> Suc fuel" and "test_ok fs (f, d)"
  shows "\<exists>fs' net'. runTest fuel cl f d fs net = (Ret (Uploaded (hd (metadataNodes cl)), Reconstructed), fs', net') \<and>
    healthy net' cl es \<and> hosts net' x = None \<and> creatable fs' = creatable fs \<and>
    files fs' = (files fs)(test_path f \<mapsto> d, copy_path f := None)"
proof -
  let ?p = "test_path f" and ?q = "copy_path f"
  let ?fs = "fs\<lparr>files := (files fs)(?p \<mapsto> d)\<rparr>" and ?net = "after_upload net cl (fs\<lparr>files := (files fs)(?p \<mapsto> d)\<rparr>) ?p es"
  note ok = assms(4) [unfolded test_ok_def prod.case]
  note t = ok [THEN conjunct1] ok [THEN conjunct2, THEN conjunct1] ok [THEN conjunct2, THEN conjunct2, THEN conjunct1]
  note ok = ok [THEN conjunct2, THEN conjunct2, THEN conjunct2]
  note t = t ok [THEN conjunct1] ok [THEN conjunct2, THEN conjunct1] ok [THEN conjunct2, THEN conjunct2, THEN conjunct1]
  note ok = ok [THEN conjunct2, THEN conjunct2, THEN conjunct2]
  note t = t ok [THEN conjunct1] ok [THEN conjunct2]
  have w: "write_file ?p d fs = ?fs" using t(6) by (simp add: write_file_def)
  have c: "carriable ?fs ?p d" using t(1-5) by (simp add: carriable_def)
  have chunks: "file_chunks ?fs ?p = file_chunks \<lparr>files = [?p \<mapsto> d], creatable = (\<lambda>p. True)\<rparr> ?p"
    by (simp add: file_chunks_def splitFileIntoChunks_def)
  have free: "collision_free ?fs ?p" using t(8) unfolding collision_free_def chunks .
  have "creatable ?fs ?q" using t(7) by simp
  note run = upload_download_same [OF assms(1,2) c free assms(3) this]
  have "runTest fuel cl f d fs net = (Ret (Uploaded (hd (metadataNodes cl)), Reconstructed),
      remove_file ?q (?fs\<lparr>files := (files ?fs)(?q \<mapsto> d)\<rparr>), ?net)"
    using run t(3) w by (simp add: runTest_def createDummyFile_def Let_def)
  moreover have "healthy ?net cl es" by (rule healthy_after_upload [OF assms(1)])
  moreover have "hosts ?net x = None" using hosts_after_upload_None [OF assms(1,2)] by blast
  ultimately show ?thesis by (auto simp: remove_file_def)
qed

lemma test_okI:
  assumes "\<forall>k n. length (rnd k n) = n"
    and "list_all (\<lambda>c. \<not> is_space c \<and> c \<noteq> CHR ''/'' \<and> c \<noteq> CHR 0x5C) f" and "f \<noteq> []" and "length f < 2 ^ 30"
    and "0 < n" and "n < 2 ^ 45" and "creatable fs (test_path f) \<and> creatable fs (copy_path f)"
    and "collision_free (job_fs (work_job (rnd k n) 0)) (job_path (work_job (rnd k n) 0))"
  shows "test_ok fs (f, rnd k n)"
proof -
  let ?d = "rnd k n"
  have "is_word f" using assms(2,3) by (auto simp: is_word_def list_all_iff)
  moreover have "base_name (test_path f) = f"
    unfolding base_name_def test_path_def append_Cons append_Nil append_assoc
    by (rule after_last_of_some [where d = "''test_data''", unfolded append_Cons append_Nil])
      (use assms(2) in \<open>auto simp: list_all_iff\<close>)
  moreover have chunks: "file_chunks \<lparr>files = [test_path f \<mapsto> ?d], creatable = (\<lambda>p. True)\<rparr> (test_path f) =
      file_chunks (job_fs (work_job ?d 0)) (job_path (work_job ?d 0))"
    by (simp add: file_chunks_def splitFileIntoChunks_def job_fs_def work_job_def)
  moreover have "length ?d = n" using assms(1) by blast
  moreover from this have "?d \<noteq> []" using assms(5) by auto
  moreover have "collision_free \<lparr>files = [test_path f \<mapsto> ?d], creatable = (\<lambda>p. True)\<rparr> (test_path f)"
    using assms(8) unfolding collision_free_def chunks .
  ultimately show ?thesis using assms(4,6,7) by (simp add: test_ok_def)
qed

definition test_effect :: "string \<times> bytes \<Rightarrow> (string \<rightharpoonup> bytes) \<Rightarrow> string \<rightharpoonup> bytes" where
  "test_effect t m = m(test_path (fst t) \<mapsto> snd t, copy_path (fst t) := None)"

lemma run_tests_result:
  assumes "healthy net cl es" and "hosts net x = None" and "length es \<le> Suc fuel" and "\<forall>t \<in> set tests. test_ok fs t"
  shows "\<exists>fs' net'. run_tests fuel cl tests fs net =
      (Ret (replicate (length tests) (Uploaded (hd (metadataNodes cl)), Reconstructed)), fs', net') \<and>
    creatable fs' = creatable fs \<and> files fs' = fold test_effect tests (files fs)"
  using assms(1,2,4)
proof (induction tests arbitrary: fs net)
  case (Cons t tests)
  obtain f d where t: "t = (f, d)" by fastforce
  then have "test_ok fs (f, d)" using Cons.prems(3) by simp
  from runTest_result [OF Cons.prems(1,2) assms(3) this] obtain fs1 net1 where
    1: "runTest fuel cl f d fs net = (Ret (Uploaded (hd (metadataNodes cl)), Reconstructed), fs1, net1)"
    "healthy net1 cl es" "hosts net1 x = None" "creatable fs1 = creatable fs"
    "files fs1 = (files fs)(test_path f \<mapsto> d, copy_path f := None)" by blast
  have "\<forall>t \<in> set tests. test_ok fs1 t" using Cons.prems(3) 1(4) by (simp add: test_ok_def split_beta)
  from Cons.IH [OF 1(2,3) this] obtain fs2 net2 where
    "run_tests fuel cl tests fs1 net1 = (Ret (replicate (length tests) (Uploaded (hd (metadataNodes cl)), Reconstructed)), fs2, net2)"
    "creatable fs2 = creatable fs1" "files fs2 = fold test_effect tests (files fs1)" by blast
  moreover have "files fs1 = test_effect t (files fs)" by (simp only: 1(5) t test_effect_def fst_conv snd_conv)
  ultimately show ?case using 1(1,4) t by simp
qed simp

section \<open>Properties\<close>


text \<open>Random data may be anything; zeros show that the hypothesis on collisions can hold.\<close>

definition zeros :: "nat \<Rightarrow> nat \<Rightarrow> bytes" where
  "zeros k n = replicate n 0"

lemma read_chunks_zeros: "c \<in> set (read_chunks i (replicate (m * CHUNK_SIZE) 0)) \<Longrightarrow> chunk_data c = replicate CHUNK_SIZE 0"
proof (induction m arbitrary: i)
  case (Suc m)
  have "replicate (Suc m * CHUNK_SIZE) (0 :: byte) \<noteq> []" by (simp add: CHUNK_SIZE_def)
  from read_chunks_Cons [OF this, of i] Suc show ?case by auto
qed simp

lemma zeros_collision_free:
  assumes "n \<le> CHUNK_SIZE \<or> CHUNK_SIZE dvd n"
  shows "collision_free (job_fs (work_job (zeros k n) 0)) (job_path (work_job (zeros k n) 0))"
proof -
  let ?j = "work_job (zeros k n) 0"
  have cs: "file_chunks (job_fs ?j) (job_path ?j) = map hashChunk (read_chunks 0 (replicate n 0))"
    by (simp add: file_chunks_def splitFileIntoChunks_def job_fs_def hashAllChunks_map work_job_def zeros_def)
  have "\<exists>d. \<forall>c \<in> set (read_chunks 0 (replicate n 0)). chunk_data c = d"
  proof (cases "CHUNK_SIZE dvd n")
    case True
    then obtain m where "n = m * CHUNK_SIZE" by (metis dvd_div_mult_self)
    then show ?thesis using read_chunks_zeros [of _ 0 m] by blast
  next
    case False
    then have "drop CHUNK_SIZE (replicate n (0 :: byte)) = []" using assms by simp
    then show ?thesis by (cases "n = 0") (simp_all add: read_chunks_Cons)
  qed
  then show ?thesis unfolding collision_free_def cs by auto
qed


text \<open>
  C28: The success rate of the experiments measures nothing but exceptions. On a machine
  where no server is up at all, so that no chunk and no record is stored and nothing can be
  downloaded, every run of \<open>runWorkload\<close> still counts every client as a success and its
  success rate is 100; \<open>uploadFile\<close> and \<open>downloadFile\<close> report their failures on the console only.
\<close>
theorem success_rate_is_blind:
  assumes "resolve net = local_resolve" and "\<forall>e. \<not> up_at net e" and "0 < clientCount"
  shows "(\<exists>successes t. runWorkload fuel d clientCount (fs, net) successes t) \<and>
    (\<forall>successes t up down. runWorkload fuel d clientCount (fs, net) successes t \<longrightarrow>
      snd t = net \<and> successRate (experiment_result_of clientCount up down successes) = 100)"
proof -
  have y: "\<forall>i < length (work_threads fuel d clientCount). dead_yields net (work_threads fuel d clientCount ! i) \<and> snd (fs, net) = net"
    using dead_work_thread [OF assms(1,2)] by (simp add: work_threads_def)
  have res: "length rs = clientCount \<and> (\<forall>r \<in> set rs. \<exists>x. r = Ret x) \<and> snd t = net"
    if "par_step\<^sup>*\<^sup>* (work_threads fuel d clientCount, fs, net) (map Finish rs, t)" for rs t
    using dead.run_yields [OF that y] assms(3) by (fastforce simp: work_threads_def in_set_conv_nth)
  obtain rs t where run: "par_step\<^sup>*\<^sup>* (work_threads fuel d clientCount, fs, net) (map Finish rs, t)"
    using par_finishes [of "(work_threads fuel d clientCount, fs, net)"] by (elim exE)
  then have "Hang \<notin> set rs" using res by blast
  with run have "\<exists>successes t. runWorkload fuel d clientCount (fs, net) successes t" by (blast intro: runWorkload.intros)
  moreover have "snd t = net \<and> successRate (experiment_result_of clientCount up down successes) = 100"
    if w: "runWorkload fuel d clientCount (fs, net) successes t" for successes t up down
  proof -
    obtain rs where r: "par_step\<^sup>*\<^sup>* (work_threads fuel d clientCount, fs, net) (map Finish rs, t)" "successes = map counted_success rs"
      using w by (auto elim!: runWorkloadE)
    have "\<forall>b \<in> set successes. b" using res [OF r(1)] by (auto simp: r(2) counted_success_def)
    then have "filter (\<lambda>b. b) successes = successes" by (simp add: filter_id_conv)
    moreover have "length successes = clientCount" using res [OF r(1)] r(2) by simp
    ultimately show ?thesis using assms(3) res [OF r(1)] by (simp add: experiment_result_of_def)
  qed
  ultimately show ?thesis by blast
qed

theorem success_rate_is_blind_witness:
  "\<exists>successes t. runWorkload 2 [1, 2] 3 (open_fs, \<lparr>resolve = local_resolve, hosts = Map.empty\<rparr>) successes t \<and>
     successRate (experiment_result_of 3 [] [] successes) = 100"
proof -
  let ?net = "\<lparr>resolve = local_resolve, hosts = Map.empty\<rparr>"
  have "resolve ?net = local_resolve" "\<forall>e. \<not> up_at ?net e" "0 < (3 :: nat)" by (simp_all add: up_at_def)
  from success_rate_is_blind [OF this, of 2 "[1, 2]" open_fs] show ?thesis by blast
qed

text \<open>
  The evaluation completes. For random data without SHA-256 collisions, on a machine
  where the result file and the files under \<^verbatim>\<open>test_data\<close> can be created, \<open>main\<close> exits with
  status \<open>0\<close> after three uploads reported complete and three downloads reconstructed; the
  three test files stay, their downloaded copies are gone and no other file has changed.
  Where the result file cannot be created it exits with status \<open>1\<close> and does nothing.
\<close>
theorem evaluation_completes:
  assumes "2 \<le> fuel" and "\<forall>k n. length (rnd k n) = n"
    and "\<forall>f \<in> {''small_file.dat'', ''medium_file.dat'', ''large_file.dat''}.
      creatable fs (test_path f) \<and> creatable fs (copy_path f)"
    and "\<forall>(k, n) \<in> {(0, 100 * 1024), (1, 5 * 1024 * 1024), (2, 20 * 1024 * 1024)}.
      collision_free (job_fs (work_job (rnd k n) 0)) (job_path (work_job (rnd k n) 0))"
  shows "evaluation_main fuel rnd fs =
    (if creatable fs ''performance_evaluation.txt''
     then (Ret (0, replicate 3 (Uploaded ''127.0.0.1:9001'', Reconstructed)),
       fs\<lparr>files := (files fs)
         (test_path ''small_file.dat'' \<mapsto> rnd 0 (100 * 1024), copy_path ''small_file.dat'' := None,
          test_path ''medium_file.dat'' \<mapsto> rnd 1 (5 * 1024 * 1024), copy_path ''medium_file.dat'' := None,
          test_path ''large_file.dat'' \<mapsto> rnd 2 (20 * 1024 * 1024), copy_path ''large_file.dat'' := None)\<rparr>)
     else (Ret (1, []), fs))"
proof (cases "creatable fs ''performance_evaluation.txt''")
  case True
  let ?tests = "[(''small_file.dat'', rnd 0 (100 * 1024)), (''medium_file.dat'', rnd 1 (5 * 1024 * 1024)),
    (''large_file.dat'', rnd 2 (20 * 1024 * 1024))]"
  have "test_ok fs (''small_file.dat'', rnd 0 (100 * 1024))" "test_ok fs (''medium_file.dat'', rnd 1 (5 * 1024 * 1024))"
    "test_ok fs (''large_file.dat'', rnd 2 (20 * 1024 * 1024))"
    by (rule test_okI [OF assms(2)]; use assms(3,4) in \<open>simp add: is_space_def\<close>)+
  then have "\<forall>t \<in> set ?tests. test_ok fs t" by simp
  moreover have "healthy startCluster test_client local_chain" using healthy_local by (simp add: test_client_eq)
  moreover have "hosts startCluster (local_ep 1) = None" by (simp add: startCluster_def)
  moreover have "length local_chain \<le> Suc fuel" using assms(1) by (simp add: local_chain_def)
  ultimately obtain fs' net' where run: "run_tests fuel test_client ?tests fs startCluster =
      (Ret (replicate (length ?tests) (Uploaded (hd (metadataNodes test_client)), Reconstructed)), fs', net')"
    and fs': "creatable fs' = creatable fs" "files fs' = fold test_effect ?tests (files fs)"
    using run_tests_result [of startCluster test_client local_chain "local_ep 1" fuel ?tests fs] by blast
  have "hd (metadataNodes test_client) = ''127.0.0.1:9001''" by (simp add: test_client_def new_client_def)
  moreover have "fs' = fs\<lparr>files := fold test_effect ?tests (files fs)\<rparr>" using fs' by simp
  ultimately show ?thesis unfolding evaluation_main_def run using True by (simp add: test_effect_def numeral_3_eq_3)
qed (simp add: evaluation_main_def)

theorem evaluation_completes_witness:
  "fst (evaluation_main 2 zeros open_fs) = Ret (0, replicate 3 (Uploaded ''127.0.0.1:9001'', Reconstructed))"
proof -
  have "\<forall>(k, n) \<in> {(0 :: nat, 100 * 1024), (1, 5 * 1024 * 1024), (2, 20 * 1024 * 1024)}.
      collision_free (job_fs (work_job (zeros k n) 0)) (job_path (work_job (zeros k n) 0))"
    by (auto intro!: zeros_collision_free) (simp_all add: CHUNK_SIZE_def)
  moreover have "\<forall>k n. length (zeros k n) = n" by (simp add: zeros_def)
  moreover have "\<forall>p. creatable open_fs p" by (simp add: open_fs_def)
  ultimately show ?thesis using evaluation_completes [of 2 zeros open_fs] by simp
qed

end
