(* ===== verification/File_Service.thy ===== *)
theory File_Service
  imports System_Tests
begin

text \<open>
  The whole system as one file service. Client programs on several machines, all configured
  alike, upload and download files in any order, and one server outside the metadata chain
  may fail on the way. The specification (\<open>spec_act\<close>) is a single map from file names to
  contents beside the machines' own disks: an upload binds the name to the bytes of the
  file, a download writes what the name is bound to. The locale \<open>service_refinement\<close> is
  the step from one request to a whole session; it is interpreted on the cluster of
  \<open>Cluster\<close> with the client of \<open>Client\<close>.
\<close>

section \<open>Sessions\<close>

fun run_events :: "('e \<Rightarrow> 's \<Rightarrow> 'r \<times> 's) \<Rightarrow> 'e list \<Rightarrow> 's \<Rightarrow> 'r list \<times> 's" where
  "run_events act [] s = ([], s)"
| "run_events act (e # es) s =
     (let (r, s') = act e s; (rs, s'') = run_events act es s' in (r # rs, s''))"

locale service_refinement =
  fixes act :: "'e \<Rightarrow> 's \<Rightarrow> 'r \<times> 's"
    and spec :: "'e \<Rightarrow> 'a \<Rightarrow> 'r \<times> 'a"
    and rel :: "'a \<Rightarrow> 's \<Rightarrow> bool"
    and admissible :: "'e \<Rightarrow> bool"
  assumes simulates: "rel a s \<Longrightarrow> admissible e \<Longrightarrow> \<exists>s'. act e s = (fst (spec e a), s') \<and> rel (snd (spec e a)) s'"
begin

lemma session:
  "rel a s \<Longrightarrow> list_all admissible es \<Longrightarrow>
   \<exists>s'. run_events act es s = (fst (run_events spec es a), s') \<and> rel (snd (run_events spec es a)) s'"
proof (induction es arbitrary: a s)
  case (Cons e es)
  then obtain s' where s': "act e s = (fst (spec e a), s')" "rel (snd (spec e a)) s'"
    using simulates by fastforce
  moreover have "list_all admissible es" using Cons.prems(2) by simp
  ultimately show ?case using Cons.IH [OF s'(2)] by (auto simp: split_beta)
qed simp

end

section \<open>Requests\<close>

type_synonym machine = nat
type_synonym disks = "machine \<Rightarrow> file_system"

datatype request_event = Upload_At machine string | Download_At machine string string | Server_Lost endpoint

datatype service_reply = Upload_Reply "upload_report outcome" | Download_Reply "download_report outcome" | No_Reply

text \<open>What the programs and the cluster do.\<close>

fun service_act :: "nat \<Rightarrow> client \<Rightarrow> request_event \<Rightarrow> disks \<times> network \<Rightarrow> service_reply \<times> disks \<times> network" where
  "service_act fuel cl (Upload_At i path) (ds, net) =
     (let (r, net') = uploadFile fuel cl (ds i) path net in (Upload_Reply r, ds, net'))"
| "service_act fuel cl (Download_At i f out) (ds, net) =
     (let (r, fs', net') = downloadFile fuel cl f out (ds i) net in (Download_Reply r, ds(i := fs'), net'))"
| "service_act fuel cl (Server_Lost x) (ds, net) = (No_Reply, ds, crash x net)"

text \<open>What they are specified to do, on the disks and a map from names to contents.\<close>

type_synonym catalogue = "string \<rightharpoonup> bytes"

fun spec_act :: "string \<Rightarrow> request_event \<Rightarrow> disks \<times> catalogue \<Rightarrow> service_reply \<times> disks \<times> catalogue" where
  "spec_act front (Upload_At i path) (ds, cat) =
     (case files (ds i) path of
        None \<Rightarrow> (Upload_Reply (Ret EmptyOrMissing), ds, cat)
      | Some d \<Rightarrow> if d = [] then (Upload_Reply (Ret EmptyOrMissing), ds, cat)
                 else (Upload_Reply (Ret (Uploaded front)), ds, cat(base_name path \<mapsto> d)))"
| "spec_act front (Download_At i f out) (ds, cat) =
     (case cat f of
        None \<Rightarrow> (Download_Reply (Ret NotFound), ds, cat)
      | Some d \<Rightarrow>
          if creatable (ds i) out
          then (Download_Reply (Ret Reconstructed), ds(i := (ds i)\<lparr>files := (files (ds i))(out \<mapsto> d)\<rparr>), cat)
          else (Download_Reply (Ret ReconstructionFailed), ds, cat))"
| "spec_act front (Server_Lost x) (ds, cat) = (No_Reply, ds, cat)"

text \<open>Names of one word, and no failure but that of \<open>x\<close>, which is not a metadata node.\<close>

fun event_ok :: "endpoint \<Rightarrow> endpoint list \<Rightarrow> request_event \<Rightarrow> bool" where
  "event_ok x es (Upload_At i path) \<longleftrightarrow> is_word (base_name path) \<and> length (base_name path) < 2 ^ 30"
| "event_ok x es (Download_At i f out) \<longleftrightarrow> is_word f \<and> length f < 2 ^ 31"
| "event_ok x es (Server_Lost y) \<longleftrightarrow> y = x \<and> x \<notin> set es"

section \<open>The state of the cluster\<close>

text \<open>All that \<open>usable\<close> and \<open>replica_eps\<close> see of a network.\<close>

lemma usable_cong:
  assumes "usable x net cl es" and "addr_ep net' = addr_ep net" and "\<And>e. storage_place net e \<Longrightarrow> storage_place net' e"
    and "\<And>e. e \<noteq> x \<Longrightarrow> up_at net' e = up_at net e" and "linked net' es"
    and "metadata_at (last es) net' = Some t" and "role_of t = TAIL \<or> role_of t = SINGLE"
  shows "usable x net' cl es"
  using assms unfolding usable_def by metis

lemma replica_eps_cong: "addr_ep net' = addr_ep net \<Longrightarrow> replica_eps net' cl = replica_eps net cl"
  by (simp add: replica_eps_def fun_eq_iff)

text \<open>The chunks of a content, and what it takes for digests to be names of chunks.\<close>

definition chunk_bytes :: "bytes \<Rightarrow> bytes set" where
  "chunk_bytes d = set (map chunk_data (read_chunks 0 d))"

definition no_collisions :: "bytes set \<Rightarrow> bool" where
  "no_collisions D \<longleftrightarrow> inj_on sha256 (\<Union>d \<in> D. chunk_bytes d)"

text \<open>Every running replica of a chunk holds it.\<close>

definition holds :: "client \<Rightarrow> network \<Rightarrow> bytes \<Rightarrow> bool" where
  "holds cl net b \<longleftrightarrow> (\<forall>e \<in> set (replica_eps net cl (sha256 b)).
     storage_place net e \<and> chunk_at e (sha256 b) net = (if up_at net e then Some b else None))"

text \<open>The tail of the chain knows exactly the files of the catalogue.\<close>

fun recorded_entry :: "string \<Rightarrow> bytes option \<Rightarrow> file_metadata option \<Rightarrow> bool" where
  "recorded_entry f None m \<longleftrightarrow> m = None"
| "recorded_entry f (Some d) m \<longleftrightarrow>
     (\<exists>fs path. carriable fs path d \<and> base_name path = f \<and> m = Some (file_record fs path))"

definition recorded_as :: "(string \<rightharpoonup> file_metadata) \<Rightarrow> catalogue \<Rightarrow> bool" where
  "recorded_as S cat \<longleftrightarrow> (\<forall>f. recorded_entry f (cat f) (S f))"

text \<open>
  The abstraction. \<open>D\<close> is the set of contents that can occur in the session: it bounds what
  is on the disks and in the catalogue.
\<close>

definition file_rel :: "nat \<Rightarrow> client \<Rightarrow> endpoint list \<Rightarrow> endpoint \<Rightarrow> bytes set \<Rightarrow> disks \<times> catalogue \<Rightarrow> disks \<times> network \<Rightarrow> bool" where
  "file_rel fuel cl es x D a s \<longleftrightarrow> fst s = fst a \<and> usable x (snd s) cl es \<and> length es \<le> Suc fuel \<and>
     no_collisions D \<and> (\<forall>d \<in> D. length d < 2 ^ 45) \<and> (\<forall>i. ran (files (fst a i)) \<subseteq> D) \<and> ran (snd a) \<subseteq> D \<and>
     (\<forall>d \<in> ran (snd a). \<forall>b \<in> chunk_bytes d. holds cl (snd s) b) \<and> recorded_as (chain_store es (snd s)) (snd a)"

section \<open>What an upload leaves in the storage nodes\<close>

lemma file_chunks_bytes:
  assumes "carriable fs path d"
  shows "chunk_bytes d = chunk_data ` set (file_chunks fs path)"
    and "c \<in> set (file_chunks fs path) \<Longrightarrow> chunk_hash c = sha256 (chunk_data c)"
  using read_chunks_sizes [of _ 0 d]
  by (auto simp: chunk_bytes_def file_chunks_eq [OF assms] image_image computeSHA256_def valid_data_def)

lemma no_collisionsD:
  assumes "no_collisions D" and "d \<in> D" and "d' \<in> D" and "b \<in> chunk_bytes d" and "b' \<in> chunk_bytes d'" and "sha256 b = sha256 b'"
  shows "b = b'"
  using assms unfolding no_collisions_def inj_on_def by blast

lemma chunk_at_store_all_keeps:
  assumes "chunk_at e h net = (if up_at net e then Some b else None)" and "storage_place net e"
    and "\<forall>(c, e') \<in> set ps. chunk_hash c = h \<longrightarrow> chunk_data c = b"
  shows "chunk_at e h (store_all ps net) = (if up_at net e then Some b else None)"
  using assms(1,3)
proof (induction ps arbitrary: net rule: rev_induct)
  case (snoc p ps)
  then have "chunk_at e h (store_all ps net) = (if up_at net e then Some b else None)" by simp
  then show ?case using snoc.prems(2) by (cases p) (auto simp: chunk_at_put_chunk)
qed simp

lemma chunk_at_down: "\<not> up_at net e \<Longrightarrow> chunk_at e h net = None"
  by (auto simp: chunk_at_def up_at_def split: option.splits server.splits)

lemma replica_eps_after_upload [simp]: "replica_eps (after_upload net cl fs path es) cl = replica_eps net cl"
  by (rule replica_eps_cong) simp

lemma chunk_at_after_upload:
  "chunk_at e h (after_upload net cl fs path es) =
   chunk_at e h (store_all (pairs (map (\<lambda>c. (c, replica_eps net cl (chunk_hash c))) (file_chunks fs path))) net)"
  by (simp add: after_upload_def)

lemma upload_keeps:
  assumes "holds cl net b" and "\<forall>c \<in> set (file_chunks fs path). chunk_hash c = sha256 b \<longrightarrow> chunk_data c = b"
  shows "holds cl (after_upload net cl fs path es) b"
proof -
  let ?ps = "pairs (map (\<lambda>c. (c, replica_eps net cl (chunk_hash c))) (file_chunks fs path))"
  have ps: "\<forall>(c, e') \<in> set ?ps. chunk_hash c = sha256 b \<longrightarrow> chunk_data c = b"
    using assms(2) by (auto simp: in_pairs)
  show ?thesis
    using assms(1) chunk_at_store_all_keeps [OF _ _ ps] by (simp add: holds_def chunk_at_after_upload)
qed

lemma upload_stores:
  assumes "usable x net cl es" and "c \<in> set (file_chunks fs path)" and "chunk_hash c = sha256 (chunk_data c)"
    and "\<forall>c' \<in> set (file_chunks fs path). chunk_hash c' = chunk_hash c \<longrightarrow> chunk_data c' = chunk_data c"
  shows "holds cl (after_upload net cl fs path es) (chunk_data c)"
proof -
  let ?net = "after_upload net cl fs path es"
  let ?ps = "pairs (map (\<lambda>c. (c, replica_eps net cl (chunk_hash c))) (file_chunks fs path))"
  have "storage_place ?net e \<and> chunk_at e (chunk_hash c) ?net = (if up_at ?net e then Some (chunk_data c) else None)"
    if e: "e \<in> set (replica_eps net cl (chunk_hash c))" for e
  proof -
    have place: "storage_place net e" using usable_replicas(2) [OF assms(1) e] by blast
    have "(c, e) \<in> set ?ps" using assms(2) e by (auto simp: in_pairs)
    moreover have "\<forall>(c', e') \<in> set ?ps. chunk_hash c' = chunk_hash c \<longrightarrow> chunk_data c' = chunk_data c"
      using assms(4) by (auto simp: in_pairs)
    ultimately have "up_at net e \<Longrightarrow> chunk_at e (chunk_hash c) (store_all ?ps net) = Some (chunk_data c)"
      using place by (intro chunk_at_store_all)
    then show ?thesis using place chunk_at_down [of ?net e] by (auto simp: chunk_at_after_upload)
  qed
  then show ?thesis by (simp add: holds_def assms(3))
qed

section \<open>What the tail answers\<close>

lemma chain_store_after_upload:
  assumes "usable x net cl es"
  shows "chain_store es (after_upload net cl fs path es) = (chain_store es net)(base_name path \<mapsto> file_record fs path)"
    and "usable x (after_upload net cl fs path es) cl es"
proof -
  obtain e es' t where h: "es = e # es'" "linked net es" "distinct es" "metadata_at (last es) net = Some t"
      "role_of t = TAIL \<or> role_of t = SINGLE"
    using assms by (cases es) (auto simp: usable_def)
  have at: "metadata_at (last es) (after_upload net cl fs path es) = Some (stored (file_record fs path) t)"
    using metadata_at_write_all [OF h(3)] h(4) last_in_set [of es] h(1) by (simp add: after_upload_def)
  then show "chain_store es (after_upload net cl fs path es) = (chain_store es net)(base_name path \<mapsto> file_record fs path)"
    using h(4) by (simp add: chain_store_def file_record_simps)
  have "linked (after_upload net cl fs path es) es"
    using linked_write_all_self [of _ es es] linked_cong [of "store_all _ net" net es] h(2,3) by (simp add: after_upload_def)
  then show "usable x (after_upload net cl fs path es) cl es"
    using h(5) by (intro usable_cong [OF assms _ _ _ _ at]) simp_all
qed

text \<open>Every node of the chain but the last sends readers away.\<close>

lemma forwards_redirects: "forwards n \<Longrightarrow> handleGet f n = ''REDIRECT_TO_TAIL''"
  by (simp add: forwards_def handleGet_def)

lemma linked_redirects:
  assumes "linked net es" and "e \<in> set es" and "e \<noteq> last es"
  shows "\<exists>n. metadata_at e net = Some n \<and> meta_running n \<and> handleGet f n = ''REDIRECT_TO_TAIL''"
  using assms
proof (induction net es rule: linked.induct)
  case (3 net e' e'' es)
  then obtain n where n: "metadata_at e' net = Some n" "meta_running n" "forwards n" "linked net (e'' # es)"
    by (auto split: option.splits)
  show ?case
  proof (cases "e = e'")
    case True
    then show ?thesis using n(1,2) forwards_redirects [OF n(3)] by blast
  next
    case False
    then have "e \<in> set (e'' # es)" "e \<noteq> last (e'' # es)" using "3.prems"(2,3) by simp_all
    then show ?thesis by (rule "3.IH" [OF n(1,4)])
  qed
qed simp_all

lemma no_record_found [simp]:
  "parse_found f ''REDIRECT_TO_TAIL'' = no_metadata" "parse_found f ''NOT_FOUND'' = no_metadata"
  by (simp_all add: parse_found_def)

lemma find_metadata_none:
  assumes "\<forall>a \<in> set as. getMetadataFromNode fuel a f net = (Ret no_metadata, net)"
  shows "find_metadata fuel f as net = (Ret None, net)"
  using assms by (induction as) (simp_all add: no_metadata_def)

lemma download_unknown:
  assumes u: "usable x net cl es" and none: "chain_store es net f = None" and f: "is_word f" "length f < 2 ^ 31"
  shows "downloadFile fuel cl f out fs net = (Ret NotFound, fs, net)"
proof -
  have "getMetadataFromNode fuel a f net = (Ret no_metadata, net)" if a: "a \<in> set (metadataNodes cl)" for a
  proof -
    have "map (addr_ep net) (metadataNodes cl) = map Some es" and l: "linked net es" using u by (simp_all add: usable_def)
    then have "addr_ep net a \<in> set (map Some es)" using a by (metis image_eqI list.set_map)
    then obtain e where e: "addr_ep net a = Some e" "e \<in> set es" by auto
    obtain n where n: "metadata_at e net = Some n" "meta_running n" "handleGet f n = ''REDIRECT_TO_TAIL'' \<or> handleGet f n = ''NOT_FOUND''"
    proof (cases "e = last es")
      case True
      obtain t where "metadata_at e net = Some t" "role_of t = TAIL \<or> role_of t = SINGLE"
        using u True by (auto simp: usable_def)
      moreover have "meta_running t" using linked_member [OF l e(2)] calculation(1) by auto
      moreover have "handleGet f t = ''NOT_FOUND''"
        using calculation none True by (auto simp: handleGet_def chain_store_def)
      ultimately show ?thesis using that by blast
    next
      case False
      then show ?thesis using linked_redirects [OF l e(2) False] that by blast
    qed
    have "length (handleGet f n) < 2 ^ 32" using n(3) by auto
    then have "getMetadataFromNode fuel a f net = (Ret (parse_found f (handleGet f n)), net)"
      using getMetadata_reply [OF e(1) n(1,2) f] by blast
    then show ?thesis using n(3) by auto
  qed
  then have "find_metadata fuel f (rev (metadataNodes cl)) net = (Ret None, net)"
    by (intro find_metadata_none) simp
  then show ?thesis by (simp add: downloadFile_def)
qed

lemma holds_serves:
  assumes u: "usable x net cl es" and c: "carriable fs path d" "c \<in> set (file_chunks fs path)" and h: "holds cl net (chunk_data c)"
  shows "serves net (dht_of cl) (chunk_hash c) (chunk_data c)"
proof -
  have hash: "chunk_hash c = sha256 (chunk_data c)" using file_chunks_bytes(2) [OF c] .
  let ?rs = "replica_eps net cl (chunk_hash c)"
  note r = usable_replicas [OF u, where h = "chunk_hash c"]
  have "\<forall>e \<in> set ?rs. chunk_at e (chunk_hash c) net = (if up_at net e then Some (chunk_data c) else None)"
    using h by (simp add: holds_def hash)
  moreover obtain e where "e \<in> set ?rs" "e \<noteq> x" using r(3) by blast
  moreover from this have "up_at net e" using r(2) by blast
  ultimately have "\<forall>e \<in> set ?rs. chunk_at e (chunk_hash c) net \<in> {None, Some [], Some (chunk_data c)}"
      "\<exists>e \<in> set ?rs. chunk_at e (chunk_hash c) net = Some (chunk_data c)" by auto
  then show ?thesis using file_chunk_good [OF c] r(1) unfolding serves_def good_chunk_def by blast
qed

lemma download_known:
  assumes u: "usable x net cl es" and c: "carriable fs' path d" and h: "\<forall>b \<in> chunk_bytes d. holds cl net b"
    and rec: "chain_store es net (base_name path) = Some (file_record fs' path)"
  shows "downloadFile fuel cl (base_name path) out fs net =
    (if creatable fs out then (Ret Reconstructed, fs\<lparr>files := (files fs)(out \<mapsto> d)\<rparr>, net)
     else (Ret ReconstructionFailed, fs, net))"
proof -
  obtain t where t: "metadata_at (last es) net = Some t" "role_of t = TAIL \<or> role_of t = SINGLE"
    and l: "linked net es" and ms: "map (addr_ep net) (metadataNodes cl) = map Some es"
    using u by (auto simp: usable_def)
  have es: "es \<noteq> []" using l by auto
  have "meta_running t" using linked_member [OF l last_in_set [OF es]] t(1) by auto
  moreover have "metadataStore t (base_name path) = Some (file_record fs' path)" using rec t(1) by (simp add: chain_store_def)
  moreover have "\<forall>c \<in> set (file_chunks fs' path). serves net (dht_of cl) (chunk_hash c) (chunk_data c)"
    using holds_serves [OF u c] h by (auto simp: file_chunks_bytes(1) [OF c])
  ultimately show ?thesis using download_recorded [OF _ _ t(1) _ t(2) _ c] last_metadata_node [OF ms es] by blast
qed

section \<open>Losing a server\<close>

lemma linked_crash: "linked net es \<Longrightarrow> x \<notin> set es \<Longrightarrow> linked (crash x net) es"
  by (induction net es rule: linked.induct)
    (auto simp: crash_def endpoint_of_def metadata_at_def split: option.splits)

lemma up_at_crash [simp]: "up_at (crash x net) e \<longleftrightarrow> up_at net e \<and> e \<noteq> x"
  by (simp add: up_at_def crash_def)

lemma crash_usable:
  assumes "usable x net cl es" and "x \<notin> set es"
  shows "usable x (crash x net) cl es" and "chain_store es (crash x net) = chain_store es net"
proof -
  obtain t where t: "metadata_at (last es) net = Some t" "role_of t = TAIL \<or> role_of t = SINGLE" and l: "linked net es"
    using assms(1) by (auto simp: usable_def)
  have "es \<noteq> []" using l by auto
  then have x: "last es \<noteq> x" using assms(2) by auto
  then have "metadata_at (last es) (crash x net) = Some t" using t(1) by simp
  then show "usable x (crash x net) cl es"
    using usable_cong [OF assms(1) _ storage_place_crash _ linked_crash [OF l assms(2)]] t(2) by simp
  show "chain_store es (crash x net) = chain_store es net" using x by (simp add: chain_store_def)
qed

lemma holds_crash: "holds cl net b \<Longrightarrow> holds cl (crash x net) b"
  using replica_eps_cong [of "crash x net" net cl] storage_place_crash [of net _ x] by (auto simp: holds_def)

section \<open>The refinement\<close>

lemma file_relD:
  assumes "file_rel fuel cl es x D (ds, cat) (ds', net)"
  shows "ds' = ds" and "usable x net cl es" and "length es \<le> Suc fuel" and "no_collisions D"
    and "files (ds i) p = Some d \<Longrightarrow> d \<in> D" and "cat f = Some d \<Longrightarrow> d \<in> D" and "d \<in> D \<Longrightarrow> length d < 2 ^ 45"
    and "cat f = Some d \<Longrightarrow> b \<in> chunk_bytes d \<Longrightarrow> holds cl net b" and "recorded_as (chain_store es net) cat"
  using assms unfolding file_rel_def by (auto simp: ran_def)

lemma recorded_asD:
  assumes "recorded_as S cat"
  shows "cat f = None \<Longrightarrow> S f = None"
    and "cat f = Some d \<Longrightarrow> \<exists>fs path. carriable fs path d \<and> base_name path = f \<and> S f = Some (file_record fs path)"
  using spec [OF assms [unfolded recorded_as_def], of f] by simp_all

lemma recorded_as_upd:
  assumes "recorded_as S cat" and "carriable fs path d"
  shows "recorded_as (S(base_name path \<mapsto> file_record fs path)) (cat(base_name path \<mapsto> d))"
  unfolding recorded_as_def
proof
  fix f
  have "recorded_entry f (cat f) (S f)" using assms(1) unfolding recorded_as_def ..
  then show "recorded_entry f ((cat(base_name path \<mapsto> d)) f) ((S(base_name path \<mapsto> file_record fs path)) f)"
    using assms(2) by (cases "f = base_name path") auto
qed

lemma upload_nothing:
  assumes "files fs path = None \<or> files fs path = Some []"
  shows "uploadFile fuel cl fs path net = (Ret EmptyOrMissing, net)"
  using assms by (auto simp: uploadFile_def splitFileIntoChunks_def)

lemma service_upload:
  assumes rel: "file_rel fuel cl es x D (ds, cat) (ds, net)" and ok: "event_ok x es (Upload_At i path)"
    and d: "files (ds i) path = Some d" "d \<noteq> []"
  shows "uploadFile fuel cl (ds i) path net =
      (Ret (Uploaded (hd (metadataNodes cl))), after_upload net cl (ds i) path es)"
    and "file_rel fuel cl es x D (ds, cat(base_name path \<mapsto> d)) (ds, after_upload net cl (ds i) path es)"
proof -
  let ?net = "after_upload net cl (ds i) path es"
  note R = file_relD [OF rel]
  have dD: "d \<in> D" using R(5) d(1) .
  have c: "carriable (ds i) path d" using ok d R(7) [OF dD] by (simp add: carriable_def)
  show "uploadFile fuel cl (ds i) path net = (Ret (Uploaded (hd (metadataNodes cl))), ?net)"
    by (rule upload_usable [OF R(2) c R(3)])
  have same: "chunk_data c' = b"
    if same: "c' \<in> set (file_chunks (ds i) path)" "d' \<in> D" "b \<in> chunk_bytes d'" "chunk_hash c' = sha256 b" for c' b d'
    using same no_collisionsD [OF R(4) dD, of d' "chunk_data c'" b] file_chunks_bytes [OF c] by simp
  have "holds cl ?net b" if known: "d' = d \<or> cat f = Some d'" and b: "b \<in> chunk_bytes d'" for f d' b
  proof (cases "d' = d")
    case True
    then obtain c' where c': "c' \<in> set (file_chunks (ds i) path)" "b = chunk_data c'"
      using b file_chunks_bytes(1) [OF c] by auto
    then have "chunk_hash c' = sha256 (chunk_data c')" by (simp add: file_chunks_bytes(2) [OF c])
    then show ?thesis unfolding c'(2)
      using upload_stores [OF R(2) c'(1)] same [OF _ dD] b True c'(2) by simp
  next
    case False
    then have cat: "cat f = Some d'" using known by blast
    show ?thesis using upload_keeps [OF R(8) [OF cat b]] same [OF _ R(6) [OF cat] b] by blast
  qed
  then have "\<forall>d' \<in> ran (cat(base_name path \<mapsto> d)). \<forall>b \<in> chunk_bytes d'. holds cl ?net b"
    unfolding ran_def by (auto split: if_splits)
  moreover have "ran (cat(base_name path \<mapsto> d)) \<subseteq> D" using rel dD by (auto simp: file_rel_def ran_def)
  ultimately show "file_rel fuel cl es x D (ds, cat(base_name path \<mapsto> d)) (ds, ?net)"
    using rel recorded_as_upd [OF R(9) c] chain_store_after_upload [OF R(2)] by (simp add: file_rel_def)
qed

lemma service_download:
  assumes rel: "file_rel fuel cl es x D (ds, cat) (ds, net)" and ok: "event_ok x es (Download_At i f out)"
  shows "downloadFile fuel cl f out (ds i) net =
    (case cat f of
       None \<Rightarrow> (Ret NotFound, ds i, net)
     | Some d \<Rightarrow> if creatable (ds i) out then (Ret Reconstructed, (ds i)\<lparr>files := (files (ds i))(out \<mapsto> d)\<rparr>, net)
                else (Ret ReconstructionFailed, ds i, net))"
proof (cases "cat f")
  case None
  then show ?thesis using download_unknown [OF file_relD(2) [OF rel] recorded_asD(1) [OF file_relD(9) [OF rel]]] ok by simp
next
  case (Some d)
  then obtain fs path where "carriable fs path d" "base_name path = f" "chain_store es net f = Some (file_record fs path)"
    using recorded_asD(2) [OF file_relD(9) [OF rel]] by blast
  then show ?thesis using download_known [OF file_relD(2) [OF rel], of fs path d] file_relD(8) [OF rel Some] Some by auto
qed

lemma file_rel_write:
  assumes "file_rel fuel cl es x D (ds, cat) (ds, net)" and "cat f = Some d"
    and ds': "ds' = ds(i := (ds i)\<lparr>files := (files (ds i))(out \<mapsto> d)\<rparr>)"
  shows "file_rel fuel cl es x D (ds', cat) (ds', net)"
proof -
  have "ran (files (ds' j)) \<subseteq> D" for j
    using assms(1) file_relD(6) [OF assms(1,2)] by (auto simp: ds' file_rel_def ran_def split: if_splits)
  then show ?thesis using assms(1) by (simp add: file_rel_def)
qed

lemma file_rel_crash:
  assumes "file_rel fuel cl es x D (ds, cat) (ds, net)" and "x \<notin> set es"
  shows "file_rel fuel cl es x D (ds, cat) (ds, crash x net)"
  using assms crash_usable [OF file_relD(2) [OF assms(1)] assms(2)] by (simp add: file_rel_def holds_crash)

lemma service_simulates:
  assumes rel: "file_rel fuel cl es x D a s" and ok: "event_ok x es e"
  shows "\<exists>s'. service_act fuel cl e s = (fst (spec_act (hd (metadataNodes cl)) e a), s') \<and>
    file_rel fuel cl es x D (snd (spec_act (hd (metadataNodes cl)) e a)) s'"
proof -
  obtain ds cat net where as: "a = (ds, cat)" "s = (ds, net)"
    using rel by (cases a; cases s) (simp add: file_rel_def)
  note rel' = rel [unfolded as]
  show ?thesis
  proof (cases e)
    case (Upload_At i path)
    show ?thesis
    proof (cases "files (ds i) path = None \<or> files (ds i) path = Some []")
      case True
      then show ?thesis using rel' upload_nothing [OF True] by (auto simp: as Upload_At)
    next
      case False
      then obtain d where "files (ds i) path = Some d" "d \<noteq> []" by auto
      then show ?thesis using service_upload [OF rel' ok [unfolded Upload_At]] by (simp add: as Upload_At)
    qed
  next
    case (Download_At i f out)
    then show ?thesis
      using rel' service_download [OF rel' ok [unfolded Download_At]] file_rel_write [OF rel' _ refl]
      by (auto simp: as split: option.split)
  next
    case (Server_Lost y)
    then show ?thesis using file_rel_crash [OF rel'] ok by (simp add: as)
  qed
qed

interpretation file_service: service_refinement "service_act fuel cl" "spec_act (hd (metadataNodes cl))"
  "file_rel fuel cl es x D" "event_ok x es"
  by unfold_locales (rule service_simulates)

lemma file_rel_initial:
  assumes "healthy net cl es" and "length es \<le> Suc fuel" and "chain_store es net = Map.empty"
    and "no_collisions (\<Union>i. ran (files (ds i)))" and "\<forall>i. \<forall>d \<in> ran (files (ds i)). length d < 2 ^ 45"
  shows "file_rel fuel cl es x (\<Union>i. ran (files (ds i))) (ds, Map.empty) (ds, net)"
  using assms healthy_usable [OF assms(1), of x] by (auto simp: file_rel_def recorded_as_def)

section \<open>Properties\<close>

text \<open>
  C2: The whole system behaves as one map from file names to contents. Programs on any number
  of machines, configured for the same healthy cluster with an empty chain, upload and
  download files in any order; on the way one server that is not a metadata node may fail,
  at any moment between requests. Provided different chunks among the contents initially on
  the disks have different digests, every upload and download gives exactly the report of the
  specification (an upload binds the name to the bytes of the file, a download writes the
  bytes bound to the name, \<open>NotFound\<close> when there are none), and the disks end as it says.
\<close>
theorem files_refine_map:
  assumes "healthy net cl es" and "length es \<le> Suc fuel" and "chain_store es net = Map.empty"
    and "no_collisions (\<Union>i. ran (files (ds i)))" and "\<forall>i. \<forall>d \<in> ran (files (ds i)). length d < 2 ^ 45"
    and "list_all (event_ok x es) events"
  shows "\<exists>net'. run_events (service_act fuel cl) events (ds, net) =
    (let (replies, ds', cat) = run_events (spec_act (hd (metadataNodes cl))) events (ds, Map.empty)
     in (replies, ds', net'))"
proof -
  let ?spec = "run_events (spec_act (hd (metadataNodes cl))) events (ds, Map.empty)"
  obtain s' where s': "run_events (service_act fuel cl) events (ds, net) = (fst ?spec, s')"
      "file_rel fuel cl es x (\<Union>i. ran (files (ds i))) (snd ?spec) s'"
    using file_service.session [OF file_rel_initial [OF assms(1-5)] assms(6)] by blast
  then have "fst s' = fst (snd ?spec)" by (simp add: file_rel_def)
  then show ?thesis using s'(1) by (cases s') (auto simp: split_beta)
qed

text \<open>Two machines: the first has \<open>a.txt\<close> of \<open>wit_fs\<close>, the second an empty disk.\<close>

definition wit_disks :: disks where
  "wit_disks i = (if i = 0 then wit_fs else \<lparr>files = Map.empty, creatable = (\<lambda>p. True)\<rparr>)"

definition wit_session :: "request_event list" where
  "wit_session = [Upload_At 0 ''a.txt'', Server_Lost (local_ep 8001), Download_At 1 ''a.txt'' ''b.txt'',
     Upload_At 1 ''b.txt'', Download_At 0 ''b.txt'' ''c.txt'', Download_At 0 ''d.txt'' ''e.txt'',
     Download_At 0 ''a.txt'' ''/root/x'', Upload_At 0 ''empty'']"

lemma wit_disk_contents: "ran (files (wit_disks i)) = (if i = 0 then {[1, 2, 3], []} else {})"
proof -
  have "ran (files wit_fs) = {[1, 2, 3], []}" by (simp add: wit_fs_def ran_map_upd insert_commute)
  then show ?thesis by (simp add: wit_disks_def)
qed

lemma wit_contents: "(\<Union>i. ran (files (wit_disks i))) = {[1, 2, 3], []}"
  by (auto simp: wit_disk_contents split: if_splits)

lemma wit_no_collisions: "no_collisions {[1, 2, 3], []}"
proof -
  have "length (read_chunks 0 [1, 2, 3]) = 1" by (simp add: read_chunks_count CHUNK_SIZE_def)
  then obtain c where "read_chunks 0 [1, 2, 3] = [c]" by (auto simp: length_Suc_conv)
  then show ?thesis by (simp add: no_collisions_def chunk_bytes_def)
qed

definition wit_replies :: "service_reply list" where
  "wit_replies = [Upload_Reply (Ret (Uploaded ''127.0.0.1:9001'')), No_Reply, Download_Reply (Ret Reconstructed),
     Upload_Reply (Ret (Uploaded ''127.0.0.1:9001'')), Download_Reply (Ret Reconstructed), Download_Reply (Ret NotFound),
     Download_Reply (Ret ReconstructionFailed), Upload_Reply (Ret EmptyOrMissing)]"

lemma wit_names: "base_name ''a.txt'' = ''a.txt''" "base_name ''b.txt'' = ''b.txt''" "base_name ''empty'' = ''empty''"
  by (simp_all add: base_name_def after_last_of_def)

lemma wit_spec_session:
  "\<exists>ds cat. run_events (spec_act (hd (metadataNodes wit_client))) wit_session (wit_disks, Map.empty) = (wit_replies, ds, cat) \<and>
     files (ds 0) ''c.txt'' = Some [1, 2, 3]"
  by (simp add: wit_session_def wit_replies_def wit_names wit_disks_def wit_fs_def wit_client_def new_client_def)

theorem files_refine_map_witness:
  "\<exists>ds net'. run_events (service_act 2 wit_client) wit_session (wit_disks, startCluster) = (wit_replies, ds, net') \<and>
     files (ds 0) ''c.txt'' = Some [1, 2, 3]"
proof -
  have "length local_chain \<le> Suc 2" by (simp add: local_chain_def)
  moreover have "chain_store local_chain startCluster = Map.empty" by (simp add: chain_store_def local_defs new_metadata_node_def)
  moreover have "\<forall>i. \<forall>d \<in> ran (files (wit_disks i)). length d < 2 ^ 45" by (simp add: wit_disk_contents)
  moreover have "list_all (event_ok (local_ep 8001) local_chain) wit_session"
    by (simp add: wit_session_def wit_names is_word_def is_space_def local_chain_def)
  ultimately have "\<exists>net'. run_events (service_act 2 wit_client) wit_session (wit_disks, startCluster) =
    (let (replies, ds', cat) = run_events (spec_act (hd (metadataNodes wit_client))) wit_session (wit_disks, Map.empty)
     in (replies, ds', net'))"
    using files_refine_map [OF healthy_local, of 2 wit_disks] wit_contents wit_no_collisions by simp
  then show ?thesis using wit_spec_session by auto
qed

end
