(* ===== verification/Ring_Resize.thy ===== *)
theory Ring_Resize
  imports File_Service
begin

text \<open>
  Clients that disagree by one storage node. The ring of a client is made from its own list
  of storage nodes, and nothing moves the chunks when that list changes. Files are found all
  the same when a client has one node more, or one node fewer, than the client that uploaded
  them: of the two replicas of a chunk at least one is the same on both rings
  (\<open>Consistent_Hash.common_replica\<close>), and a download skips nodes that have nothing.
\<close>

section \<open>Neighbouring rings\<close>

definition grown_by :: "string \<Rightarrow> consistent_hash \<Rightarrow> consistent_hash \<Rightarrow> bool" where
  "grown_by a r r' \<longleftrightarrow> ring_inv r \<and> \<not> hasNode r a \<and> 2 \<le> length (getAllNodes r) \<and> r' = addNode a r"

lemma grown_replicas:
  assumes "grown_by a r r'"
  shows "\<exists>ns ns' b. getNodesForKey r h 2 = Inr ns \<and> getNodesForKey r' h 2 = Inr ns' \<and>
    set ns \<subseteq> set (getAllNodes r) \<and> set ns' \<subseteq> insert a (set ns) \<and> b \<in> set ns \<and> b \<in> set ns'"
  using common_replica [of r a h] assms by (auto simp: grown_by_def getAllNodes_def)

lemma grown_members:
  assumes "grown_by a r r'" shows "set (getAllNodes r) \<subseteq> set (getAllNodes r')"
proof -
  have "\<forall>n \<in> set (getAllNodes r). hashKey n \<noteq> hashKey a"
  proof
    fix n assume "n \<in> set (getAllNodes r)"
    then obtain p where p: "(p, n) \<in> set (ring r)" by (auto simp: getAllNodes_def)
    have inv: "map_inv (ring r)" "p = hashKey n" using assms p by (auto simp: grown_by_def ring_inv_def list_all_iff)
    then have "map_find (ring r) (hashKey n) = Some n" using p sm.in_entries_iff [OF inv(1)] by simp
    then show "hashKey n \<noteq> hashKey a" using assms by (auto simp: grown_by_def hasNode_def)
  qed
  then show ?thesis using assms ring_operations_preserve [of r a] by (auto simp: grown_by_def)
qed

text \<open>
  All replicas on the one ring have the chunk and nobody has anything else under its digest:
  then it is served on the other ring.
\<close>

definition consistent_at :: "network \<Rightarrow> string \<Rightarrow> bytes \<Rightarrow> bool" where
  "consistent_at net h d \<longleftrightarrow> (\<forall>e. chunk_at e h net \<in> {None, Some [], Some d})"

lemma serves_by:
  assumes "getNodesForKey r h 2 = Inr ns" and "b \<in> set ns" and "chunk_at (the (addr_ep net b)) h net = Some d"
    and "\<forall>a \<in> set ns. \<exists>e. addr_ep net a = Some e \<and> storage_place net e" and "consistent_at net h d"
    and "good_hash h" and "d \<noteq> []" and "length d < 2 ^ 31"
  shows "serves net r h d"
proof -
  let ?es = "map (\<lambda>a. the (addr_ep net a)) ns"
  have "leads_to net ns ?es" using assms(4) by (auto simp: leads_to_def)
  then have "placed_at net r h ?es" using assms(1) by (auto simp: placed_at_def)
  moreover have "\<exists>e \<in> set ?es. chunk_at e h net = Some d" using assms(2,3) by auto
  ultimately show ?thesis using assms(5-8) unfolding serves_def consistent_at_def by blast
qed

section \<open>Uploads and strangers' chunks\<close>

lemma chunk_at_store_all_in:
  assumes "chunk_at e h net \<in> {None, Some [], Some d}" and "\<forall>(c, e') \<in> set ps. chunk_hash c = h \<longrightarrow> chunk_data c = d"
  shows "chunk_at e h (store_all ps net) \<in> {None, Some [], Some d}"
  using assms
proof (induction ps arbitrary: net rule: rev_induct)
  case (snoc p ps)
  then have "chunk_at e h (store_all ps net) \<in> {None, Some [], Some d}" by simp
  then show ?case using snoc.prems(2) by (cases p) (auto simp: chunk_at_put_chunk)
qed simp

lemma consistent_after_upload:
  assumes "collision_free fs path" and c: "c \<in> set (file_chunks fs path)" and "consistent_at net (chunk_hash c) (chunk_data c)"
  shows "consistent_at (after_upload net cl fs path es) (chunk_hash c) (chunk_data c)"
  unfolding consistent_at_def chunk_at_after_upload
proof (intro allI chunk_at_store_all_in)
  show "chunk_at e (chunk_hash c) net \<in> {None, Some [], Some (chunk_data c)}" for e
    using assms(3) unfolding consistent_at_def by blast
  have "chunk_data c' = chunk_data c" if "c' \<in> set (file_chunks fs path)" "chunk_hash c' = chunk_hash c" for c'
    using assms(1) c that unfolding collision_free_def by blast
  then show "\<forall>(c', e') \<in> set (pairs (map (\<lambda>c. (c, replica_eps net cl (chunk_hash c))) (file_chunks fs path))).
      chunk_hash c' = chunk_hash c \<longrightarrow> chunk_data c' = chunk_data c" by (auto simp: in_pairs)
qed

section \<open>The file on the other ring\<close>

definition neighbours :: "network \<Rightarrow> consistent_hash \<Rightarrow> consistent_hash \<Rightarrow> bool" where
  "neighbours net r r' \<longleftrightarrow>
     (\<exists>a x. grown_by a r r' \<and> addr_ep net a = Some x \<and> storage_place net x) \<or> (\<exists>a. grown_by a r' r)"

lemma neighbour_replicas:
  assumes "neighbours net r r'" and m: "\<forall>a \<in> set (getAllNodes r). \<exists>e. addr_ep net a = Some e \<and> storage_place net e"
  shows "\<exists>ns ns' b. getNodesForKey r h 2 = Inr ns \<and> getNodesForKey r' h 2 = Inr ns' \<and> b \<in> set ns \<and> b \<in> set ns' \<and>
    (\<forall>a \<in> set ns'. \<exists>e. addr_ep net a = Some e \<and> storage_place net e)"
  using assms(1) unfolding neighbours_def
proof (elim disjE exE conjE)
  fix a x assume g: "grown_by a r r'" and a: "addr_ep net a = Some x" "storage_place net x"
  obtain ns ns' b where n: "getNodesForKey r h 2 = Inr ns" "getNodesForKey r' h 2 = Inr ns'" "set ns \<subseteq> set (getAllNodes r)"
      "set ns' \<subseteq> insert a (set ns)" "b \<in> set ns" "b \<in> set ns'" using grown_replicas [OF g] by metis
  then have "\<forall>a \<in> set ns'. \<exists>e. addr_ep net a = Some e \<and> storage_place net e" using a m by blast
  then show ?thesis using n by blast
next
  fix a assume g: "grown_by a r' r"
  obtain ns ns' b where n: "getNodesForKey r' h 2 = Inr ns'" "getNodesForKey r h 2 = Inr ns" "set ns' \<subseteq> set (getAllNodes r')"
      "b \<in> set ns'" "b \<in> set ns" using grown_replicas [OF g] by metis
  then have "\<forall>a \<in> set ns'. \<exists>e. addr_ep net a = Some e \<and> storage_place net e" using m grown_members [OF g] by blast
  then show ?thesis using n by blast
qed

lemma neighbour_serves:
  assumes h: "healthy net cl es" and c: "carriable fs path d" and cf: "collision_free fs path"
    and mem: "c \<in> set (file_chunks fs path)" and cons: "consistent_at net (chunk_hash c) (chunk_data c)"
    and nb: "neighbours net (dht_of cl) r'"
  shows "serves (after_upload net cl fs path es) r' (chunk_hash c) (chunk_data c)"
proof -
  let ?net = "after_upload net cl fs path es"
  have "\<forall>a \<in> set (getAllNodes (dht_of cl)). \<exists>e. addr_ep net a = Some e \<and> storage_place net e"
    using h by (auto simp: healthy_def)
  from neighbour_replicas [OF nb this] obtain ns ns' b where n: "getNodesForKey (dht_of cl) (chunk_hash c) 2 = Inr ns"
      "getNodesForKey r' (chunk_hash c) 2 = Inr ns'" "b \<in> set ns" "b \<in> set ns'"
      "\<forall>a \<in> set ns'. \<exists>e. addr_ep net a = Some e \<and> storage_place net e" by metis
  have "the (addr_ep net b) \<in> set (replica_eps net cl (chunk_hash c))" using n(1,3) by (simp add: replica_eps_def)
  then have "chunk_at (the (addr_ep ?net b)) (chunk_hash c) ?net = Some (chunk_data c)"
    using after_upload_chunks [OF h cf mem] by simp
  moreover have "\<forall>a \<in> set ns'. \<exists>e. addr_ep ?net a = Some e \<and> storage_place ?net e" using n(5) by simp
  moreover have "consistent_at ?net (chunk_hash c) (chunk_data c)" using consistent_after_upload [OF cf mem cons] .
  ultimately show ?thesis
    using serves_by [OF n(2,4)] file_chunk_good [OF c mem] by (simp add: good_chunk_def)
qed

section \<open>Properties\<close>

text \<open>
  C3: One storage node more or less loses no file. A file is uploaded to a healthy cluster by
  one client and downloaded by another, with the same metadata nodes and a ring that has one
  storage node more or one node fewer. Provided no two chunks of the file collide and no node
  holds other data under one of their digests, the download writes exactly the original
  bytes, whether or not the additional node is up.
\<close>
theorem resized_ring_finds_file:
  assumes "healthy net cl es" and "carriable fs path d" and "collision_free fs path" and "length es \<le> Suc fuel"
    and "\<forall>c \<in> set (file_chunks fs path). consistent_at net (chunk_hash c) (chunk_data c)"
    and "metadataNodes cl' = metadataNodes cl" and "neighbours net (dht_of cl) (dht_of cl')" and "creatable fs2 out"
  shows "\<exists>net1. uploadFile fuel cl fs path net = (Ret (Uploaded (hd (metadataNodes cl))), net1) \<and>
    downloadFile fuel cl' (base_name path) out fs2 net1 = (Ret Reconstructed, fs2\<lparr>files := (files fs2)(out \<mapsto> d)\<rparr>, net1)"
proof -
  let ?net = "after_upload net cl fs path es"
  obtain t where t: "metadata_at (last es) net = Some t" "role_of t = TAIL \<or> role_of t = SINGLE"
    using assms(1) by (auto simp: healthy_def)
  have es: "es \<noteq> []" and ms: "map (addr_ep net) (metadataNodes cl) = map Some es"
    using assms(1) by (auto simp: healthy_def)
  let ?t = "stored (file_record fs path) t"
  have tail: "metadata_at (last es) ?net = Some ?t" "meta_running ?t" "role_of ?t = TAIL \<or> role_of ?t = SINGLE"
    using after_upload_metadata [OF assms(1) last_in_set [OF es], of fs path] t by auto
  have node: "metadataNodes cl' \<noteq> []" "addr_ep ?net (last (metadataNodes cl')) = Some (last es)"
    using last_metadata_node [OF ms es] assms(6) by simp_all
  have rec: "metadataStore ?t (base_name path) = Some (file_record fs path)" by (simp add: file_record_simps)
  have "\<forall>c \<in> set (file_chunks fs path). serves ?net (dht_of cl') (chunk_hash c) (chunk_data c)"
    using neighbour_serves [OF assms(1-3) _ _ assms(7)] assms(5) by blast
  from download_recorded [OF node tail rec assms(2) this] show ?thesis
    using upload_usable [OF healthy_usable [OF assms(1)] assms(2,4)] assms(8) by simp
qed

text \<open>A client that knows one more storage node, on port 8003, where nothing runs.\<close>

definition wit_larger_client :: client where
  "wit_larger_client = new_client [''127.0.0.1:8001'', ''127.0.0.1:8002'', ''127.0.0.1:8003'']
     [''127.0.0.1:9001'', ''127.0.0.1:9002'', ''127.0.0.1:9003'']"

lemma wit_larger_ring: "dht_of wit_larger_client = addNode ''127.0.0.1:8003'' wit_ring"
  by (simp add: wit_larger_client_def new_client_def wit_ring_def)

lemma wit_8003: "addr_ep startCluster ''127.0.0.1:8003'' = Some (local_ep 8003)"
  by (simp add: addr_ep_def parse_address_def split_first_def stoi_def split_sign_def is_space_def is_digit_def
      digits_val_def digit_val_def endpoint_of_def startCluster_def local_resolve_def)

theorem resized_ring_finds_file_witness:
  "\<exists>net1. uploadFile 2 wit_client wit_fs ''a.txt'' startCluster = (Ret (Uploaded (hd (metadataNodes wit_client))), net1) \<and>
     downloadFile 2 wit_larger_client (base_name ''a.txt'') ''out'' wit_fs net1 =
       (Ret Reconstructed, wit_fs\<lparr>files := (files wit_fs)(''out'' \<mapsto> [1, 2, 3])\<rparr>, net1)"
proof (rule resized_ring_finds_file [OF healthy_local wit_file])
  show "length local_chain \<le> Suc 2" by (simp add: local_chain_def)
  have "chunk_at e h startCluster = None" for e h by (simp add: chunk_at_def startCluster_def new_storage_node_def)
  then show "\<forall>c \<in> set (file_chunks wit_fs ''a.txt''). consistent_at startCluster (chunk_hash c) (chunk_data c)"
    by (simp add: consistent_at_def)
  show "metadataNodes wit_larger_client = metadataNodes wit_client"
    by (simp add: wit_larger_client_def wit_client_def new_client_def)
  have "\<not> hasNode wit_ring ''127.0.0.1:8003''" by code_simp
  moreover have "2 \<le> length (getAllNodes wit_ring)" by (simp add: getAllNodes_def wit_ring_eq)
  ultimately have "grown_by ''127.0.0.1:8003'' (dht_of wit_client) (dht_of wit_larger_client)"
    by (simp add: grown_by_def wit_client_ring wit_larger_ring)
  moreover have "storage_place startCluster (local_ep 8003)" by (simp add: storage_place_def startCluster_def)
  ultimately show "neighbours startCluster (dht_of wit_client) (dht_of wit_larger_client)"
    unfolding neighbours_def using wit_8003 by blast
  show "creatable wit_fs ''out''" by (simp add: wit_fs_def)
qed

end
