(* ===== verification/Spec2Isabelle.thy ===== *)
theory Spec2Isabelle
  imports Chunking Consistent_Hash Tcp_Framing Server_Sockets Storage_Node Server_Lifecycle
    Node_Invariant Chain_Growth Chain_Interleaving Chain_Faults Metadata_Lifecycle Test_Suite Performance Ring_Resize
begin

text \<open>
  Verification of the distributed file storage system under \<^verbatim>\<open>src/\<close>. Paths below are
  those of the repository; the C++ library code lives in \<^verbatim>\<open>src/src/\<close>, the programs in
  \<^verbatim>\<open>src/apps/\<close>.

  \<^bold>\<open>The program.\<close> A client cuts a file into chunks of 1 MB, names each chunk by its SHA-256
  digest and stores it on the nodes a consistent-hash ring chooses. The record of the file
  (name, sizes, root hash, list of chunk digests) goes to the head of a chain of metadata
  nodes; each node stores it and forwards it, the last one acknowledges, and reads are
  answered by the last node only. A metadata node checks its successor and, when it is gone,
  takes a configured skip node or becomes the end of the chain. All parties exchange
  length-prefixed messages over TCP. \<open>DIE\<close> stops a node.

  \<^bold>\<open>Theories and the code they model.\<close>

  \<^item> \<open>Dfs_Prelude\<close>: bytes, strings, the outcome of a call that returns, throws or blocks,
    the file system record, \<open>int\<close> of a \<open>size_t\<close>, list lemmas, the lemma collections.
  \<^item> \<open>Std_Map\<close>: \<^verbatim>\<open>std::map\<close> as a strictly sorted association list; locale for its laws,
    interpreted as \<open>sm\<close>. \<open>Text_Stream\<close>: extraction from \<^verbatim>\<open>std::istringstream\<close> into words
    and bounded integers with its failure flag, \<^verbatim>\<open>getline\<close>, \<^verbatim>\<open>to_string\<close>, \<^verbatim>\<open>stoi\<close>.
  \<^item> \<open>Sha256\<close> (\<^verbatim>\<open>common/sha256.cpp\<close>): the loops of the hand-written hash over 32-bit words,
    beside the standard's own definition.
  \<^item> \<open>Chunking\<close> (\<^verbatim>\<open>common/chunk\<close>, \<^verbatim>\<open>file_utils\<close>, \<^verbatim>\<open>hash_utils\<close>, \<^verbatim>\<open>client/verify_files.cpp\<close>):
    \<open>splitFileIntoChunks\<close>, \<open>reconstructFile\<close>, the hashes and \<open>computeCID\<close>.
  \<^item> \<open>Consistent_Hash\<close> (\<^verbatim>\<open>dht/consistent_hash.cpp\<close>): the ring. The locale \<open>placement\<close> states
    what a client of a placement may rely on; it is interpreted on the ring.
  \<^item> \<open>Tcp_Framing\<close>: the send and receive loops of \<^verbatim>\<open>network/tcp_client.cpp\<close> and
    \<^verbatim>\<open>tcp_server.cpp\<close>. \<open>Tcp_Sockets\<close>: the socket objects of the same files, their
    descriptors and the server's table of connections, a method being one step.
    \<open>Server_Sockets\<close>: the same server run by its threads, \<open>acceptClient\<close>, \<open>recvData\<close> and
    \<open>stop\<close> cut at their unlocked accesses, in a process that uses descriptors of its own.
  \<^item> \<open>Storage_Node\<close> (\<^verbatim>\<open>storage/storage_node.cpp\<close>): the chunk store and its handler, cut at
    its receives into steps of a connection's control state.
  \<^item> \<open>Server_Lifecycle\<close>: the threads of \<open>start\<close> in both kinds of node. \<open>Metadata_Lifecycle\<close>:
    those of the metadata node with its failing start, the detached health thread and the
    destruction of the node.
  \<^item> \<open>Metadata_Node\<close>, \<open>Node_Invariant\<close> (\<^verbatim>\<open>metadata/metadata_node.cpp\<close>): every command of a
    metadata node and its health check. The calls it makes to other nodes are the operations
    of the locale \<open>node_world\<close> and arguments of the definitions.
  \<^item> \<open>Cluster\<close>: servers at addresses, connections, \<open>forwardPut\<close>, \<open>pingNext\<close> and
    \<open>notifyNextOfPredecessor\<close> carried out by the other nodes' handlers; \<open>node_world\<close> is
    interpreted on it as \<open>nw\<close>. \<open>Chain_Register\<close>: the chain as one map; the locale
    \<open>record_service\<close> is interpreted on one node and on a chain. \<open>Chain_Growth\<close>: a
    chain that gets a new last node. \<open>Chain_Interleaving\<close>: several writes under way.
  \<^item> \<open>Tasks\<close>: threads on shared state, cut where another may run. \<open>Put_Tasks\<close>, \<open>Chain_Faults\<close>
    (\<^verbatim>\<open>metadata/metadata_node.cpp\<close>): writes, health threads and dying nodes as such threads, and
    the chain under any interleaving of them.
  \<^item> \<open>Client\<close>, \<open>Client_Correct\<close>, \<open>End_To_End\<close>, \<open>Client_Behaviour\<close> (\<^verbatim>\<open>client/client.cpp\<close>): the
    client's functions; their effect on the network; upload followed by download; what
    happens off the good path. \<open>File_Service\<close>: sessions of uploads and downloads from
    several machines against one map from names to contents; the locale
    \<open>service_refinement\<close> is interpreted on the cluster. \<open>Ring_Resize\<close>: clients whose rings
    differ by one storage node.
  \<^item> \<open>Client_Tasks\<close>, \<open>Client_Pool\<close>, \<open>Concurrent_Clients\<close>: the client as a thread, what clients
    on one machine and one cluster need of each other, and the concurrent test.
  \<^item> \<open>Node_Config\<close> (\<^verbatim>\<open>common/node_config.cpp\<close>), \<open>Programs\<close> (\<^verbatim>\<open>main_client\<close>,
    \<^verbatim>\<open>main_metadata_node\<close>, \<^verbatim>\<open>main_storage_node\<close>, \<^verbatim>\<open>main_verify_files\<close>), \<open>System_Tests\<close> and
    \<open>Test_Suite\<close> (\<^verbatim>\<open>main_system_tests\<close>), \<open>Performance\<close> (\<^verbatim>\<open>main_performance_experiments\<close> and
    \<^verbatim>\<open>main_performance_evaluation\<close>, their figures computed from given clock readings).
\<close>

text \<open>
  \<^bold>\<open>State.\<close> Each class is a record with the fields of its header. A \<^verbatim>\<open>std::map\<close>
  used only by key is a partial function; the ring, whose order matters, is an association
  list. A node's mutex makes each critical section one step. \<^verbatim>\<open>uint8_t\<close> and \<^verbatim>\<open>uint32_t\<close>
  are words of that width; an \<^verbatim>\<open>int\<close> that only compares or counts is an integer, and the
  arithmetic that can leave its range (\<open>hashKey\<close>, chunk sizes and indices, ports, lengths on
  the wire) is cut to its width in the definition. An exception is the outcome \<open>Throw\<close>, a
  receive that no message will ever satisfy is \<open>Hang\<close>.

  \<^bold>\<open>What the lemmas show.\<close> \<open>Sha256\<close>: the code equals the standard's function. \<open>Chunking\<close>:
  splitting then reassembling gives the file back, in whatever order the chunks come, and
  the exact conditions of failure. \<open>Consistent_Hash\<close>: the replica set, and that adding or
  removing a node moves only the keys it must. \<open>Tcp_Framing\<close>: a frame arrives whole or not
  at all under every fragmentation. \<open>Tcp_Sockets\<close>: descriptors are neither lost nor closed
  twice. \<open>Storage_Node\<close> and \<open>Node_Invariant\<close>: invariants of every reachable state.
  \<open>Server_Lifecycle\<close>: \<open>start\<close> waits for its handlers, and two ways in which the hand-over
  goes wrong. \<open>Metadata_Lifecycle\<close>: what still runs on a destroyed metadata node.
  \<open>Server_Sockets\<close>: with one \<open>DIE\<close> the node gives back exactly its own descriptors under
  every interleaving; with two, or with a receive under way, it need not. \<open>Cluster\<close>: a
  write is stored along the chain or refused, and what the repair of the chain achieves and
  does not. \<open>Chain_Register\<close>: a chain answers a sequence of requests
  as one map does. \<open>Chain_Growth\<close>: a chain that grows answers as an empty map.
  \<open>Chain_Interleaving\<close>: what is left of that when writes overlap.
  \<open>Chain_Faults\<close>: with skip nodes an acknowledged write is on every node still up, however
  writes, health threads and deaths interleave. \<open>End_To_End\<close>: a file uploaded to a healthy
  cluster survives the loss of one server. \<open>File_Service\<close>: any session of uploads and
  downloads, with such a loss on the way, is answered as by one map. \<open>Ring_Resize\<close>: a client
  with one storage node more or fewer finds the files. \<open>Programs\<close>,
  \<open>System_Tests\<close>, \<open>Test_Suite\<close>, \<open>Performance\<close>: the same through the programs, the tests' verdicts
  and the runs of the measurements. \<open>Client_Tasks\<close>, \<open>Put_Tasks\<close>: a thread that is not
  interrupted does what the sequential function does; \<open>Concurrent_Clients\<close>: clients on files
  of their own do not disturb each other.

  \<^bold>\<open>Fuel and bounds.\<close> Handlers call handlers along the chain, so \<open>forwardPut\<close> takes a fuel
  that bounds the depth of such calls. Fuel of the number of nodes behind the one called is
  enough (\<open>Cluster.chain_put\<close>), and the properties say so; in a cycle of successors no fuel
  is enough (\<open>Chain_Register.put_in_cycle_never_returns\<close>). All other loops are structural or
  have a proved measure. Messages are below 4 GiB, the range of the length word; files below
  \<open>2 ^ 45\<close> bytes in the end-to-end statements, so that chunk indices and digest lists stay in
  range; descriptions of both limits being passed are in \<open>Tcp_Framing\<close> and \<open>Chunking\<close>.

  \<^bold>\<open>What is assumed of the environment.\<close> A send on an open connection succeeds, and a stopped
  server refuses connections and ends those it has. Requests run one after the other except
  where a theory is about their interleaving: \<open>Storage_Node\<close> (connections of one node), the
  two lifecycles, \<open>Server_Sockets\<close>, \<open>Chain_Interleaving\<close> and the theories on \<open>Tasks\<close>. There a
  remote call of a client, and a ping with its answer, is one step. Where it matters that two
  different chunks do not share a digest this is a hypothesis of the theorem (\<open>End_To_End\<close>,
  \<open>File_Service\<close>, the tests). Name resolution, the file system's writability
  and the answers of the socket calls are parameters. The signed overflow in \<open>hashKey\<close>
  wraps, as compilers in use make it do.

  \<^bold>\<open>Not modelled.\<close> Console output, sleeps and the text of the result files; the figures in them
  are exact rationals, without the rounding of \<^verbatim>\<open>double\<close>. \<open>UPDATE_NEXT\<close> and \<open>SET_SKIP\<close> that
  arrive in the middle of an overlapping write (the health threads' repairs are modelled).
  Data races on members read without their mutex, beyond the order of the accesses: a read
  or write of a member is one step. Failure to create a thread. Build files and the plotting
  script.
\<close>

end
